(* ===== verification/Xv6_Prelude.thy ===== *)
theory Xv6_Prelude
  imports Main "HOL-Library.Word"
begin

unbundle bit_operations_syntax

text \<open>
  Shared vocabulary of the development.

  \<^item> The machine integers of \<^verbatim>\<open>types.h\<close> (\<open>uint\<close>, \<open>ushort\<close>, \<open>uchar\<close>) as words, and the
    constants of \<^verbatim>\<open>param.h\<close>, \<^verbatim>\<open>fs.h\<close>, \<^verbatim>\<open>mmu.h\<close>, \<^verbatim>\<open>memlayout.h\<close> and \<^verbatim>\<open>stat.h\<close>.
  \<^item> The outcome of running kernel code: a value, a \<open>panic\<close>, going to sleep on a channel
    with nobody left in the sequential model to wake the process up, a loop that has run
    out of the fuel its model gives it, or an access that is undefined in C. Sequencing is
    \<open>and_then\<close>.
  \<^item> Little-endian integers in memory (\<open>load32\<close>, \<open>store32\<close>) and in disk blocks
    (\<open>get32\<close>, \<open>put32\<close>, \<open>get16\<close>, \<open>put16\<close>), and the overlaying of a byte string on a block,
    each with its round-trip and frame lemmas.
\<close>

section \<open>Machine integers and constants\<close>

type_synonym u8 = "8 word"
type_synonym u16 = "16 word"
type_synonym u32 = "32 word"

text \<open>Byte-addressed memory with 32-bit addresses.\<close>
type_synonym mem = "u32 \<Rightarrow> u8"

text \<open>A disk block, or any other C array of bytes.\<close>
type_synonym bytes = "u8 list"

abbreviation (input) NPROC :: nat where "NPROC \<equiv> 64"
abbreviation (input) NOFILE :: nat where "NOFILE \<equiv> 16"
abbreviation (input) NFILE :: nat where "NFILE \<equiv> 100"
abbreviation (input) NINODE :: nat where "NINODE \<equiv> 50"
abbreviation (input) NDEV :: nat where "NDEV \<equiv> 10"
abbreviation (input) ROOTDEV :: u32 where "ROOTDEV \<equiv> 1"
abbreviation (input) MAXARG :: nat where "MAXARG \<equiv> 32"
abbreviation (input) MAXOPBLOCKS :: nat where "MAXOPBLOCKS \<equiv> 10"
abbreviation (input) LOGSIZE :: nat where "LOGSIZE \<equiv> 30"
abbreviation (input) NBUF :: nat where "NBUF \<equiv> 30"
abbreviation (input) FSSIZE :: u32 where "FSSIZE \<equiv> 1000"
abbreviation (input) BSIZE :: nat where "BSIZE \<equiv> 512"

abbreviation (input) PGSIZE :: u32 where "PGSIZE \<equiv> 4096"
abbreviation (input) EXTMEM :: u32 where "EXTMEM \<equiv> 0x100000"
abbreviation (input) PHYSTOP :: u32 where "PHYSTOP \<equiv> 0xE000000"
abbreviation (input) DEVSPACE :: u32 where "DEVSPACE \<equiv> 0xFE000000"
abbreviation (input) KERNBASE :: u32 where "KERNBASE \<equiv> 0x80000000"
abbreviation (input) KERNLINK :: u32 where "KERNLINK \<equiv> 0x80100000"

definition V2P :: "u32 \<Rightarrow> u32" where
  "V2P a = a - KERNBASE"

definition P2V :: "u32 \<Rightarrow> u32" where
  "P2V a = a + KERNBASE"

definition PGROUNDUP :: "u32 \<Rightarrow> u32" where
  "PGROUNDUP sz = (sz + PGSIZE - 1) AND NOT (PGSIZE - 1)"

definition PGROUNDDOWN :: "u32 \<Rightarrow> u32" where
  "PGROUNDDOWN a = a AND NOT (PGSIZE - 1)"

section \<open>Outcomes of kernel code\<close>

datatype 'a outcome =
    Ret 'a
  | Panic string
  | Block string
  | Hang
  | Fault string

definition and_then :: "'a outcome \<Rightarrow> ('a \<Rightarrow> 'b outcome) \<Rightarrow> 'b outcome" where
  "and_then m f = (case m of
      Ret x \<Rightarrow> f x
    | Panic s \<Rightarrow> Panic s
    | Block c \<Rightarrow> Block c
    | Hang \<Rightarrow> Hang
    | Fault s \<Rightarrow> Fault s)"

lemma and_then_simps [simp]:
  "and_then (Ret x) f = f x"
  "and_then (Panic s) f = Panic s"
  "and_then (Block c) f = Block c"
  "and_then Hang f = Hang"
  "and_then (Fault s) f = Fault s"
  by (simp_all add: and_then_def)

lemma and_then_cong [fundef_cong]:
  "m = m' \<Longrightarrow> (\<And>x. m' = Ret x \<Longrightarrow> f x = f' x) \<Longrightarrow> and_then m f = and_then m' f'"
  by (cases m') (simp_all add: and_then_def)

lemma and_then_assoc: "and_then (and_then m f) g = and_then m (\<lambda>x. and_then (f x) g)"
  by (cases m) simp_all

lemma and_then_Ret [simp]: "and_then m Ret = m"
  by (cases m) simp_all

lemma and_then_eq_Ret_iff:
  "and_then m f = Ret y \<longleftrightarrow> (\<exists>x. m = Ret x \<and> f x = Ret y)"
  by (cases m) simp_all

lemma and_then_RetE:
  assumes "and_then m f = Ret y"
  obtains x where "m = Ret x" and "f x = Ret y"
  using assms by (auto simp: and_then_eq_Ret_iff)

text \<open>A counting loop: the body at each value of the counter, stopping at the first failure.\<close>

primrec foldo :: "('a \<Rightarrow> 's \<Rightarrow> 's outcome) \<Rightarrow> 'a list \<Rightarrow> 's \<Rightarrow> 's outcome" where
  "foldo f [] s = Ret s"
| "foldo f (x # xs) s = and_then (f x s) (foldo f xs)"

lemma foldo_append: "foldo f (xs @ ys) s = and_then (foldo f xs s) (foldo f ys)"
  by (induction xs arbitrary: s) (simp_all add: and_then_assoc cong: and_then_cong)

lemma foldo_upt_Suc: "foldo f [0..<Suc n] s = and_then (foldo f [0..<n] s) (f n)"
  by (simp add: foldo_append cong: and_then_cong)

section \<open>Facts that a development collects\<close>

named_theorems view_simps \<open>how an operation changes the abstract view of a component\<close>
named_theorems frame_simps \<open>what an operation leaves alone\<close>
named_theorems inv_intros \<open>preservation of component invariants\<close>

section \<open>Unsigned 32-bit arithmetic\<close>

lemma unat_u32_less: "unat (x :: u32) < 2 ^ 32"
  using unsigned_less [of x, where ?'a = nat] by simp

lemma unat_of_nat_u32: "n < 2 ^ 32 \<Longrightarrow> unat (of_nat n :: u32) = n"
  by (simp add: unat_of_nat)

lemma unat_minus_one_u32: "unat (- 1 :: u32) = 2 ^ 32 - 1"
  by (simp add: unsigned_minus_1_eq_mask mask_eq_exp_minus_1)

lemma unat_add_u32:
  fixes s j :: u32
  shows "unat s + unat j < 2 ^ 32 \<Longrightarrow> unat (s + j) = unat s + unat j"
  using unat_add_lem [of s j] by simp

text \<open>
  Offsets from a moving pointer: every byte other than the one at the pointer is one closer
  to the next position.
\<close>

lemma unat_diff_Suc:
  fixes x d :: u32
  shows "x \<noteq> d \<Longrightarrow> unat (x - (d + 1)) < k \<longleftrightarrow> unat (x - d) < Suc k"
proof -
  assume ne: "x \<noteq> d"
  have "unat (x - d - 1) = unat (x - d) - 1"
    using ne by (intro unat_minus_one) simp
  moreover have "0 < unat (x - d)"
    using ne by (simp add: unat_gt_0)
  ultimately show ?thesis by (simp add: diff_diff_eq) linarith
qed

section \<open>Little-endian integers\<close>

definition ubyte :: "nat \<Rightarrow> 'a::len word \<Rightarrow> u8" where
  "ubyte k v = ucast (drop_bit (8 * k) v)"

definition le16 :: "u8 \<Rightarrow> u8 \<Rightarrow> u16" where
  "le16 b0 b1 = ucast b0 OR push_bit 8 (ucast b1)"

definition le32 :: "u8 \<Rightarrow> u8 \<Rightarrow> u8 \<Rightarrow> u8 \<Rightarrow> u32" where
  "le32 b0 b1 b2 b3 =
     ucast b0 OR push_bit 8 (ucast b1) OR push_bit 16 (ucast b2) OR push_bit 24 (ucast b3)"

lemma bit_ubyte: "bit (ubyte k (v :: 'a::len word)) n \<longleftrightarrow> n < 8 \<and> bit v (8 * k + n)"
  by (auto simp: ubyte_def bit_ucast_iff bit_drop_bit_eq dest: bit_imp_le_length)

lemma bit_le16:
  "bit (le16 b0 b1) n \<longleftrightarrow>
     (if n < 8 then bit b0 n else n < 16 \<and> bit b1 (n - 8))"
  by (auto simp: le16_def bit_or_iff bit_ucast_iff bit_push_bit_iff dest: bit_imp_le_length)

lemma bit_le32:
  "bit (le32 b0 b1 b2 b3) n \<longleftrightarrow>
     (if n < 8 then bit b0 n else if n < 16 then bit b1 (n - 8)
      else if n < 24 then bit b2 (n - 16) else n < 32 \<and> bit b3 (n - 24))"
  by (auto simp: le32_def bit_or_iff bit_ucast_iff bit_push_bit_iff dest: bit_imp_le_length)

lemma le16_ubyte [simp]: "le16 (ubyte 0 v) (ubyte (Suc 0) v) = v"
  by (rule bit_word_eqI) (auto simp: bit_le16 bit_ubyte)

lemma ubyte_le16 [simp]:
  "ubyte 0 (le16 b0 b1) = b0"
  "ubyte (Suc 0) (le16 b0 b1) = b1"
  by (rule bit_word_eqI; auto simp: bit_le16 bit_ubyte)+

lemma le32_ubyte [simp]:
  "le32 (ubyte 0 v) (ubyte (Suc 0) v) (ubyte 2 v) (ubyte 3 v) = v"
  by (rule bit_word_eqI) (auto simp: bit_le32 bit_ubyte)

lemma ubyte_le32 [simp]:
  "ubyte 0 (le32 b0 b1 b2 b3) = b0"
  "ubyte (Suc 0) (le32 b0 b1 b2 b3) = b1"
  "ubyte 2 (le32 b0 b1 b2 b3) = b2"
  "ubyte 3 (le32 b0 b1 b2 b3) = b3"
  by (rule bit_word_eqI; auto simp: bit_le32 bit_ubyte)+

subsection \<open>In memory\<close>

definition load32 :: "mem \<Rightarrow> u32 \<Rightarrow> u32" where
  "load32 m a = le32 (m a) (m (a + 1)) (m (a + 2)) (m (a + 3))"

definition store32 :: "u32 \<Rightarrow> u32 \<Rightarrow> mem \<Rightarrow> mem" where
  "store32 a v m =
     m(a := ubyte 0 v, a + 1 := ubyte (Suc 0) v, a + 2 := ubyte 2 v, a + 3 := ubyte 3 v)"

lemma load32_store32_same [simp]: "load32 (store32 a v m) a = v"
  by (simp add: load32_def store32_def)

lemma load32_cong:
  assumes "\<And>k. k < 4 \<Longrightarrow> m (a + k) = m' (a + k)"
  shows "load32 m a = load32 m' a"
  using assms [of 0] assms [of 1] assms [of 2] assms [of 3] by (simp add: load32_def)

lemma store32_other:
  assumes "\<And>k. k < 4 \<Longrightarrow> x \<noteq> a + k"
  shows "store32 a v m x = m x"
  using assms [of 0] assms [of 1] assms [of 2] assms [of 3] by (simp add: store32_def)

subsection \<open>In blocks\<close>

definition get16 :: "bytes \<Rightarrow> nat \<Rightarrow> u16" where
  "get16 bs i = le16 (bs ! i) (bs ! (i + 1))"

definition put16 :: "nat \<Rightarrow> u16 \<Rightarrow> bytes \<Rightarrow> bytes" where
  "put16 i v bs = bs[i := ubyte 0 v, i + 1 := ubyte (Suc 0) v]"

definition get32 :: "bytes \<Rightarrow> nat \<Rightarrow> u32" where
  "get32 bs i = le32 (bs ! i) (bs ! (i + 1)) (bs ! (i + 2)) (bs ! (i + 3))"

definition put32 :: "nat \<Rightarrow> u32 \<Rightarrow> bytes \<Rightarrow> bytes" where
  "put32 i v bs =
     bs[i := ubyte 0 v, i + 1 := ubyte (Suc 0) v, i + 2 := ubyte 2 v, i + 3 := ubyte 3 v]"

lemma length_put16 [simp]: "length (put16 i v bs) = length bs"
  by (simp add: put16_def)

lemma length_put32 [simp]: "length (put32 i v bs) = length bs"
  by (simp add: put32_def)

lemma get16_put16_same [simp]: "i + 1 < length bs \<Longrightarrow> get16 (put16 i v bs) i = v"
  by (simp add: get16_def put16_def)

lemma get32_put32_same [simp]: "i + 3 < length bs \<Longrightarrow> get32 (put32 i v bs) i = v"
  by (simp add: get32_def put32_def)

lemma nth_put16_other: "j < i \<or> i + 1 < j \<Longrightarrow> put16 i v bs ! j = bs ! j"
  by (auto simp: put16_def)

lemma nth_put32_other: "j < i \<or> i + 3 < j \<Longrightarrow> put32 i v bs ! j = bs ! j"
  by (auto simp: put32_def)

lemma get16_put16_other:
  "j + 1 < i \<or> i + 1 < j \<Longrightarrow> get16 (put16 i v bs) j = get16 bs j"
  by (auto simp: get16_def nth_put16_other)

lemma get16_put32_other:
  "j + 1 < i \<or> i + 3 < j \<Longrightarrow> get16 (put32 i v bs) j = get16 bs j"
  by (auto simp: get16_def nth_put32_other)

lemma get32_put16_other:
  "j + 3 < i \<or> i + 1 < j \<Longrightarrow> get32 (put16 i v bs) j = get32 bs j"
  by (auto simp: get32_def nth_put16_other)

lemma get32_put32_other:
  "j + 3 < i \<or> i + 3 < j \<Longrightarrow> get32 (put32 i v bs) j = get32 bs j"
  by (auto simp: get32_def nth_put32_other)

lemmas get_put_other =
  get16_put16_other get16_put32_other get32_put16_other get32_put32_other

subsection \<open>Overlaying a byte string\<close>

text \<open>The effect of \<open>memmove\<close> into the middle of a block.\<close>

definition overlay :: "nat \<Rightarrow> bytes \<Rightarrow> bytes \<Rightarrow> bytes" where
  "overlay off src bs = take off bs @ src @ drop (off + length src) bs"

definition subbytes :: "nat \<Rightarrow> nat \<Rightarrow> bytes \<Rightarrow> bytes" where
  "subbytes off n bs = take n (drop off bs)"

lemma length_overlay [simp]:
  "off + length src \<le> length bs \<Longrightarrow> length (overlay off src bs) = length bs"
  by (simp add: overlay_def)

lemma length_subbytes [simp]: "off + n \<le> length bs \<Longrightarrow> length (subbytes off n bs) = n"
  by (simp add: subbytes_def)

lemma subbytes_overlay_same:
  "off + length src \<le> length bs \<Longrightarrow> subbytes off (length src) (overlay off src bs) = src"
  by (simp add: subbytes_def overlay_def)

lemma nth_overlay:
  assumes "off + length src \<le> length bs" and "i < length bs"
  shows "overlay off src bs ! i =
    (if i < off then bs ! i else if i < off + length src then src ! (i - off) else bs ! i)"
  using assms by (auto simp: overlay_def nth_append)

lemma nth_subbytes: "off + n \<le> length bs \<Longrightarrow> i < n \<Longrightarrow> subbytes off n bs ! i = bs ! (off + i)"
  by (simp add: subbytes_def)

section \<open>Signed reading of a word\<close>

lemma sint_small:
  assumes "unat (n :: u32) < 2 ^ 31"
  shows "sint n = int (unat n)"
proof -
  define k where "k = int (unat n)"
  have u: "uint n = k" by (simp add: k_def)
  have "k < 2 ^ 31" using assms unfolding k_def by (metis of_nat_less_iff of_nat_numeral of_nat_power)
  moreover have "0 \<le> k" by (simp add: k_def)
  ultimately have "signed_take_bit 31 k = k" by (intro signed_take_bit_int_eq_self) simp_all
  then show ?thesis unfolding sint_uint u k_def [symmetric] by simp
qed

end
