(* ===== verification/Xv6_String.thy ===== *)
theory Xv6_String
  imports Xv6_Prelude
begin

text \<open>
  The memory and string routines of \<^verbatim>\<open>string.c\<close>, with the two string instructions of
  \<^verbatim>\<open>x86.h\<close> that \<open>memset\<close> uses. The routines that move memory (\<open>memset\<close>, \<open>memmove\<close>) work
  on the whole memory, so that overlapping regions behave as in C. Routines that only read a
  string take the pointer as the function from offsets to the bytes found there; those that
  write one (\<open>strncpy\<close>, \<open>safestrcpy\<close>) return the bytes they store from the destination
  pointer on, the source being another object.
\<close>

section \<open>Definitions\<close>

subsection \<open>memset\<close>

fun stosb :: "nat \<Rightarrow> u32 \<Rightarrow> u8 \<Rightarrow> mem \<Rightarrow> mem" where
  "stosb 0 a d m = m"
| "stosb (Suc k) a d m = stosb k (a + 1) d (m(a := d))"

fun stosl :: "nat \<Rightarrow> u32 \<Rightarrow> u32 \<Rightarrow> mem \<Rightarrow> mem" where
  "stosl 0 a d m = m"
| "stosl (Suc k) a d m = stosl k (a + 4) d (store32 a d m)"

definition memset :: "u32 \<Rightarrow> u32 \<Rightarrow> u32 \<Rightarrow> mem \<Rightarrow> mem" where
  "memset dst c n m =
     (if dst mod 4 = 0 \<and> n mod 4 = 0 then
        (let c = c AND 0xFF in
           stosl (unat (n div 4)) dst
             (push_bit 24 c OR push_bit 16 c OR push_bit 8 c OR c) m)
      else stosb (unat n) dst (ucast c) m)"

subsection \<open>memmove\<close>

fun copy_up :: "nat \<Rightarrow> u32 \<Rightarrow> u32 \<Rightarrow> mem \<Rightarrow> mem" where
  "copy_up 0 d s m = m"
| "copy_up (Suc n) d s m = copy_up n (d + 1) (s + 1) (m(d := m s))"

fun copy_down :: "nat \<Rightarrow> u32 \<Rightarrow> u32 \<Rightarrow> mem \<Rightarrow> mem" where
  "copy_down 0 d s m = m"
| "copy_down (Suc n) d s m = copy_down n (d - 1) (s - 1) (m(d - 1 := m (s - 1)))"

definition memmove :: "u32 \<Rightarrow> u32 \<Rightarrow> u32 \<Rightarrow> mem \<Rightarrow> mem" where
  "memmove dst src n m =
     (if src < dst \<and> src + n > dst then copy_down (unat n) (dst + n) (src + n) m
      else copy_up (unat n) dst src m)"

definition memcpy :: "u32 \<Rightarrow> u32 \<Rightarrow> u32 \<Rightarrow> mem \<Rightarrow> mem" where
  "memcpy dst src n m = memmove dst src n m"

subsection \<open>Strings\<close>

type_synonym cptr = "nat \<Rightarrow> u8"

abbreviation inc :: "cptr \<Rightarrow> cptr" where
  "inc p \<equiv> (\<lambda>i. p (Suc i))"

fun memcmp :: "cptr \<Rightarrow> cptr \<Rightarrow> nat \<Rightarrow> int" where
  "memcmp s1 s2 0 = 0"
| "memcmp s1 s2 (Suc n) =
     (if s1 0 \<noteq> s2 0 then uint (s1 0) - uint (s2 0) else memcmp (inc s1) (inc s2) n)"

fun strncmp :: "cptr \<Rightarrow> cptr \<Rightarrow> nat \<Rightarrow> int" where
  "strncmp p q 0 = 0"
| "strncmp p q (Suc n) =
     (if p 0 \<noteq> 0 \<and> p 0 = q 0 then strncmp (inc p) (inc q) n
      else uint (p 0) - uint (q 0))"

fun strncpy :: "cptr \<Rightarrow> nat \<Rightarrow> bytes" where
  "strncpy t 0 = []"
| "strncpy t (Suc n) = t 0 # (if t 0 \<noteq> 0 then strncpy (inc t) n else replicate n 0)"

fun safestrcpy_loop :: "cptr \<Rightarrow> nat \<Rightarrow> bytes" where
  "safestrcpy_loop t 0 = [0]"
| "safestrcpy_loop t (Suc n) =
     t 0 # (if t 0 \<noteq> 0 then safestrcpy_loop (inc t) n else [0])"

definition safestrcpy :: "cptr \<Rightarrow> int \<Rightarrow> bytes" where
  "safestrcpy t n = (if n \<le> 0 then [] else safestrcpy_loop t (nat (n - 1)))"

partial_function (option) strlen_from :: "cptr \<Rightarrow> nat \<Rightarrow> nat option" where
  "strlen_from s n = (if s n = 0 then Some n else strlen_from s (Suc n))"

definition strlen :: "cptr \<Rightarrow> nat option" where
  "strlen s = strlen_from s 0"

text \<open>The C string at a pointer into an array of \<open>n\<close> bytes: what comes before the NUL.\<close>

definition cstr :: "nat \<Rightarrow> cptr \<Rightarrow> bytes" where
  "cstr n p = takeWhile (\<lambda>b. b \<noteq> 0) (map p [0..<n])"

section \<open>memset\<close>

lemma stosb_apply:
  "k < 2 ^ 32 \<Longrightarrow> stosb k a d m x = (if unat (x - a) < k then d else m x)"
proof (induction k arbitrary: a m)
  case 0
  then show ?case by simp
next
  case (Suc k)
  show ?case
  proof (cases "x = a")
    case True
    have "unat (x - (a + 1)) = 2 ^ 32 - 1"
      using True by (simp add: unat_minus_one_u32)
    with Suc True show ?thesis by simp
  next
    case False
    with Suc show ?thesis by (simp add: unat_diff_Suc)
  qed
qed

lemma replicated_byte:
  "push_bit 24 (c AND 0xFF) OR push_bit 16 (c AND 0xFF) OR push_bit 8 (c AND 0xFF) OR (c AND 0xFF)
     = le32 (ucast c) (ucast c) (ucast c) (ucast (c :: u32))"
proof -
  have "(0xFF :: u32) = mask 8"
    by (simp add: mask_eq_exp_minus_1)
  then have "c AND 0xFF = ucast (ucast c :: u8)"
    by (auto simp: bit_eq_iff bit_simps)
  then show ?thesis by (simp add: le32_def ac_simps)
qed

lemma stosb_4: "stosb 4 a d m = m(a := d, a + 1 := d, a + 2 := d, a + 3 := d)"
  by (simp add: eval_nat_numeral ac_simps)

lemma store32_replicated:
  "store32 a (le32 c c c c) m = stosb 4 a c m"
  by (simp add: store32_def stosb_4)

lemma stosb_add: "stosb (j + k) a d m = stosb k (a + of_nat j) d (stosb j a d m)"
  by (induction j arbitrary: a m) (simp_all add: ac_simps)

lemma stosl_stosb: "stosl k a (le32 c c c c) m = stosb (4 * k) a c m"
proof (induction k arbitrary: a m)
  case 0
  then show ?case by simp
next
  case (Suc k)
  have "stosb (4 * Suc k) a c m = stosb (4 * k) (a + 4) c (stosb 4 a c m)"
    using stosb_add [of 4 "4 * k" a c m] by simp
  with Suc show ?case by (simp add: store32_replicated)
qed

text \<open>The word-wise branch of \<open>memset\<close> stores what the byte-wise branch stores.\<close>

lemma memset_stosb: "memset dst c n m = stosb (unat n) dst (ucast c) m"
proof (cases "dst mod 4 = 0 \<and> n mod 4 = 0")
  case True
  then have "4 * unat (n div 4) = unat n"
    by (auto simp: unat_div unat_mod word_unat_eq_iff)
  moreover have "memset dst c n m
      = stosl (unat (n div 4)) dst (le32 (ucast c) (ucast c) (ucast c) (ucast c)) m"
    using True by (simp only: memset_def Let_def replicated_byte simp_thms if_True)
  ultimately show ?thesis by (simp add: stosl_stosb)
next
  case False
  then show ?thesis by (auto simp: memset_def)
qed

lemma memset_apply: "memset dst c n m x = (if x - dst < n then ucast c else m x)"
  using unat_u32_less [of n] by (simp add: memset_stosb stosb_apply word_less_nat_alt)

section \<open>memmove\<close>

lemma copy_up_apply:
  assumes "unat d + k \<le> 2 ^ 32" and "unat s + k \<le> 2 ^ 32" and "k < 2 ^ 32"
    and "unat d \<le> unat s \<or> unat s + k \<le> unat d"
  shows "copy_up k d s m x = (if unat (x - d) < k then m (s + (x - d)) else m x)"
  using assms
proof (induction k arbitrary: d s m)
  case 0
  then show ?case by simp
next
  case (Suc k)
  show ?case
  proof (cases "k = 0")
    case True
    then show ?thesis by (auto simp: unat_eq_zero)
  next
    case False
    let ?m = "m(d := m s)"
    have d1: "unat (d + 1) = unat d + 1" and s1: "unat (s + 1) = unat s + 1"
      using Suc.prems False by (simp_all add: unat_add_u32)
    have IH: "copy_up k (d + 1) (s + 1) ?m x
        = (if unat (x - (d + 1)) < k then ?m (s + 1 + (x - (d + 1))) else ?m x)"
      by (rule Suc.IH) (use Suc.prems d1 s1 in auto)
    show ?thesis
    proof (cases "x = d")
      case True
      then show ?thesis using IH Suc.prems by (simp add: unat_minus_one_u32)
    next
      case ne: False
      have "s + (x - d) \<noteq> d" if lt: "unat (x - d) < Suc k"
      proof
        assume eq: "s + (x - d) = d"
        have "unat (s + (x - d)) = unat s + unat (x - d)"
          using lt Suc.prems by (intro unat_add_u32) linarith
        moreover have "0 < unat (x - d)"
          using ne by (simp add: unat_gt_0)
        ultimately show False
          using eq lt Suc.prems(4) by auto
      qed
      with IH ne show ?thesis by (simp add: unat_diff_Suc)
    qed
  qed
qed

lemma copy_down_apply:
  assumes "unat d + k < 2 ^ 32" and "unat s + k < 2 ^ 32" and "unat s \<le> unat d"
  shows "copy_down k (d + of_nat k) (s + of_nat k) m x =
    (if unat (x - d) < k then m (s + (x - d)) else m x)"
  using assms
proof (induction k arbitrary: m)
  case 0
  then show ?case by simp
next
  case (Suc k)
  let ?e = "d + of_nat k" and ?t = "s + of_nat k"
  let ?m = "m(?e := m ?t)"
  have k: "unat (of_nat k :: u32) = k"
    using Suc.prems by (simp add: unat_of_nat_u32)
  have e: "unat ?e = unat d + k"
    using Suc.prems k by (simp add: unat_add_u32)
  have "copy_down (Suc k) (d + of_nat (Suc k)) (s + of_nat (Suc k)) m x
      = copy_down k ?e ?t ?m x"
    by (simp add: algebra_simps)
  also have "\<dots> = (if unat (x - d) < k then ?m (s + (x - d)) else ?m x)"
    by (rule Suc.IH) (use Suc.prems in auto)
  also have "\<dots> = (if unat (x - d) < Suc k then m (s + (x - d)) else m x)"
  proof (cases "x = ?e")
    case True
    then show ?thesis using k by simp
  next
    case False
    have "unat (x - d) \<noteq> k"
    proof
      assume "unat (x - d) = k"
      then have "x - d = of_nat k" using k by (simp add: word_unat_eq_iff)
      with False show False by (simp add: algebra_simps)
    qed
    moreover have "s + (x - d) \<noteq> ?e" if lt: "unat (x - d) < k"
    proof
      assume "s + (x - d) = ?e"
      then have "unat (s + (x - d)) = unat d + k"
        using e by (simp only:)
      moreover have "unat (s + (x - d)) = unat s + unat (x - d)"
        using lt Suc.prems by (intro unat_add_u32) linarith
      ultimately show False using lt Suc.prems by linarith
    qed
    ultimately show ?thesis using False by (auto simp: less_Suc_eq)
  qed
  finally show ?case .
qed

lemma memmove_apply:
  assumes d: "unat dst + unat n < 2 ^ 32" and s: "unat src + unat n < 2 ^ 32"
  shows "memmove dst src n m x = (if x - dst < n then m (src + (x - dst)) else m x)"
proof (cases "src < dst \<and> src + n > dst")
  case True
  then have "copy_down (unat n) (dst + of_nat (unat n)) (src + of_nat (unat n)) m x =
      (if unat (x - dst) < unat n then m (src + (x - dst)) else m x)"
    by (intro copy_down_apply d s) (simp add: word_less_nat_alt)
  with True show ?thesis by (simp add: memmove_def word_less_nat_alt)
next
  case False
  have "unat (src + n) = unat src + unat n"
    using s by (rule unat_add_u32)
  with False have "unat dst \<le> unat src \<or> unat src + unat n \<le> unat dst"
    by (auto simp: word_less_nat_alt)
  then have "copy_up (unat n) dst src m x =
      (if unat (x - dst) < unat n then m (src + (x - dst)) else m x)"
    using d s by (intro copy_up_apply) auto
  with False show ?thesis by (auto simp: memmove_def word_less_nat_alt)
qed

section \<open>Strings\<close>

lemma memcmp_eq_0_iff: "memcmp s1 s2 n = 0 \<longleftrightarrow> (\<forall>i<n. s1 i = s2 i)"
proof (induction n arbitrary: s1 s2)
  case 0
  then show ?case by simp
next
  case (Suc n)
  then show ?case by (auto simp: All_less_Suc2 word_uint_eq_iff)
qed

lemma cstr_0 [simp]: "cstr 0 p = []"
  by (simp add: cstr_def)

lemma cstr_Suc: "cstr (Suc n) p = (if p 0 = 0 then [] else p 0 # cstr n (inc p))"
  by (simp add: cstr_def upt_conv_Cons map_Suc_upt [symmetric] comp_def del: upt_Suc map_Suc_upt)

lemma length_cstr_le: "length (cstr n p) \<le> n"
  unfolding cstr_def by (rule order_trans [OF length_takeWhile_le]) simp

lemma strncmp_eq_0_iff: "strncmp p q n = 0 \<longleftrightarrow> cstr n p = cstr n q"
proof (induction n arbitrary: p q)
  case 0
  then show ?case by simp
next
  case (Suc n)
  then show ?case by (auto simp: cstr_Suc word_uint_eq_iff)
qed

lemma strncpy_eq: "strncpy t n = cstr n t @ replicate (n - length (cstr n t)) 0"
  by (induction n arbitrary: t) (auto simp: cstr_Suc)

lemma length_strncpy [simp]: "length (strncpy t n) = n"
  by (simp add: strncpy_eq length_cstr_le)

lemma cstr_nth: "cstr n ((!) xs) = takeWhile (\<lambda>b. b \<noteq> 0) xs" if "length xs = n"
  using that map_nth [of xs] by (simp add: cstr_def)

lemma cstr_no_zero: "0 \<notin> set (cstr n p)"
  by (auto simp: cstr_def dest: set_takeWhileD)

lemma cstr_strncpy: "cstr n ((!) (strncpy t n)) = cstr n t"
proof -
  have "takeWhile (\<lambda>b. b \<noteq> 0) (xs @ replicate k 0) = xs" if "0 \<notin> set xs" for k and xs :: bytes
    using that by (induction xs) (cases k, auto)
  then show ?thesis
    using cstr_no_zero by (simp add: cstr_nth) (simp add: strncpy_eq)
qed

text \<open>A terminated array holds the same string however much lies behind it.\<close>

lemma cstr_extend:
  assumes "xs \<noteq> []" and "last xs = 0" and "length xs \<le> m"
  shows "cstr m ((!) xs) = cstr (length xs) ((!) xs)"
proof -
  have "map ((!) xs) [0..<m] = map ((!) xs) [0..<length xs] @ map ((!) xs) [length xs..<m]"
    using assms(3) by (metis le_add_diff_inverse map_append upt_add_eq_append zero_le)
  then have "map ((!) xs) [0..<m] = xs @ map ((!) xs) [length xs..<m]" by (simp add: map_nth)
  moreover have "0 \<in> set xs" using assms(1,2) by (metis last_in_set)
  ultimately show ?thesis by (simp add: cstr_def map_nth takeWhile_append1)
qed

lemma safestrcpy_loop_length: "0 < length (safestrcpy_loop t k) \<and> length (safestrcpy_loop t k) \<le> Suc k"
  by (induction k arbitrary: t) auto

lemma safestrcpy_loop_cstr:
  "cstr (length (safestrcpy_loop t k)) ((!) (safestrcpy_loop t k)) = cstr k t"
proof (induction k arbitrary: t)
  case 0
  then show ?case by (simp add: cstr_Suc)
next
  case (Suc k)
  then show ?case by (simp add: cstr_Suc)
qed

lemma safestrcpy_loop_not_Nil [simp]: "safestrcpy_loop t k \<noteq> []"
  by (cases k) auto

lemma safestrcpy_loop_terminated: "last (safestrcpy_loop t k) = 0"
  by (induction k arbitrary: t) auto

lemma strlen_from_eq:
  "s (n + k) = 0 \<Longrightarrow> (\<And>i. i < k \<Longrightarrow> s (n + i) \<noteq> 0) \<Longrightarrow> strlen_from s n = Some (n + k)"
proof (induction k arbitrary: n)
  case 0
  then show ?case by (simp add: strlen_from.simps)
next
  case (Suc k)
  have "strlen_from s (Suc n) = Some (Suc n + k)"
    using Suc.prems(2) [of "Suc i" for i] Suc.prems(1) by (intro Suc.IH) auto
  moreover have "s n \<noteq> 0"
    using Suc.prems(2) [of 0] by simp
  ultimately show ?case by (simp add: strlen_from.simps [of s n])
qed

section \<open>Properties\<close>

text \<open>
  \<open>memset\<close> stores the low byte of \<open>c\<close> in exactly the \<open>n\<close> bytes from \<open>dst\<close>, whichever
  of its word-wise and byte-wise branches it takes.
\<close>

lemma memset_fills: "memset dst c n m x = (if x - dst < n then ucast c else m x)"
  by (rule memset_apply)

text \<open>
  C13. \<open>memmove\<close> copies correctly when the two ranges overlap, in either direction: each byte
  of the destination gets the byte the source had before the call.
\<close>

theorem memmove_overlapping:
  assumes "unat dst + unat n < 2 ^ 32" and "unat src + unat n < 2 ^ 32"
  shows "memmove dst src n m x = (if x - dst < n then m (src + (x - dst)) else m x)"
  using assms by (rule memmove_apply)

theorem memmove_overlapping_witness:
  "memmove 101 100 3 (\<lambda>a. ucast a) 102 = 101 \<and> memmove 100 101 3 (\<lambda>a. ucast a) 102 = 103"
  using memmove_overlapping [of 101 3 100 "\<lambda>a. ucast a" 102] memmove_overlapping [of 100 3 101 "\<lambda>a. ucast a" 102]
  by simp

text \<open>
  C14. \<open>safestrcpy\<close> writes at most \<open>n\<close> bytes, always ends with a NUL when \<open>n\<close> is positive, and
  the string it leaves is the source string cut to \<open>n - 1\<close> characters.
\<close>

theorem safestrcpy_terminates_string:
  assumes "0 < n"
  shows "length (safestrcpy t n) \<le> nat n \<and> safestrcpy t n \<noteq> [] \<and> last (safestrcpy t n) = 0 \<and>
    cstr (nat n) ((!) (safestrcpy t n)) = cstr (nat (n - 1)) t"
proof -
  let ?r = "safestrcpy_loop t (nat (n - 1))"
  have len: "length ?r \<le> nat n"
    using safestrcpy_loop_length [of t "nat (n - 1)"] assms by linarith
  have "cstr (nat n) ((!) ?r) = cstr (length ?r) ((!) ?r)"
    using safestrcpy_loop_not_Nil safestrcpy_loop_terminated len by (rule cstr_extend)
  also have "\<dots> = cstr (nat (n - 1)) t" by (rule safestrcpy_loop_cstr)
  finally have "cstr (nat n) ((!) ?r) = cstr (nat (n - 1)) t" .
  moreover have "safestrcpy t n = ?r" using assms by (simp add: safestrcpy_def)
  ultimately show ?thesis
    using len safestrcpy_loop_terminated [of t "nat (n - 1)"] by simp
qed

theorem safestrcpy_terminates_string_witness:
  "(0 :: int) < 3 \<and> safestrcpy (\<lambda>i. if i < 5 then 65 else 0) 3 = [65, 65, 0] \<and>
   last (safestrcpy (\<lambda>i. if i < 5 then 65 else 0) 3) = 0"
proof -
  have "safestrcpy (\<lambda>i. if i < 5 then 65 else 0) 3 = [65, 65, 0]"
    by code_simp
  then show ?thesis
    using safestrcpy_terminates_string [of 3 "\<lambda>i. if i < 5 then 65 else 0"] by simp
qed

text \<open>
  C15. Directory names: a name stored with \<open>strncpy\<close> in a field of \<open>n\<close> bytes compares equal
  with \<open>strncmp\<close> to exactly the strings that agree with it in the first \<open>n\<close> characters.
\<close>

theorem strncpy_strncmp:
  "strncmp q ((!) (strncpy t n)) n = 0 \<longleftrightarrow> cstr n q = cstr n t"
  unfolding strncmp_eq_0_iff using cstr_strncpy [of n t] by simp

end
