(* ===== verification/Kalloc.thy ===== *)
theory Kalloc
  imports Xv6_String
begin

text \<open>
  The physical page allocator of \<^verbatim>\<open>kalloc.c\<close>: a free list threaded through the free pages
  themselves. The state is the list head, the \<open>use_lock\<close> flag and memory; \<open>kend\<close> stands
  for the linker symbol \<open>end\<close>, the first address after the kernel image.

  The locale \<open>page_allocator\<close> is the contract the rest of the kernel relies on (a LIFO pool of
  distinct, well-formed pages); \<open>kalloc\<close> and \<open>kfree\<close> are shown to provide it.
\<close>

section \<open>Definitions\<close>

record kmem =
  use_lock :: bool
  freelist :: u32
  memory :: mem

definition kfree :: "u32 \<Rightarrow> u32 \<Rightarrow> 'a kmem_scheme \<Rightarrow> 'a kmem_scheme outcome" where
  "kfree kend v s =
     (if v mod PGSIZE \<noteq> 0 \<or> v < kend \<or> V2P v \<ge> PHYSTOP then Panic ''kfree''
      else
        (let m = memset v 1 PGSIZE (memory s);
             m = store32 v (freelist s) m
         in Ret (s\<lparr>memory := m, freelist := v\<rparr>)))"

definition kalloc :: "'a kmem_scheme \<Rightarrow> u32 \<times> 'a kmem_scheme" where
  "kalloc s =
     (let r = freelist s in
      (r, if r \<noteq> 0 then s\<lparr>freelist := load32 (memory s) r\<rparr> else s))"

text \<open>
  The loop of \<open>freerange\<close> ends because a page past the top of physical memory makes
  \<open>kfree\<close> panic.
\<close>

function freerange_loop :: "u32 \<Rightarrow> u32 \<Rightarrow> u32 \<Rightarrow> 'a kmem_scheme \<Rightarrow> 'a kmem_scheme outcome" where
  "freerange_loop kend p vend s =
     (if p + PGSIZE \<le> vend then
        and_then (kfree kend p s) (freerange_loop kend (p + PGSIZE) vend)
      else Ret s)"
  by pat_completeness auto

termination
proof (relation "measure (\<lambda>(kend, p, vend, s). unat (KERNBASE + PHYSTOP + PGSIZE - p))")
  fix kend p vend x and s :: "'a kmem_scheme"
  assume "kfree kend p s = Ret x"
  then have lt: "p - KERNBASE < PHYSTOP"
    by (auto simp: kfree_def V2P_def split: if_splits)
  have "PHYSTOP + PGSIZE - j - PGSIZE < PHYSTOP + PGSIZE - j" if "j < PHYSTOP" for j :: u32
    using that by unat_arith
  from this [OF lt] show "((kend, p + PGSIZE, vend, x), kend, p, vend, s)
      \<in> measure (\<lambda>(kend, p, vend, s). unat (KERNBASE + PHYSTOP + PGSIZE - p))"
    by (simp add: word_less_nat_alt algebra_simps)
qed simp

declare freerange_loop.simps [simp del]

definition freerange :: "u32 \<Rightarrow> u32 \<Rightarrow> u32 \<Rightarrow> 'a kmem_scheme \<Rightarrow> 'a kmem_scheme outcome" where
  "freerange kend vstart vend s = freerange_loop kend (PGROUNDUP vstart) vend s"

definition kinit1 :: "u32 \<Rightarrow> u32 \<Rightarrow> u32 \<Rightarrow> 'a kmem_scheme \<Rightarrow> 'a kmem_scheme outcome" where
  "kinit1 kend vstart vend s = freerange kend vstart vend (s\<lparr>use_lock := False\<rparr>)"

definition kinit2 :: "u32 \<Rightarrow> u32 \<Rightarrow> u32 \<Rightarrow> 'a kmem_scheme \<Rightarrow> 'a kmem_scheme outcome" where
  "kinit2 kend vstart vend s =
     and_then (freerange kend vstart vend s) (\<lambda>s. Ret (s\<lparr>use_lock := True\<rparr>))"

text \<open>A page the allocator may hold, and the abstraction of the threaded list.\<close>

definition page_ok :: "u32 \<Rightarrow> u32 \<Rightarrow> bool" where
  "page_ok kend v \<longleftrightarrow> v mod PGSIZE = 0 \<and> kend \<le> v \<and> V2P v < PHYSTOP"

primrec threaded :: "mem \<Rightarrow> u32 \<Rightarrow> u32 list \<Rightarrow> bool" where
  "threaded m p [] \<longleftrightarrow> p = 0"
| "threaded m p (a # as) \<longleftrightarrow> p = a \<and> p \<noteq> 0 \<and> threaded m (load32 m a) as"

definition free_pages :: "u32 \<Rightarrow> 'a kmem_scheme \<Rightarrow> u32 list \<Rightarrow> bool" where
  "free_pages kend s ps \<longleftrightarrow>
     threaded (memory s) (freelist s) ps \<and> distinct ps \<and> (\<forall>p \<in> set ps. page_ok kend p)"

text \<open>The addresses of \<open>n\<close> successive pages.\<close>

definition page_seq :: "u32 \<Rightarrow> nat \<Rightarrow> u32 list" where
  "page_seq p n = map (\<lambda>i. p + of_nat i * PGSIZE) [0..<n]"

section \<open>Pages\<close>

lemma unat_and_not_page_mask: "unat (x AND - 4096 :: u32) = unat x div 4096 * 4096"
proof -
  have "x AND - 4096 = x AND NOT (mask 12)"
    by (simp add: mask_eq_exp_minus_1)
  also have "\<dots> = push_bit 12 (drop_bit 12 x)"
    by (rule bit_word_eqI) (auto simp: bit_simps)
  also have "unat \<dots> = take_bit 32 (push_bit 12 (drop_bit 12 (take_bit 32 (unat x))))"
    by (simp only: unsigned_push_bit_eq unsigned_drop_bit_eq) simp
  also have "\<dots> = take_bit 32 (unat x div 4096 * 4096)"
    using unat_u32_less [of x] by (simp add: push_bit_eq_mult drop_bit_eq_div take_bit_nat_eq_self)
  also have "\<dots> = unat x div 4096 * 4096"
    using unat_u32_less [of x] by (intro take_bit_nat_eq_self le_less_trans [OF _ unat_u32_less [of x]]) simp
  finally show ?thesis .
qed

lemma unat_PGROUNDDOWN: "unat (PGROUNDDOWN a) = unat a div 4096 * 4096"
  by (simp add: PGROUNDDOWN_def unat_and_not_page_mask)

lemma unat_PGROUNDUP:
  assumes "unat a + 4095 < 2 ^ 32"
  shows "unat (PGROUNDUP a) = (unat a + 4095) div 4096 * 4096"
proof -
  have "unat (4095 + a) = unat a + 4095"
    using assms unat_add_u32 [of 4095 a] by simp
  then show ?thesis by (simp add: PGROUNDUP_def unat_and_not_page_mask)
qed

lemma PGROUNDDOWN_aligned: "PGROUNDDOWN a mod 4096 = 0"
  by (simp add: word_unat_eq_iff unat_mod unat_PGROUNDDOWN)

lemma PGROUNDUP_aligned: "PGROUNDUP a mod 4096 = 0"
  by (simp add: word_unat_eq_iff unat_mod PGROUNDUP_def unat_and_not_page_mask)

lemma aligned_unat:
  fixes v :: u32
  assumes "v mod 4096 = 0"
  obtains b where "unat v = 4096 * b"
  using assms by (auto simp: word_unat_eq_iff unat_mod dvd_def mod_eq_0_iff_dvd)

lemma in_page_iff:
  fixes x v :: u32
  assumes "v mod 4096 = 0"
  shows "x - v < 4096 \<longleftrightarrow> unat x div 4096 = unat v div 4096"
proof -
  obtain b where b: "unat v = 4096 * b"
    using assms by (rule aligned_unat)
  have "b < 2 ^ 20"
    using b unat_u32_less [of v] by simp
  then show ?thesis
    using b by (auto simp: word_less_nat_alt unat_sub_if_size word_size)
qed

lemma page_ok_nonzero: "page_ok kend p \<Longrightarrow> p \<noteq> 0"
  by (auto simp: page_ok_def V2P_def)

lemma page_member_add:
  fixes p k :: u32
  assumes "p mod 4096 = 0" and "k < 4096"
  shows "unat (p + k) div 4096 = unat p div 4096"
  using in_page_iff [OF assms(1), of "p + k"] assms(2) by simp

lemma aligned_page_eq_iff:
  fixes p v :: u32
  assumes "p mod 4096 = 0" and "v mod 4096 = 0"
  shows "unat p div 4096 = unat v div 4096 \<longleftrightarrow> p = v"
  using aligned_unat [OF assms(1)] aligned_unat [OF assms(2)]
  by (metis nonzero_mult_div_cancel_left word_unat_eq_iff zero_neq_numeral)

text \<open>Writing one page leaves the words of every other page alone.\<close>

lemma load32_other_page:
  assumes "p mod 4096 = 0" "v mod 4096 = 0" "p \<noteq> v"
    and same: "\<And>x. \<not> x - v < 4096 \<Longrightarrow> m' x = m x"
  shows "load32 m' p = load32 m p"
proof (rule load32_cong)
  fix k :: u32
  assume "k < 4"
  then have "k < 4096" by unat_arith
  then have "\<not> (p + k) - v < 4096"
    using assms page_member_add [of p k] by (simp add: in_page_iff aligned_page_eq_iff)
  then show "m' (p + k) = m (p + k)" by (rule same)
qed

lemma threaded_cong:
  "(\<And>p. p \<in> set ps \<Longrightarrow> load32 m' p = load32 m p) \<Longrightarrow> threaded m' q ps = threaded m q ps"
  by (induction ps arbitrary: q) auto

section \<open>The operations\<close>

lemma store32_in_page:
  assumes "\<not> x - v < 4096"
  shows "store32 v w m x = m x"
proof (rule store32_other)
  fix k :: u32
  assume "k < 4"
  then show "x \<noteq> v + k" using assms by (auto, unat_arith)
qed

lemma kfree_page_ok:
  assumes "free_pages kend s ps" and "page_ok kend v" and "v \<notin> set ps"
  shows "\<exists>s'. kfree kend v s = Ret s' \<and> free_pages kend s' (v # ps)"
proof -
  let ?m = "store32 v (freelist s) (memset v 1 PGSIZE (memory s))"
  have other: "?m x = memory s x" if "\<not> x - v < 4096" for x
    using that by (simp add: store32_in_page memset_apply)
  have "threaded ?m (freelist s) ps = threaded (memory s) (freelist s) ps"
  proof (rule threaded_cong)
    fix p
    assume "p \<in> set ps"
    with assms have "p mod 4096 = 0" "v mod 4096 = 0" "p \<noteq> v"
      by (auto simp: free_pages_def page_ok_def)
    then show "load32 ?m p = load32 (memory s) p"
      using other by (rule load32_other_page)
  qed
  with assms show ?thesis
    using page_ok_nonzero [OF assms(2)]
    by (auto simp: kfree_def free_pages_def page_ok_def Let_def)
qed

lemma kfree_bad: "\<not> page_ok kend v \<Longrightarrow> kfree kend v s = Panic ''kfree''"
  unfolding kfree_def page_ok_def by (metis not_le)

lemma kalloc_empty: "free_pages kend s [] \<Longrightarrow> kalloc s = (0, s)"
  by (simp add: kalloc_def free_pages_def)

lemma kalloc_page:
  "free_pages kend s (p # ps) \<Longrightarrow> \<exists>s'. kalloc s = (p, s') \<and> free_pages kend s' ps"
  by (auto simp: kalloc_def free_pages_def Let_def)

section \<open>Filling the free list\<close>

lemma page_seq_0 [simp]: "page_seq p 0 = []"
  by (simp add: page_seq_def)

lemma page_seq_Suc: "page_seq p (Suc n) = p # page_seq (p + PGSIZE) n"
  by (simp add: page_seq_def upt_conv_Cons map_Suc_upt [symmetric] algebra_simps del: upt_Suc map_Suc_upt)

lemma page_seq_fresh:
  assumes "unat p + 4096 * Suc n < 2 ^ 32"
  shows "p \<notin> set (page_seq (p + PGSIZE) n)"
proof
  assume "p \<in> set (page_seq (p + PGSIZE) n)"
  then obtain i where i: "i < n" and eq: "(4096 :: u32) + of_nat i * 4096 = 0"
    by (auto simp: page_seq_def)
  have "(4096 :: u32) + of_nat i * 4096 = of_nat (4096 + i * 4096)" by simp
  then have "unat ((4096 :: u32) + of_nat i * 4096) = 4096 + i * 4096"
    using i assms unat_of_nat_u32 [of "4096 + i * 4096"] by simp
  then show False using eq by simp
qed

lemma freerange_loop_spec:
  assumes "free_pages kend s ps" and "p mod 4096 = 0" and "kend \<le> p" and "KERNBASE \<le> p"
    and "unat p + 4096 * n \<le> unat vend" and "unat vend < unat p + 4096 * n + 4096"
    and "vend \<le> KERNBASE + PHYSTOP"
    and "set (page_seq p n) \<inter> set ps = {}"
  shows "\<exists>s'. freerange_loop kend p vend s = Ret s' \<and> free_pages kend s' (rev (page_seq p n) @ ps)"
  using assms
proof (induction n arbitrary: p s ps)
  case 0
  have "\<not> p + 4096 \<le> vend"
  proof -
    have "unat (p + 4096) = unat p + 4096"
      using "0.prems" by (intro unat_add_u32 [of p 4096, simplified]) (simp add: word_le_nat_alt)
    then show ?thesis using "0.prems" by (simp add: word_le_nat_alt)
  qed
  with 0 show ?case by (simp add: freerange_loop.simps)
next
  case (Suc n)
  have top: "unat p + 4096 * Suc n \<le> 0x8E000000"
    using Suc.prems by (simp add: word_le_nat_alt)
  have p1: "unat (p + 4096) = unat p + 4096"
    using top by (intro unat_add_u32 [of p 4096, simplified]) simp
  have le: "p + 4096 \<le> vend"
    using Suc.prems p1 by (simp add: word_le_nat_alt)
  have "unat (p - KERNBASE) = unat p - 0x80000000"
    using Suc.prems by (simp add: unat_sub)
  then have "page_ok kend p"
    using Suc.prems top by (simp add: page_ok_def V2P_def word_less_nat_alt)
  moreover have "p \<notin> set ps" using Suc.prems(8) by (simp add: page_seq_Suc)
  ultimately obtain s1 where s1: "kfree kend p s = Ret s1" "free_pages kend s1 (p # ps)"
    using kfree_page_ok [OF Suc.prems(1)] by blast
  have "p \<notin> set (page_seq (p + 4096) n)"
    using top by (intro page_seq_fresh) auto
  moreover have "(p + 4096) mod 4096 = 0"
    using Suc.prems(2) p1 by (simp add: word_unat_eq_iff unat_mod)
  ultimately have "\<exists>s'. freerange_loop kend (p + 4096) vend s1 = Ret s' \<and>
      free_pages kend s' (rev (page_seq (p + 4096) n) @ p # ps)"
    using Suc.prems p1 by (intro Suc.IH s1) (auto simp: page_seq_Suc word_le_nat_alt)
  with s1 le show ?case by (simp add: freerange_loop.simps [of kend p] page_seq_Suc)
qed

section \<open>The contract of the allocator\<close>

locale page_allocator =
  fixes alloc :: "'s \<Rightarrow> u32 \<times> 's"
    and free :: "u32 \<Rightarrow> 's \<Rightarrow> 's outcome"
    and pages :: "'s \<Rightarrow> u32 list \<Rightarrow> bool"
    and ok :: "u32 \<Rightarrow> bool"
  assumes alloc_Nil: "pages s [] \<Longrightarrow> alloc s = (0, s)"
    and alloc_Cons: "pages s (p # ps) \<Longrightarrow> \<exists>s'. alloc s = (p, s') \<and> pages s' ps"
    and free_ok: "pages s ps \<Longrightarrow> ok p \<Longrightarrow> p \<notin> set ps \<Longrightarrow> \<exists>s'. free p s = Ret s' \<and> pages s' (p # ps)"
    and pages_distinct: "pages s ps \<Longrightarrow> distinct ps"
    and pages_ok: "pages s ps \<Longrightarrow> p \<in> set ps \<Longrightarrow> ok p"
    and ok_nonzero: "ok p \<Longrightarrow> p \<noteq> 0"
begin

text \<open>A page handed out is well-formed and no longer in the pool.\<close>

lemma alloc_fresh:
  assumes "pages s ps" and "alloc s = (p, s')" and "p \<noteq> 0"
  shows "ok p \<and> (\<exists>qs. ps = p # qs \<and> p \<notin> set qs \<and> pages s' qs)"
proof (cases ps)
  case Nil
  with assms alloc_Nil show ?thesis by auto
next
  case (Cons q qs)
  with assms alloc_Cons [of s q qs] show ?thesis
    using pages_distinct [of s ps] pages_ok [of s ps q] by auto
qed

lemma alloc_zero_iff:
  assumes "pages s ps"
  shows "fst (alloc s) = 0 \<longleftrightarrow> ps = []"
proof (cases ps)
  case Nil
  with assms alloc_Nil show ?thesis by simp
next
  case (Cons q qs)
  with assms have "ok q" using pages_ok [of s ps q] by simp
  with Cons assms alloc_Cons [of s q qs] ok_nonzero show ?thesis by auto
qed

text \<open>Freeing a page and allocating again returns that page.\<close>

lemma alloc_free:
  assumes "pages s ps" and "ok p" and "p \<notin> set ps"
  shows "\<exists>s' s''. free p s = Ret s' \<and> alloc s' = (p, s'') \<and> pages s'' ps"
  using free_ok [OF assms] alloc_Cons by blast

end

interpretation km: page_allocator kalloc "kfree kend" "free_pages kend" "page_ok kend"
  for kend :: u32
proof unfold_locales
  fix s :: "'a kmem_scheme" and ps p
  show "free_pages kend s [] \<Longrightarrow> kalloc s = (0, s)"
    by (rule kalloc_empty)
  show "free_pages kend s (p # ps) \<Longrightarrow> \<exists>s'. kalloc s = (p, s') \<and> free_pages kend s' ps"
    by (rule kalloc_page)
  show "free_pages kend s ps \<Longrightarrow> page_ok kend p \<Longrightarrow> p \<notin> set ps \<Longrightarrow>
      \<exists>s'. kfree kend p s = Ret s' \<and> free_pages kend s' (p # ps)"
    by (rule kfree_page_ok)
  show "free_pages kend s ps \<Longrightarrow> distinct ps"
    by (simp add: free_pages_def)
  show "free_pages kend s ps \<Longrightarrow> p \<in> set ps \<Longrightarrow> page_ok kend p"
    by (simp add: free_pages_def)
  show "page_ok kend p \<Longrightarrow> p \<noteq> 0"
    by (rule page_ok_nonzero)
qed

section \<open>Properties\<close>

lemma freerange_spec:
  assumes free: "free_pages kend s []" and lo: "kend \<le> vstart" "KERNBASE \<le> vstart"
    and hi: "vstart \<le> vend" "vend \<le> KERNBASE + PHYSTOP"
  shows "\<exists>s'. freerange kend vstart vend s = Ret s' \<and>
    free_pages kend s' (rev (page_seq (PGROUNDUP vstart) ((unat vend - unat (PGROUNDUP vstart)) div 4096)))"
proof -
  let ?p = "PGROUNDUP vstart"
  have b: "unat vend \<le> 0x8E000000" "unat vstart \<le> unat vend" "0x80000000 \<le> unat vstart"
    using hi lo by (simp_all add: word_le_nat_alt)
  have up: "unat ?p = (unat vstart + 4095) div 4096 * 4096"
    using b by (intro unat_PGROUNDUP) simp
  have ge: "unat vstart \<le> unat ?p" "unat ?p < unat vstart + 4096" unfolding up by linarith+
  show ?thesis
  proof (cases "?p \<le> vend")
    case True
    let ?n = "(unat vend - unat ?p) div 4096"
    have "unat ?p \<le> unat vend" using True by (simp add: word_le_nat_alt)
    then have n: "unat ?p + 4096 * ?n \<le> unat vend" "unat vend < unat ?p + 4096 * ?n + 4096" by linarith+
    show ?thesis
      unfolding freerange_def
      using freerange_loop_spec [OF free PGROUNDUP_aligned _ _ n hi(2)] lo ge(1)
      by (simp add: word_le_nat_alt)
  next
    case False
    then have lt: "unat vend < unat ?p" by (simp add: word_le_nat_alt)
    have "unat (?p + 4096) = unat ?p + 4096"
      using ge(2) b by (intro unat_add_u32 [of ?p 4096, simplified]) simp
    then have "\<not> ?p + 4096 \<le> vend" using lt by (simp add: word_le_nat_alt)
    then show ?thesis
      using free lt by (simp add: freerange_def freerange_loop.simps [of kend ?p])
  qed
qed

text \<open>
  C10. A page that \<open>kalloc\<close> hands out is page-aligned, above the kernel image and below the top
  of physical memory; it leaves the free list, so that it is not handed out again before it
  is freed. \<open>kalloc\<close> returns 0 exactly when the list is empty.
\<close>

theorem kalloc_hands_out_fresh_page:
  assumes "free_pages kend s ps" and "kalloc s = (p, s')"
  shows "(p = 0 \<longleftrightarrow> ps = []) \<and>
    (p \<noteq> 0 \<longrightarrow> page_ok kend p \<and> (\<exists>qs. ps = p # qs \<and> p \<notin> set qs \<and> free_pages kend s' qs))"
  using km.alloc_zero_iff [OF assms(1)] km.alloc_fresh [OF assms] assms(2) by auto

text \<open>
  C11. Freeing a page that is not on the list and allocating again returns that page and leaves
  the list as it was; freeing anything but a page frame of the allocator panics.
\<close>

theorem kfree_then_kalloc:
  assumes "free_pages kend s ps" and "p \<notin> set ps"
  shows "if page_ok kend p then \<exists>s' s''. kfree kend p s = Ret s' \<and> kalloc s' = (p, s'') \<and> free_pages kend s'' ps
    else kfree kend p s = Panic ''kfree''"
  using km.alloc_free [OF assms(1) _ assms(2)] kfree_bad [of kend p s] by auto

text \<open>
  C12. \<open>kinit1\<close> puts on the free list exactly the whole pages between the rounded-up start and
  the end of the range, each once.
\<close>

theorem kinit1_frees_every_page:
  assumes "free_pages kend s []" and "kend \<le> vstart" and "KERNBASE \<le> vstart"
    and "vstart \<le> vend" and "vend \<le> KERNBASE + PHYSTOP"
  shows "\<exists>s' ps. kinit1 kend vstart vend s = Ret s' \<and> free_pages kend s' ps \<and>
    ps = rev (page_seq (PGROUNDUP vstart) ((unat vend - unat (PGROUNDUP vstart)) div 4096))"
proof -
  have "free_pages kend (s\<lparr>use_lock := False\<rparr>) []" using assms(1) by (simp add: free_pages_def)
  from freerange_spec [OF this assms(2-5)] show ?thesis by (simp add: kinit1_def)
qed

section \<open>Witnesses\<close>

definition empty_kmem :: kmem where
  "empty_kmem = \<lparr>use_lock = False, freelist = 0, memory = \<lambda>_. 0\<rparr>"

lemma empty_kmem_free: "free_pages kend empty_kmem []"
  by (simp add: free_pages_def empty_kmem_def)

lemma sample_page_ok: "page_ok 0x80100000 0x80200000"
  by (simp add: page_ok_def V2P_def)

theorem kalloc_hands_out_fresh_page_witness:
  "\<exists>(s :: kmem) s'. free_pages 0x80100000 s [0x80201000, 0x80200000] \<and> kalloc s = (0x80201000, s') \<and>
     page_ok 0x80100000 0x80201000 \<and> free_pages 0x80100000 s' [0x80200000]"
proof -
  have ok: "page_ok 0x80100000 0x80200000" "page_ok 0x80100000 0x80201000" by (simp_all add: page_ok_def V2P_def)
  obtain s1 :: kmem where s1: "free_pages 0x80100000 s1 [0x80200000]"
    using km.free_ok [OF empty_kmem_free ok(1)] that by auto
  obtain s :: kmem where s: "free_pages 0x80100000 s [0x80201000, 0x80200000]"
    using km.free_ok [OF s1 ok(2)] that by auto
  obtain p s' where k: "kalloc s = (p, s')" by (cases "kalloc s")
  show ?thesis using kalloc_hands_out_fresh_page [OF s k] s k ok(2) by (intro exI [of _ s] exI [of _ s']) auto
qed

theorem kfree_then_kalloc_witness:
  "\<exists>s' s''. kfree 0x80100000 0x80200000 empty_kmem = Ret s' \<and> kalloc s' = (0x80200000, s'') \<and>
     free_pages 0x80100000 s'' []"
  using kfree_then_kalloc [of "0x80100000" empty_kmem "[]" "0x80200000"] empty_kmem_free sample_page_ok by simp

lemma sample_range: "PGROUNDUP 0x80100001 = 0x80101000"
  by (simp add: PGROUNDUP_def)

theorem kinit1_frees_every_page_witness:
  "\<exists>s' ps. kinit1 0x80100000 0x80100001 0x80103fff empty_kmem = Ret s' \<and> free_pages 0x80100000 s' ps \<and>
     ps = [0x80102000, 0x80101000]"
  using kinit1_frees_every_page [of "0x80100000" empty_kmem "0x80100001" "0x80103fff"] empty_kmem_free
  by (simp add: sample_range page_seq_def upt_rec)

end
