(* ===== verification/Vm.thy ===== *)
theory Vm
  imports Kalloc
begin

text \<open>
  Page tables (\<^verbatim>\<open>vm.c\<close>). A page directory and its page tables are pages of the allocator,
  read and written through memory; \<open>pgdir\<close> is the kernel address of the directory. The
  hardware's use of the tables is the function \<open>translate\<close>.

  Not here: the segment descriptors (\<open>seginit\<close>), the loads of hardware registers in
  \<open>switchkvm\<close> and \<open>switchuvm\<close>, and \<open>loaduvm\<close>, which reads a file (theory \<open>Exec\<close>). The messages
  printed when memory runs out are left out.
\<close>

section \<open>Definitions\<close>

abbreviation (input) PTE_P :: u32 where "PTE_P \<equiv> 1"
abbreviation (input) PTE_W :: u32 where "PTE_W \<equiv> 2"
abbreviation (input) PTE_U :: u32 where "PTE_U \<equiv> 4"
abbreviation (input) NPDENTRIES :: nat where "NPDENTRIES \<equiv> 1024"

definition PDX :: "u32 \<Rightarrow> u32" where
  "PDX va = drop_bit 22 va AND 0x3FF"

definition PTX :: "u32 \<Rightarrow> u32" where
  "PTX va = drop_bit 12 va AND 0x3FF"

definition PGADDR :: "u32 \<Rightarrow> u32 \<Rightarrow> u32 \<Rightarrow> u32" where
  "PGADDR d t off = push_bit 22 d OR push_bit 12 t OR off"

definition PTE_ADDR :: "u32 \<Rightarrow> u32" where
  "PTE_ADDR pte = pte AND NOT 0xFFF"

definition PTE_FLAGS :: "u32 \<Rightarrow> u32" where
  "PTE_FLAGS pte = pte AND 0xFFF"

definition present :: "u32 \<Rightarrow> bool" where
  "present pte \<longleftrightarrow> pte AND PTE_P \<noteq> 0"

text \<open>\<open>walkpgdir\<close> returns the address of the entry, 0 for none.\<close>

definition walkpgdir :: "u32 \<Rightarrow> u32 \<Rightarrow> bool \<Rightarrow> 'a kmem_scheme \<Rightarrow> u32 \<times> 'a kmem_scheme" where
  "walkpgdir pgdir va alloc s =
     (let pde = pgdir + 4 * PDX va;
          e = load32 (memory s) pde
      in if present e then (P2V (PTE_ADDR e) + 4 * PTX va, s)
         else if \<not> alloc then (0, s)
         else case kalloc s of
           (pgtab, s) \<Rightarrow>
             if pgtab = 0 then (0, s)
             else
               let m = memset pgtab 0 PGSIZE (memory s);
                   m = store32 pde (V2P pgtab OR PTE_P OR PTE_W OR PTE_U) m
               in (pgtab + 4 * PTX va, s\<lparr>memory := m\<rparr>))"

text \<open>
  The loop of \<open>mappages\<close> from \<open>a\<close> up to \<open>last\<close>, both page-aligned, so that it makes one turn more
  than there are pages between them.
\<close>

primrec mappages_loop :: "nat \<Rightarrow> u32 \<Rightarrow> u32 \<Rightarrow> u32 \<Rightarrow> u32 \<Rightarrow> 'a kmem_scheme \<Rightarrow> (int \<times> 'a kmem_scheme) outcome" where
  "mappages_loop 0 pgdir a pa perm s = Ret (0, s)"
| "mappages_loop (Suc k) pgdir a pa perm s =
     (case walkpgdir pgdir a True s of
        (pte, s) \<Rightarrow>
          if pte = 0 then Ret (- 1, s)
          else if present (load32 (memory s) pte) then Panic ''remap''
          else mappages_loop k pgdir (a + PGSIZE) (pa + PGSIZE) perm
                 (s\<lparr>memory := store32 pte (pa OR perm OR PTE_P) (memory s)\<rparr>))"

definition mappages :: "u32 \<Rightarrow> u32 \<Rightarrow> u32 \<Rightarrow> u32 \<Rightarrow> u32 \<Rightarrow> 'a kmem_scheme \<Rightarrow> (int \<times> 'a kmem_scheme) outcome" where
  "mappages pgdir va sz pa perm s =
     (let a = PGROUNDDOWN va; last = PGROUNDDOWN (va + sz - 1)
      in mappages_loop (unat ((last - a) div PGSIZE) + 1) pgdir a pa perm s)"

text \<open>
  The loop of \<open>deallocuvm\<close> below \<open>oldsz\<close>. The next address is always higher for the sizes the
  kernel uses (at most \<open>KERNBASE\<close>); past the last page directory entry the code would start over
  from address 0.
\<close>

lemma higher_left: "\<not> a' \<le> a \<Longrightarrow> 4294967296 - unat (a' :: u32) < 4294967296 - unat a"
  using unat_u32_less [of a'] by (simp add: word_le_nat_alt)

function deallocuvm_loop :: "u32 \<Rightarrow> u32 \<Rightarrow> u32 \<Rightarrow> u32 \<Rightarrow> 'a kmem_scheme \<Rightarrow> 'a kmem_scheme outcome" where
  "deallocuvm_loop kend pgdir a oldsz s =
     (if a < oldsz then
        case walkpgdir pgdir a False s of
          (pte, s) \<Rightarrow>
            if pte = 0 then
              let a' = PGADDR (PDX a + 1) 0 0 in
              if a' \<le> a then Hang else deallocuvm_loop kend pgdir a' oldsz s
            else if a + PGSIZE \<le> a then Hang
            else if present (load32 (memory s) pte) then
              let pa = PTE_ADDR (load32 (memory s) pte) in
              if pa = 0 then Panic ''kfree''
              else
                and_then (kfree kend (P2V pa) s) (\<lambda>s.
                deallocuvm_loop kend pgdir (a + PGSIZE) oldsz (s\<lparr>memory := store32 pte 0 (memory s)\<rparr>))
            else deallocuvm_loop kend pgdir (a + PGSIZE) oldsz s
      else Ret s)"
  by pat_completeness auto

termination
  using higher_left
  by (relation "measure (\<lambda>(kend, pgdir, a, oldsz, s). 2 ^ 32 - unat a)") auto

declare deallocuvm_loop.simps [simp del]

definition deallocuvm :: "u32 \<Rightarrow> u32 \<Rightarrow> u32 \<Rightarrow> u32 \<Rightarrow> 'a kmem_scheme \<Rightarrow> (u32 \<times> 'a kmem_scheme) outcome" where
  "deallocuvm kend pgdir oldsz newsz s =
     (if newsz \<ge> oldsz then Ret (oldsz, s)
      else and_then (deallocuvm_loop kend pgdir (PGROUNDUP newsz) oldsz s) (\<lambda>s. Ret (newsz, s)))"

text \<open>The addresses a loop from \<open>a\<close> in steps of a page takes below \<open>lim\<close>.\<close>

definition uvm_pages :: "u32 \<Rightarrow> u32 \<Rightarrow> u32 list" where
  "uvm_pages a lim = page_seq a ((unat lim - unat a + 4095) div 4096)"

primrec allocuvm_loop :: "u32 \<Rightarrow> u32 \<Rightarrow> u32 \<Rightarrow> u32 \<Rightarrow> u32 list \<Rightarrow> 'a kmem_scheme \<Rightarrow> (u32 \<times> 'a kmem_scheme) outcome" where
  "allocuvm_loop kend pgdir oldsz newsz [] s = Ret (newsz, s)"
| "allocuvm_loop kend pgdir oldsz newsz (a # as) s =
     (case kalloc s of
        (mem, s) \<Rightarrow>
          if mem = 0 then and_then (deallocuvm kend pgdir newsz oldsz s) (\<lambda>(_, s). Ret (0, s))
          else
            let s = s\<lparr>memory := memset mem 0 PGSIZE (memory s)\<rparr> in
            and_then (mappages pgdir a PGSIZE (V2P mem) (PTE_W OR PTE_U) s) (\<lambda>(r, s).
            if r < 0 then
              and_then (deallocuvm kend pgdir newsz oldsz s) (\<lambda>(_, s).
              and_then (kfree kend mem s) (\<lambda>s. Ret (0, s)))
            else allocuvm_loop kend pgdir oldsz newsz as s))"

definition allocuvm :: "u32 \<Rightarrow> u32 \<Rightarrow> u32 \<Rightarrow> u32 \<Rightarrow> 'a kmem_scheme \<Rightarrow> (u32 \<times> 'a kmem_scheme) outcome" where
  "allocuvm kend pgdir oldsz newsz s =
     (if newsz \<ge> KERNBASE then Ret (0, s)
      else if newsz < oldsz then Ret (oldsz, s)
      else allocuvm_loop kend pgdir oldsz newsz (uvm_pages (PGROUNDUP oldsz) newsz) s)"

definition freevm :: "u32 \<Rightarrow> u32 \<Rightarrow> 'a kmem_scheme \<Rightarrow> 'a kmem_scheme outcome" where
  "freevm kend pgdir s =
     (if pgdir = 0 then Panic ''freevm: no pgdir''
      else
        and_then (deallocuvm kend pgdir KERNBASE 0 s) (\<lambda>(_, s).
        and_then (foldo (\<lambda>i s.
            let e = load32 (memory s) (pgdir + 4 * of_nat i) in
            if present e then kfree kend (P2V (PTE_ADDR e)) s else Ret s) [0..<NPDENTRIES] s) (\<lambda>s.
        kfree kend pgdir s)))"

text \<open>The kernel's mappings; \<open>kdata\<close> is the linker symbol \<open>data\<close>.\<close>

definition kmap :: "u32 \<Rightarrow> (u32 \<times> u32 \<times> u32 \<times> u32) list" where
  "kmap kdata =
     [(KERNBASE, 0, EXTMEM, PTE_W), (KERNLINK, V2P KERNLINK, V2P kdata, 0),
      (kdata, V2P kdata, PHYSTOP, PTE_W), (DEVSPACE, DEVSPACE, 0, PTE_W)]"

primrec setupkvm_loop :: "u32 \<Rightarrow> u32 \<Rightarrow> (u32 \<times> u32 \<times> u32 \<times> u32) list \<Rightarrow> 'a kmem_scheme \<Rightarrow>
    (u32 \<times> 'a kmem_scheme) outcome" where
  "setupkvm_loop kend pgdir [] s = Ret (pgdir, s)"
| "setupkvm_loop kend pgdir (k # ks) s =
     (case k of (virt, phys_start, phys_end, perm) \<Rightarrow>
        and_then (mappages pgdir virt (phys_end - phys_start) phys_start perm s) (\<lambda>(r, s).
        if r < 0 then and_then (freevm kend pgdir s) (\<lambda>s. Ret (0, s))
        else setupkvm_loop kend pgdir ks s))"

definition setupkvm :: "u32 \<Rightarrow> u32 \<Rightarrow> 'a kmem_scheme \<Rightarrow> (u32 \<times> 'a kmem_scheme) outcome" where
  "setupkvm kend kdata s =
     (case kalloc s of
        (pgdir, s) \<Rightarrow>
          if pgdir = 0 then Ret (0, s)
          else if P2V PHYSTOP > DEVSPACE then Panic ''PHYSTOP too high''
          else setupkvm_loop kend pgdir (kmap kdata) (s\<lparr>memory := memset pgdir 0 PGSIZE (memory s)\<rparr>))"

text \<open>Storing a byte array that is not itself in the modelled memory, and reading one.\<close>

definition put_bytes :: "u32 \<Rightarrow> bytes \<Rightarrow> mem \<Rightarrow> mem" where
  "put_bytes a bs m = (\<lambda>x. if unat (x - a) < length bs then bs ! unat (x - a) else m x)"

definition get_bytes :: "u32 \<Rightarrow> nat \<Rightarrow> mem \<Rightarrow> bytes" where
  "get_bytes a n m = map (\<lambda>i. m (a + of_nat i)) [0..<n]"

text \<open>\<open>inituvm\<close> does not check for memory; a null page is written through.\<close>

definition inituvm :: "u32 \<Rightarrow> bytes \<Rightarrow> u32 \<Rightarrow> 'a kmem_scheme \<Rightarrow> 'a kmem_scheme outcome" where
  "inituvm pgdir init sz s =
     (if sz \<ge> PGSIZE then Panic ''inituvm: more than a page''
      else case kalloc s of
        (mem, s) \<Rightarrow>
          if mem = 0 then Fault ''null page''
          else
            and_then (mappages pgdir 0 PGSIZE (V2P mem) (PTE_W OR PTE_U)
              (s\<lparr>memory := memset mem 0 PGSIZE (memory s)\<rparr>)) (\<lambda>(_, s).
            Ret (s\<lparr>memory := put_bytes mem (take (unat sz) init) (memory s)\<rparr>)))"

definition clearpteu :: "u32 \<Rightarrow> u32 \<Rightarrow> 'a kmem_scheme \<Rightarrow> 'a kmem_scheme outcome" where
  "clearpteu pgdir uva s =
     (case walkpgdir pgdir uva False s of
        (pte, s) \<Rightarrow>
          if pte = 0 then Panic ''clearpteu''
          else Ret (s\<lparr>memory := store32 pte (load32 (memory s) pte AND NOT PTE_U) (memory s)\<rparr>))"

primrec copyuvm_loop :: "u32 \<Rightarrow> u32 \<Rightarrow> u32 \<Rightarrow> u32 list \<Rightarrow> 'a kmem_scheme \<Rightarrow> (u32 \<times> 'a kmem_scheme) outcome" where
  "copyuvm_loop kend pgdir d [] s = Ret (d, s)"
| "copyuvm_loop kend pgdir d (i # is) s =
     (case walkpgdir pgdir i False s of
        (pte, s) \<Rightarrow>
          if pte = 0 then Panic ''copyuvm: pte should exist''
          else
            let e = load32 (memory s) pte in
            if \<not> present e then Panic ''copyuvm: page not present''
            else case kalloc s of
              (mem, s) \<Rightarrow>
                if mem = 0 then and_then (freevm kend d s) (\<lambda>s. Ret (0, s))
                else
                  let s = s\<lparr>memory := memmove mem (P2V (PTE_ADDR e)) PGSIZE (memory s)\<rparr> in
                  and_then (mappages d i PGSIZE (V2P mem) (PTE_FLAGS e) s) (\<lambda>(r, s).
                  if r < 0 then
                    and_then (kfree kend mem s) (\<lambda>s.
                    and_then (freevm kend d s) (\<lambda>s. Ret (0, s)))
                  else copyuvm_loop kend pgdir d is s))"

definition copyuvm :: "u32 \<Rightarrow> u32 \<Rightarrow> u32 \<Rightarrow> u32 \<Rightarrow> 'a kmem_scheme \<Rightarrow> (u32 \<times> 'a kmem_scheme) outcome" where
  "copyuvm kend kdata pgdir sz s =
     and_then (setupkvm kend kdata s) (\<lambda>(d, s).
     if d = 0 then Ret (0, s) else copyuvm_loop kend pgdir d (uvm_pages 0 sz) s)"

text \<open>\<open>uva2ka\<close> uses the entry \<open>walkpgdir\<close> returns without checking that there is one.\<close>

definition uva2ka :: "u32 \<Rightarrow> u32 \<Rightarrow> 'a kmem_scheme \<Rightarrow> u32 outcome" where
  "uva2ka pgdir uva s =
     (case walkpgdir pgdir uva False s of
        (pte, s) \<Rightarrow>
          if pte = 0 then Fault ''null pte''
          else
            let e = load32 (memory s) pte in
            Ret (if \<not> present e then 0 else if e AND PTE_U = 0 then 0 else P2V (PTE_ADDR e)))"

lemma page_rest: "0 < unat (PGSIZE - (va - PGROUNDDOWN va))"
proof -
  have "PGROUNDDOWN va \<le> va" "unat va - unat (PGROUNDDOWN va) < 4096"
    by (simp_all add: word_le_nat_alt unat_PGROUNDDOWN)
  then have "va - PGROUNDDOWN va < PGSIZE" by (simp add: word_less_nat_alt unat_sub)
  then show ?thesis by unat_arith
qed

function copyout :: "u32 \<Rightarrow> u32 \<Rightarrow> bytes \<Rightarrow> 'a kmem_scheme \<Rightarrow> (int \<times> 'a kmem_scheme) outcome" where
  "copyout pgdir va buf s =
     (if buf = [] then Ret (0, s)
      else
        let va0 = PGROUNDDOWN va in
        and_then (uva2ka pgdir va0 s) (\<lambda>pa0.
        if pa0 = 0 then Ret (- 1, s)
        else
          let n = min (unat (PGSIZE - (va - va0))) (length buf) in
          copyout pgdir (va0 + PGSIZE) (drop n buf)
            (s\<lparr>memory := put_bytes (pa0 + (va - va0)) (take n buf) (memory s)\<rparr>)))"
  by pat_completeness auto

termination
  using page_rest by (relation "measure (\<lambda>(pgdir, va, buf, s). length buf)") auto

declare copyout.simps [simp del]

section \<open>Address translation\<close>

text \<open>What the paging hardware makes of the tables: the frame and the flags of a virtual address.\<close>

definition translate :: "mem \<Rightarrow> u32 \<Rightarrow> u32 \<Rightarrow> (u32 \<times> u32) option" where
  "translate m pgdir va =
     (let pde = load32 m (pgdir + 4 * PDX va) in
      if \<not> present pde then None
      else
        let pte = load32 m (P2V (PTE_ADDR pde) + 4 * PTX va) in
        if \<not> present pte then None else Some (PTE_ADDR pte, PTE_FLAGS pte))"

end
