(* ===== verification/Vm_Map.thy ===== *)
theory Vm_Map
  imports Vm
begin

text \<open>
  What the operations on page tables do to address translation. A page directory with its
  tables is a partial map from virtual pages to frames (\<open>translate\<close>); \<open>mappages\<close>, \<open>allocuvm\<close>
  and \<open>copyuvm\<close> are shown to update that map, to take pages only from the free list and to
  write nowhere else.
\<close>

section \<open>Words in pages\<close>

definition ent :: "mem \<Rightarrow> u32 \<Rightarrow> u32 \<Rightarrow> u32" where
  "ent m p i = load32 m (p + 4 * i)"

abbreviation aligned :: "u32 \<Rightarrow> bool" where
  "aligned p \<equiv> p mod 4096 = 0"

lemma PGROUNDDOWN_eq_iff: "aligned p \<Longrightarrow> PGROUNDDOWN x = p \<longleftrightarrow> x - p < 4096"
  using in_page_iff [of p x] aligned_page_eq_iff [OF PGROUNDDOWN_aligned [of x], of p]
  by (simp add: unat_PGROUNDDOWN)

lemma PGROUNDDOWN_self: "aligned p \<Longrightarrow> PGROUNDDOWN p = p"
  by (simp add: PGROUNDDOWN_eq_iff)

lemma PGROUNDDOWN_in: "aligned p \<Longrightarrow> k < 4096 \<Longrightarrow> PGROUNDDOWN (p + k) = p"
  by (simp add: PGROUNDDOWN_eq_iff)

lemma unat_ent: "i < 1024 \<Longrightarrow> k < 4 \<Longrightarrow> unat (4 * i + k :: u32) = 4 * unat i + unat k"
proof -
  assume a: "i < 1024" "k < 4"
  then have b: "unat i < 1024" "unat k < 4" by (simp_all add: word_less_nat_alt)
  then have "unat (4 * i) = 4 * unat i" using unat_mult_lem [of 4 i] by simp
  then show ?thesis using unat_add_lem [of "4 * i" k] b by simp
qed

lemma ent_offset: "i < 1024 \<Longrightarrow> k < 4 \<Longrightarrow> 4 * i + k < (4096 :: u32)"
  using unat_ent [of i k] by (simp add: word_less_nat_alt)

lemma ent_offset_inj:
  assumes "i < 1024" "j < 1024" "k < 4" "l < 4" "4 * i + k = 4 * j + (l :: u32)"
  shows "i = j"
proof -
  have "unat k < 4" "unat l < 4" using assms by (simp_all add: word_less_nat_alt)
  moreover have "4 * unat i + unat k = 4 * unat j + unat l" using unat_ent assms by metis
  ultimately show ?thesis by (simp add: word_unat_eq_iff)
qed

lemma ent_cong:
  assumes "aligned p" and "i < 1024" and "\<And>x. PGROUNDDOWN x = p \<Longrightarrow> m' x = m x"
  shows "ent m' p i = ent m p i"
  unfolding ent_def
proof (rule load32_cong)
  fix k :: u32 assume "k < 4"
  then show "m' (p + 4 * i + k) = m (p + 4 * i + k)"
    using assms PGROUNDDOWN_in [OF assms(1) ent_offset [OF assms(2)], of k] by (simp add: add.assoc)
qed

lemma store_ent_other:
  assumes "aligned p" and "i < 1024" and "PGROUNDDOWN x \<noteq> p"
  shows "store32 (p + 4 * i) v m x = m x"
proof (rule store32_other)
  fix k :: u32 assume "k < 4"
  then show "x \<noteq> p + 4 * i + k"
    using assms PGROUNDDOWN_in [OF assms(1) ent_offset [OF assms(2)], of k] by (auto simp: add.assoc)
qed

lemma ent_store:
  assumes "aligned p" and "i < 1024" and "j < 1024"
  shows "ent (store32 (p + 4 * i) v m) p j = (if j = i then v else ent m p j)"
proof (cases "j = i")
  case False
  have "load32 (store32 (p + 4 * i) v m) (p + 4 * j) = load32 m (p + 4 * j)"
  proof (rule load32_cong, rule store32_other)
    fix k l :: u32 assume "k < 4" "l < 4"
    then show "p + 4 * j + k \<noteq> p + 4 * i + l"
      using ent_offset_inj [of j i k l] assms False by (auto simp: add.assoc)
  qed
  then show ?thesis using False by (simp add: ent_def)
qed (simp add: ent_def)

lemma memset_page: "aligned p \<Longrightarrow> memset p c PGSIZE m x = (if PGROUNDDOWN x = p then ucast c else m x)"
  by (simp add: memset_apply PGROUNDDOWN_eq_iff)

lemma load32_zero: "(\<And>k. k < 4 \<Longrightarrow> m (a + k) = 0) \<Longrightarrow> load32 m a = 0"
proof -
  assume z: "\<And>k. k < 4 \<Longrightarrow> m (a + k) = 0"
  have "m a = 0" "m (a + 1) = 0" "m (a + 2) = 0" "m (a + 3) = 0"
    using z [of 0] z [of 1] z [of 2] z [of 3] by simp_all
  then show ?thesis by (simp add: load32_def) (rule bit_word_eqI, simp add: bit_le32)
qed

lemma ent_memset:
  assumes "aligned p" and "i < 1024"
  shows "ent (memset p 0 PGSIZE m) p i = 0"
  unfolding ent_def
proof (rule load32_zero)
  fix k :: u32 assume "k < 4"
  then show "memset p 0 PGSIZE m (p + 4 * i + k) = 0"
    using PGROUNDDOWN_in [OF assms(1) ent_offset [OF assms(2)], of k] assms(1)
    by (simp add: memset_page add.assoc)
qed

section \<open>Entries\<close>

lemma present_iff: "present e \<longleftrightarrow> bit e 0"
  by (simp add: present_def and_one_eq odd_iff_mod_2_eq_one bit_0)

lemma aligned_take_bit: "aligned p \<longleftrightarrow> take_bit 12 p = 0"
  by (simp add: take_bit_eq_mod)

lemma aligned_iff: "aligned p \<longleftrightarrow> (\<forall>k < 12. \<not> bit p k)"
  unfolding aligned_take_bit by (auto simp: bit_eq_iff bit_take_bit_iff)

lemma flags_iff: "(f :: u32) < 4096 \<longleftrightarrow> (\<forall>k \<ge> 12. \<not> bit f k)"
proof -
  have "f < 4096 \<longleftrightarrow> take_bit 12 f = f"
    using take_bit_nat_eq_self_iff [of 12 "unat f"]
    by (simp add: word_less_nat_alt word_unat_eq_iff take_bit_eq_mod unat_mod)
  also have "\<dots> \<longleftrightarrow> (\<forall>k. (k < 12 \<and> bit f k) = bit f k)"
    using bit_imp_le_length [of f] by (simp only: bit_eq_iff bit_take_bit_iff possible_bit_word) fastforce
  also have "\<dots> \<longleftrightarrow> (\<forall>k \<ge> 12. \<not> bit f k)"
    using not_le by blast
  finally show ?thesis .
qed

lemma page_mask: "(4095 :: u32) = mask 12"
  by (simp add: mask_eq_exp_minus_1)

lemma bit_PTE_ADDR: "bit (PTE_ADDR x) k \<longleftrightarrow> 12 \<le> k \<and> bit x k"
  unfolding PTE_ADDR_def page_mask
  by (auto simp: bit_and_iff bit_not_iff bit_mask_iff dest: bit_imp_le_length)

lemma bit_PTE_FLAGS: "bit (PTE_FLAGS x) k \<longleftrightarrow> k < 12 \<and> bit x k"
  unfolding PTE_FLAGS_def page_mask
  by (auto simp: bit_and_iff bit_mask_iff dest: bit_imp_le_length)

lemma entry_fields:
  assumes "aligned a" and "f < 4096"
  shows "PTE_ADDR (a OR f) = a" "PTE_FLAGS (a OR f) = f"
proof -
  have a: "12 \<le> k" if "bit a k" for k using assms that not_le by (auto simp: aligned_iff)
  have f: "k < 12" if "bit f k" for k using assms that flags_iff [of f] not_le by blast
  show "PTE_ADDR (a OR f) = a" "PTE_FLAGS (a OR f) = f"
    by (auto simp: bit_eq_iff bit_PTE_ADDR bit_PTE_FLAGS bit_or_iff not_le dest: a f)
qed

lemma PTE_ADDR_aligned: "aligned (PTE_ADDR e)"
  by (simp add: aligned_iff bit_PTE_ADDR)

lemma V2P_aligned_iff: "aligned (V2P p) \<longleftrightarrow> aligned p"
proof -
  have "V2P p = p + 0x80000000"
    unfolding V2P_def by (simp add: diff_conv_add_uminus del: add_uminus_conv_diff)
  moreover have "4096 dvd unat (p + 0x80000000) \<longleftrightarrow> 4096 dvd unat p"
    by (simp add: unat_word_ariths dvd_mod_iff dvd_add_left_iff)
  ultimately show ?thesis by (simp add: word_unat_eq_iff unat_mod mod_eq_0_iff_dvd)
qed

lemma P2V_V2P [simp]: "P2V (V2P p) = p" "V2P (P2V p) = p"
  by (simp_all add: P2V_def V2P_def)

lemma index_mask: "(1023 :: u32) = mask 10"
  by (simp add: mask_eq_exp_minus_1)

lemma bit_index: "bit (drop_bit n va AND 1023 :: u32) k \<longleftrightarrow> k < 10 \<and> bit va (n + k)"
  unfolding index_mask by (auto simp: bit_and_iff bit_mask_iff bit_drop_bit_eq dest: bit_imp_le_length)

lemma and_less_1024: "x AND 1023 < (1024 :: u32)"
proof -
  have "x AND 1023 \<le> (1023 :: u32)" by (rule word_and_le1)
  then show ?thesis by (rule order_le_less_trans) simp
qed

lemma index_less [simp]: "PDX va < 1024" "PTX va < 1024"
  by (simp_all add: PDX_def PTX_def and_less_1024)

lemma bit_PGROUNDDOWN: "bit (PGROUNDDOWN x) k \<longleftrightarrow> 12 \<le> k \<and> bit x k"
  using bit_PTE_ADDR [of x k] by (simp add: PGROUNDDOWN_def PTE_ADDR_def)

text \<open>The two indices of an address determine its page, and are determined by it.\<close>

lemma same_page_iff: "PDX va = PDX vb \<and> PTX va = PTX vb \<longleftrightarrow> PGROUNDDOWN va = PGROUNDDOWN vb"
proof
  assume e: "PDX va = PDX vb \<and> PTX va = PTX vb"
  have d: "bit (PDX va) k \<longleftrightarrow> bit (PDX vb) k" and t: "bit (PTX va) k \<longleftrightarrow> bit (PTX vb) k" for k
    using e by simp_all
  show "PGROUNDDOWN va = PGROUNDDOWN vb"
  proof (rule bit_word_eqI)
    fix k assume "k < LENGTH(32)"
    then show "bit (PGROUNDDOWN va) k \<longleftrightarrow> bit (PGROUNDDOWN vb) k"
      using d [of "k - 22"] t [of "k - 12"]
      by (cases "k < 22") (auto simp: bit_PGROUNDDOWN PDX_def PTX_def bit_index)
  qed
next
  assume e: "PGROUNDDOWN va = PGROUNDDOWN vb"
  have b: "12 \<le> k \<Longrightarrow> bit va k \<longleftrightarrow> bit vb k" for k
    using arg_cong [OF e, of "\<lambda>w. bit w k"] by (simp add: bit_PGROUNDDOWN)
  then show "PDX va = PDX vb \<and> PTX va = PTX vb"
    by (auto simp: bit_eq_iff PDX_def PTX_def bit_index)
qed

section \<open>Page directories\<close>

text \<open>
  The page table an entry of the directory points to, the pages a directory consists of, and the
  invariant: the tables are pages of the allocator, different from each other and from the
  directory, and none of these pages is free.
\<close>

definition pt_page :: "mem \<Rightarrow> u32 \<Rightarrow> u32 \<Rightarrow> u32" where
  "pt_page m pd i = P2V (PTE_ADDR (ent m pd i))"

definition pt_pages :: "mem \<Rightarrow> u32 \<Rightarrow> u32 set" where
  "pt_pages m pd = insert pd (pt_page m pd ` {i. i < 1024 \<and> present (ent m pd i)})"

definition pd_ok :: "u32 \<Rightarrow> mem \<Rightarrow> u32 \<Rightarrow> bool" where
  "pd_ok kend m pd \<longleftrightarrow> page_ok kend pd \<and>
     (\<forall>i < 1024. present (ent m pd i) \<longrightarrow>
        page_ok kend (pt_page m pd i) \<and> pt_page m pd i \<noteq> pd \<and>
        (\<forall>j < 1024. present (ent m pd j) \<longrightarrow> pt_page m pd i = pt_page m pd j \<longrightarrow> i = j))"

definition vm_ok :: "u32 \<Rightarrow> u32 \<Rightarrow> 'a kmem_scheme \<Rightarrow> u32 list \<Rightarrow> bool" where
  "vm_ok kend pd s ps \<longleftrightarrow>
     free_pages kend s ps \<and> pd_ok kend (memory s) pd \<and> set ps \<inter> pt_pages (memory s) pd = {}"

text \<open>Two memories that differ only inside the given pages.\<close>

definition only_pages :: "u32 set \<Rightarrow> mem \<Rightarrow> mem \<Rightarrow> bool" where
  "only_pages P m m' \<longleftrightarrow> (\<forall>x. PGROUNDDOWN x \<notin> P \<longrightarrow> m' x = m x)"

lemma only_pagesD: "only_pages P m m' \<Longrightarrow> PGROUNDDOWN x \<notin> P \<Longrightarrow> m' x = m x"
  by (simp add: only_pages_def)

lemma only_pages_refl [simp]: "only_pages P m m"
  by (simp add: only_pages_def)

lemma only_pages_trans: "only_pages P m m' \<Longrightarrow> only_pages Q m' m'' \<Longrightarrow> P \<union> Q \<subseteq> R \<Longrightarrow> only_pages R m m''"
  unfolding only_pages_def by (metis Un_iff subsetD)

lemma only_pages_mono: "only_pages P m m' \<Longrightarrow> P \<subseteq> Q \<Longrightarrow> only_pages Q m m'"
  by (auto simp: only_pages_def)

lemma only_pages_memset: "aligned p \<Longrightarrow> only_pages {p} m (memset p c PGSIZE m)"
  by (simp add: only_pages_def memset_page)

lemma only_pages_ent: "aligned p \<Longrightarrow> i < 1024 \<Longrightarrow> only_pages {p} m (store32 (p + 4 * i) v m)"
  by (simp add: only_pages_def store_ent_other)

lemma page_ok_aligned: "page_ok kend p \<Longrightarrow> aligned p"
  by (simp add: page_ok_def)

lemma ent_only_pages: "only_pages P m m' \<Longrightarrow> aligned p \<Longrightarrow> i < 1024 \<Longrightarrow> p \<notin> P \<Longrightarrow> ent m' p i = ent m p i"
  by (rule ent_cong) (auto dest: only_pagesD)

lemma translate_ent:
  "translate m pd va =
     (if present (ent m pd (PDX va)) \<and> present (ent m (pt_page m pd (PDX va)) (PTX va))
      then Some (PTE_ADDR (ent m (pt_page m pd (PDX va)) (PTX va)), PTE_FLAGS (ent m (pt_page m pd (PDX va)) (PTX va)))
      else None)"
  by (simp add: translate_def ent_def pt_page_def Let_def)

lemma pd_okD:
  assumes "pd_ok kend m pd"
  shows "page_ok kend pd" "aligned pd"
    "i < 1024 \<Longrightarrow> present (ent m pd i) \<Longrightarrow> page_ok kend (pt_page m pd i)"
    "i < 1024 \<Longrightarrow> present (ent m pd i) \<Longrightarrow> aligned (pt_page m pd i)"
    "i < 1024 \<Longrightarrow> present (ent m pd i) \<Longrightarrow> pt_page m pd i \<noteq> pd"
    "i < 1024 \<Longrightarrow> present (ent m pd i) \<Longrightarrow> j < 1024 \<Longrightarrow> present (ent m pd j) \<Longrightarrow>
       pt_page m pd i = pt_page m pd j \<Longrightarrow> i = j"
  using assms unfolding pd_ok_def by (blast intro: page_ok_aligned)+

lemma pt_pages_page_ok: "pd_ok kend m pd \<Longrightarrow> p \<in> pt_pages m pd \<Longrightarrow> page_ok kend p"
  by (auto simp: pt_pages_def dest: pd_okD)

text \<open>Writing outside the pages of a directory changes nothing of it.\<close>

lemma directory_kept:
  assumes pd: "pd_ok kend m pd" and o: "only_pages P m m'" and d: "P \<inter> pt_pages m pd = {}"
  shows "pd_ok kend m' pd" "pt_pages m' pd = pt_pages m pd" "translate m' pd = translate m pd"
proof -
  have e: "ent m' pd i = ent m pd i" if "i < 1024" for i
    using ent_only_pages [OF o pd_okD(2) [OF pd] that] d by (auto simp: pt_pages_def)
  then have p: "pt_page m' pd i = pt_page m pd i" if "i < 1024" for i
    using that by (simp add: pt_page_def)
  have "{i. i < 1024 \<and> present (ent m' pd i)} = {i. i < 1024 \<and> present (ent m pd i)}" using e by auto
  then show "pt_pages m' pd = pt_pages m pd" using p by (auto simp: pt_pages_def)
  show "pd_ok kend m' pd" using pd e p by (simp add: pd_ok_def)
  have "ent m' (pt_page m pd i) j = ent m (pt_page m pd i) j"
    if "i < 1024" "present (ent m pd i)" "j < 1024" for i j
    using ent_only_pages [OF o pd_okD(4) [OF pd that(1,2)] that(3)] d that by (auto simp: pt_pages_def)
  then show "translate m' pd = translate m pd" using e p by (auto simp: fun_eq_iff translate_ent)
qed

lemma threaded_only:
  assumes "only_pages P m m'" and "\<forall>p \<in> set ps. page_ok kend p" and "set ps \<inter> P = {}"
  shows "threaded m' q ps = threaded m q ps"
proof (rule threaded_cong)
  fix p assume "p \<in> set ps"
  then have "ent m' p 0 = ent m p 0"
    using assms by (intro ent_only_pages) (auto intro: page_ok_aligned)
  then show "load32 m' p = load32 m p" by (simp add: ent_def)
qed

lemma free_pages_only:
  assumes "free_pages kend s ps" and "only_pages P (memory s) m'" and "set ps \<inter> P = {}"
  shows "free_pages kend (s\<lparr>memory := m'\<rparr>) ps"
  using assms threaded_only [OF assms(2) _ assms(3), of kend] by (simp add: free_pages_def)

lemma vm_ok_kept:
  assumes "vm_ok kend pd s ps" and "only_pages P (memory s) m'"
    and "P \<inter> (set ps \<union> pt_pages (memory s) pd) = {}"
  shows "vm_ok kend pd (s\<lparr>memory := m'\<rparr>) ps"
  using assms free_pages_only [of kend s ps P m'] directory_kept [of kend "memory s" pd P m']
  by (auto simp: vm_ok_def)

section \<open>Finding and setting an entry\<close>

text \<open>Pointing an empty entry of the directory at a zeroed page maps nothing.\<close>

lemma new_table:
  fixes va m0
  defines "i \<equiv> PDX va"
  assumes pd: "pd_ok kend m0 pd" and np: "\<not> present (ent m0 pd i)"
    and q: "page_ok kend q" and fresh: "q \<notin> pt_pages m0 pd"
  defines "e \<equiv> V2P q OR 7"
  defines "m \<equiv> store32 (pd + 4 * i) e (memset q 0 PGSIZE m0)"
  shows "present (ent m pd i)" "pt_page m pd i = q" "pd_ok kend m pd"
    "pt_pages m pd = insert q (pt_pages m0 pd)" "translate m pd = translate m0 pd"
    "only_pages {pd, q} m0 m"
proof -
  have i: "i < 1024" by (simp add: i_def)
  have al: "aligned pd" "aligned q" using pd_okD(2) [OF pd] page_ok_aligned [OF q] by auto
  have ne: "q \<noteq> pd" using fresh by (auto simp: pt_pages_def)
  have oz: "only_pages {q} m0 (memset q 0 PGSIZE m0)" using al by (simp add: only_pages_memset)
  have os: "only_pages {pd} (memset q 0 PGSIZE m0) m"
    unfolding m_def using al i by (simp add: only_pages_ent)
  show o: "only_pages {pd, q} m0 m" using only_pages_trans [OF oz os] by simp
  have ent: "ent m pd j = (if j = i then e else ent m0 pd j)" if "j < 1024" for j
    unfolding m_def using ent_store [OF al(1) i that] ent_only_pages [OF oz al(1) that] ne by simp
  have ea: "PTE_ADDR e = V2P q" "present e"
    using entry_fields(1) [of "V2P q" 7] al by (simp_all add: e_def V2P_aligned_iff present_iff bit_or_iff)
  show pi: "present (ent m pd i)" "pt_page m pd i = q" using ent [OF i] ea by (simp_all add: pt_page_def)
  have pt: "pt_page m pd j = (if j = i then q else pt_page m0 pd j)" if "j < 1024" for j
    using ent [OF that] ea that by (simp add: pt_page_def)
  have old: "pt_page m0 pd j \<in> pt_pages m0 pd" if "j < 1024" "present (ent m0 pd j)" for j
    using that by (auto simp: pt_pages_def)
  have "{j. j < 1024 \<and> present (ent m pd j)} = insert i {j. j < 1024 \<and> present (ent m0 pd j)}"
    using ent ea i by auto
  then show "pt_pages m pd = insert q (pt_pages m0 pd)"
    using pt np by (auto simp: pt_pages_def pi(2))
  show "pd_ok kend m pd"
    using pd q ne fresh old np unfolding pd_ok_def by (simp add: ent pt) metis
  have tab: "ent m (pt_page m0 pd j) k = ent m0 (pt_page m0 pd j) k"
    if "j < 1024" "present (ent m0 pd j)" "k < 1024" for j k
    using ent_only_pages [OF o pd_okD(4) [OF pd that(1,2)] that(3)] old [OF that(1,2)] fresh
      pd_okD(5) [OF pd that(1,2)] by auto
  have zero: "ent m q k = 0" if "k < 1024" for k
    using ent_only_pages [OF os al(2) that] ne ent_memset [OF al(2) that, of m0] by simp
  show "translate m pd = translate m0 pd"
  proof
    fix v
    show "translate m pd v = translate m0 pd v"
      using tab [of "PDX v" "PTX v"] zero [of "PTX v"] np
      by (cases "PDX v = i") (auto simp: translate_ent ent pt present_def)
  qed
qed

text \<open>
  A change of a directory and its tables: pages \<open>used\<close> are taken from the free list to become
  tables, and only tables and the directory are written.
\<close>

definition vm_step :: "u32 \<Rightarrow> u32 \<Rightarrow> 'a kmem_scheme \<Rightarrow> u32 list \<Rightarrow> u32 list \<Rightarrow> u32 list \<Rightarrow> 'a kmem_scheme \<Rightarrow> bool" where
  "vm_step kend pd s ps used qs s' \<longleftrightarrow>
     ps = used @ qs \<and> vm_ok kend pd s' qs \<and>
     pt_pages (memory s') pd = pt_pages (memory s) pd \<union> set used \<and>
     only_pages (pt_pages (memory s) pd \<union> set used) (memory s) (memory s')"

lemma vm_stepD:
  assumes "vm_step kend pd s ps used qs s'"
  shows "ps = used @ qs" "vm_ok kend pd s' qs"
    "pt_pages (memory s') pd = pt_pages (memory s) pd \<union> set used"
    "only_pages (pt_pages (memory s) pd \<union> set used) (memory s) (memory s')"
  using assms by (simp_all add: vm_step_def)

lemma vm_step_refl: "vm_ok kend pd s ps \<Longrightarrow> vm_step kend pd s ps [] ps s"
  by (simp add: vm_step_def)

lemma vm_step_trans:
  assumes a: "vm_step kend pd s ps u qs s'" and b: "vm_step kend pd s' qs v rs s''"
  shows "vm_step kend pd s ps (u @ v) rs s''"
  using vm_stepD [OF a] vm_stepD [OF b]
    only_pages_trans [OF vm_stepD(4) [OF a] vm_stepD(4) [OF b], of "pt_pages (memory s) pd \<union> set (u @ v)"]
  by (auto simp: vm_step_def)

lemma vm_okD:
  assumes "vm_ok kend pd s ps"
  shows "free_pages kend s ps" "pd_ok kend (memory s) pd" "set ps \<inter> pt_pages (memory s) pd = {}"
    "aligned pd" "page_ok kend pd" "distinct ps" "\<And>p. p \<in> set ps \<Longrightarrow> page_ok kend p"
  using assms pd_okD(1,2) by (auto simp: vm_ok_def free_pages_def)

lemma walkpgdir_spec:
  assumes ok: "vm_ok kend pd s ps"
  obtains (full) "walkpgdir pd va True s = (0, s)" "ps = []" "translate (memory s) pd va = None"
  | (entry) used qs s' where
      "walkpgdir pd va True s = (pt_page (memory s') pd (PDX va) + 4 * PTX va, s')"
      "vm_step kend pd s ps used qs s'" "length used \<le> 1"
      "present (ent (memory s') pd (PDX va))" "translate (memory s') pd = translate (memory s) pd"
proof (cases "present (ent (memory s) pd (PDX va))")
  case True
  show ?thesis
    by (rule entry [of s "[]" ps]) (use True vm_step_refl [OF ok] in
      \<open>simp_all add: walkpgdir_def ent_def pt_page_def Let_def\<close>)
next
  case False
  then have np: "\<not> present (load32 (memory s) (pd + 4 * PDX va))" by (simp add: ent_def)
  show ?thesis
  proof (cases ps)
    case Nil
    show ?thesis
      by (rule full) (use False Nil kalloc_empty [of kend s] vm_okD(1) [OF ok] in
        \<open>simp_all add: walkpgdir_def ent_def Let_def translate_ent\<close>)
  next
    case (Cons q qs)
    note d = vm_okD [OF ok, unfolded Cons]
    have k: "kalloc s = (q, s\<lparr>freelist := load32 (memory s) q\<rparr>)"
      using d(1) by (auto simp: kalloc_def free_pages_def Let_def)
    have q: "page_ok kend q" "q \<notin> pt_pages (memory s) pd" "q \<noteq> 0"
      using d page_ok_nonzero [of kend q] by auto
    let ?m = "store32 (pd + 4 * PDX va) (V2P q OR 7) (memset q 0 PGSIZE (memory s))"
    let ?s = "s\<lparr>freelist := load32 (memory s) q, memory := ?m\<rparr>"
    note t = new_table [OF d(2) False q(1,2)]
    have fq: "free_pages kend (s\<lparr>freelist := load32 (memory s) q\<rparr>) qs"
      using d(1) by (auto simp: free_pages_def)
    have "free_pages kend ?s qs"
      using free_pages_only [OF fq, of "{pd, q}" ?m] t(6) d(3,6) by (auto simp: pt_pages_def)
    then have "vm_step kend pd s ps [q] qs ?s"
      using t(3,4) only_pages_mono [OF t(6), of "pt_pages (memory s) pd \<union> set [q]"] d(3,6) Cons
      by (auto simp: vm_step_def vm_ok_def pt_pages_def)
    moreover have "walkpgdir pd va True s = (pt_page (memory ?s) pd (PDX va) + 4 * PTX va, ?s)"
      using np k q(3) t(2) by (simp add: walkpgdir_def Let_def)
    ultimately show ?thesis using entry [of ?s "[q]" qs] t(1,5) by simp
  qed
qed

lemma set_entry:
  fixes m0 va e
  assumes pd: "pd_ok kend m0 pd" and p: "present (ent m0 pd (PDX va))"
  defines "q \<equiv> pt_page m0 pd (PDX va)"
  defines "m \<equiv> store32 (q + 4 * PTX va) e m0"
  shows "pd_ok kend m pd" "pt_pages m pd = pt_pages m0 pd" "only_pages (pt_pages m0 pd) m0 m"
    "translate m pd = (\<lambda>v. if PGROUNDDOWN v = PGROUNDDOWN va
       then if present e then Some (PTE_ADDR e, PTE_FLAGS e) else None else translate m0 pd v)"
proof -
  have al: "aligned pd" "aligned q" "q \<noteq> pd" using pd_okD [OF pd] p by (simp_all add: q_def)
  have o: "only_pages {q} m0 m" unfolding m_def using al by (simp add: only_pages_ent)
  have "q \<in> pt_pages m0 pd" using p by (auto simp: pt_pages_def q_def)
  then show "only_pages (pt_pages m0 pd) m0 m" using only_pages_mono [OF o] by simp
  have ent: "ent m pd j = ent m0 pd j" if "j < 1024" for j
    using ent_only_pages [OF o al(1) that] al(3) by simp
  then have pt: "pt_page m pd j = pt_page m0 pd j" if "j < 1024" for j using that by (simp add: pt_page_def)
  show "pd_ok kend m pd" using pd by (simp add: pd_ok_def ent pt)
  have "{j. j < 1024 \<and> present (ent m pd j)} = {j. j < 1024 \<and> present (ent m0 pd j)}" using ent by auto
  then show "pt_pages m pd = pt_pages m0 pd" using pt by (auto simp: pt_pages_def)
  have tab: "ent m (pt_page m0 pd j) k = (if j = PDX va \<and> k = PTX va then e else ent m0 (pt_page m0 pd j) k)"
    if j: "j < 1024" "present (ent m0 pd j)" and k: "k < 1024" for j k
  proof (cases "j = PDX va")
    case True
    then show ?thesis using ent_store [OF al(2) _ k, of "PTX va"] by (simp add: m_def q_def)
  next
    case False
    then have "pt_page m0 pd j \<noteq> q" using pd_okD(6) [OF pd j, of "PDX va"] p by (auto simp: q_def)
    then show ?thesis using ent_only_pages [OF o pd_okD(4) [OF pd j] k] False by simp
  qed
  show "translate m pd = (\<lambda>v. if PGROUNDDOWN v = PGROUNDDOWN va
       then if present e then Some (PTE_ADDR e, PTE_FLAGS e) else None else translate m0 pd v)"
    using p by (auto simp: fun_eq_iff translate_ent ent pt tab simp flip: same_page_iff)
qed

lemma set_entry_step:
  fixes s :: "'a kmem_scheme" and e
  assumes ok: "vm_ok kend pd s ps" and p: "present (ent (memory s) pd (PDX va))"
  defines "s' \<equiv> s\<lparr>memory := store32 (pt_page (memory s) pd (PDX va) + 4 * PTX va) e (memory s)\<rparr>"
  shows "vm_step kend pd s ps [] ps s'"
    "translate (memory s') pd = (\<lambda>v. if PGROUNDDOWN v = PGROUNDDOWN va
       then if present e then Some (PTE_ADDR e, PTE_FLAGS e) else None else translate (memory s) pd v)"
proof -
  note t = set_entry [OF vm_okD(2) [OF ok] p, of e]
  show "vm_step kend pd s ps [] ps s'"
    using t(1-3) free_pages_only [OF vm_okD(1) [OF ok] t(3)] vm_okD(3) [OF ok]
    by (auto simp: s'_def vm_step_def vm_ok_def)
  show "translate (memory s') pd = (\<lambda>v. if PGROUNDDOWN v = PGROUNDDOWN va
       then if present e then Some (PTE_ADDR e, PTE_FLAGS e) else None else translate (memory s) pd v)"
    using t(4) by (simp add: s'_def)
qed

section \<open>Mapping a range\<close>

text \<open>The map that \<open>mappages\<close> promises: \<open>n\<close> pages from \<open>a\<close> go to the frames from \<open>pa\<close>.\<close>

type_synonym vmap = "u32 \<Rightarrow> (u32 \<times> u32) option"

definition map_pages :: "vmap \<Rightarrow> u32 \<Rightarrow> u32 \<Rightarrow> u32 \<Rightarrow> nat \<Rightarrow> vmap" where
  "map_pages T a pa fl n =
     (\<lambda>va. let d = PGROUNDDOWN va - a in if unat d < 4096 * n then Some (pa + d, fl) else T va)"

lemma aligned_dvd: "aligned p \<longleftrightarrow> 4096 dvd unat p"
  by (simp add: word_unat_eq_iff unat_mod mod_eq_0_iff_dvd)

lemma aligned_minus: "aligned p \<Longrightarrow> aligned q \<Longrightarrow> aligned (p - q)"
  unfolding aligned_dvd by (cases "q \<le> p") (auto simp: unat_sub_if' dvd_diff_nat word_le_nat_alt)

lemma aligned_plus: "aligned p \<Longrightarrow> aligned q \<Longrightarrow> aligned (p + q)"
  unfolding aligned_dvd by (simp add: unat_word_ariths dvd_mod_iff)

lemma map_pages_0 [simp]: "map_pages T a pa fl 0 = T"
  by (simp add: map_pages_def)

lemma map_pages_Suc:
  assumes a: "aligned a" and n: "Suc n \<le> 2 ^ 20"
  shows "map_pages T a pa fl (Suc n) =
    map_pages (\<lambda>v. if PGROUNDDOWN v = a then Some (pa, fl) else T v) (a + PGSIZE) (pa + PGSIZE) fl n"
proof
  fix v
  let ?d = "PGROUNDDOWN v - a"
  have "4096 dvd unat ?d" using aligned_minus [OF PGROUNDDOWN_aligned a] by (simp add: aligned_dvd)
  then obtain b where b: "unat ?d = 4096 * b" by (auto simp: dvd_def)
  show "map_pages T a pa fl (Suc n) v =
    map_pages (\<lambda>v. if PGROUNDDOWN v = a then Some (pa, fl) else T v) (a + PGSIZE) (pa + PGSIZE) fl n v"
  proof (cases "?d = 0")
    case True
    then have "PGROUNDDOWN v - (a + PGSIZE) = - 4096" by (simp add: algebra_simps)
    then show ?thesis using True n by (simp add: map_pages_def Let_def)
  next
    case False
    then have "0 < b" using b by (auto simp: word_unat_eq_iff)
    then have "4096 \<le> ?d" using b by (simp add: word_le_nat_alt)
    then have "unat (?d - 4096) = 4096 * b - 4096" using b by (simp add: unat_sub)
    then have u: "unat (PGROUNDDOWN v - (a + PGSIZE)) = 4096 * b - 4096" by (simp add: diff_diff_eq)
    then have "unat (PGROUNDDOWN v - (a + PGSIZE)) < 4096 * n \<longleftrightarrow> unat ?d < 4096 * Suc n"
      using b \<open>0 < b\<close> by auto
    then show ?thesis using False by (simp add: map_pages_def Let_def)
  qed
qed

lemma flags_or: "f < 4096 \<Longrightarrow> f OR 1 < (4096 :: u32)"
  by (auto simp: flags_iff bit_or_iff bit_1_iff)

lemma step_aligned: "aligned (of_nat i * 4096 :: u32)"
  unfolding aligned_dvd by (simp add: unat_word_ariths dvd_mod_iff)

lemma page_step:
  assumes "aligned a" and "i < 2 ^ 20"
  shows "PGROUNDDOWN (a + of_nat i * 4096) = a + of_nat i * 4096" "a + of_nat i * 4096 = a \<longleftrightarrow> i = 0"
proof -
  show "PGROUNDDOWN (a + of_nat i * 4096) = a + of_nat i * 4096"
    using aligned_plus [OF assms(1) step_aligned] by (rule PGROUNDDOWN_self)
  have "of_nat i * 4096 = (of_nat (i * 4096) :: u32)" by simp
  moreover have "unat (of_nat (i * 4096) :: u32) = i * 4096"
    using assms(2) by (intro unat_of_nat_u32) simp
  ultimately show "a + of_nat i * 4096 = a \<longleftrightarrow> i = 0" by (simp add: word_unat_eq_iff [of _ 0])
qed

text \<open>The outcome of \<open>mappages\<close>: all \<open>n\<close> pages mapped, or memory ran out after \<open>k\<close> of them.\<close>

definition mapped :: "u32 \<Rightarrow> u32 \<Rightarrow> 'a kmem_scheme \<Rightarrow> u32 list \<Rightarrow> u32 \<Rightarrow> u32 \<Rightarrow> u32 \<Rightarrow> nat \<Rightarrow> nat \<Rightarrow> int \<Rightarrow>
    u32 list \<Rightarrow> u32 list \<Rightarrow> 'a kmem_scheme \<Rightarrow> bool" where
  "mapped kend pd s ps a pa fl n k r used qs s' \<longleftrightarrow>
     vm_step kend pd s ps used qs s' \<and> length used \<le> k \<and>
     (k = n \<and> r = 0 \<or> k < n \<and> r = - 1 \<and> qs = []) \<and>
     translate (memory s') pd = map_pages (translate (memory s) pd) a pa fl k"

lemma mappages_loop_spec:
  assumes "vm_ok kend pd s ps" and "aligned a" and "aligned pa" and perm: "perm < 4096" and "n \<le> 2 ^ 20"
    and "\<forall>i < n. translate (memory s) pd (a + of_nat i * PGSIZE) = None"
  shows "\<exists>k r used qs s'. mappages_loop n pd a pa perm s = Ret (r, s') \<and>
    mapped kend pd s ps a pa (perm OR 1) n k r used qs s'"
  using assms
proof (induction n arbitrary: a pa s ps)
  case 0
  then show ?case using vm_step_refl by (force simp: mapped_def)
next
  case (Suc n)
  have a0: "PGROUNDDOWN a = a" by (rule PGROUNDDOWN_self [OF Suc.prems(2)])
  have none: "translate (memory s) pd a = None" using Suc.prems(6) by force
  show ?case
  proof (cases rule: walkpgdir_spec [OF Suc.prems(1), of a, case_names full entry])
    case full
    have "mapped kend pd s ps a pa (perm OR 1) (Suc n) 0 (- 1) [] [] s"
      using vm_step_refl [OF Suc.prems(1)] full by (simp add: mapped_def)
    then show ?thesis using full by auto
  next
    case (entry u1 qs1 s1)
    let ?pte = "pt_page (memory s1) pd (PDX a) + 4 * PTX a" and ?e = "pa OR perm OR 1"
    let ?s = "s1\<lparr>memory := store32 ?pte ?e (memory s1)\<rparr>"
    have np: "\<not> present (load32 (memory s1) ?pte)"
      using none entry(4) unfolding entry(5) [symmetric] by (simp add: translate_ent ent_def split: if_splits)
    have "?pte \<noteq> 0"
      using PGROUNDDOWN_in [of "pt_page (memory s1) pd (PDX a)" "4 * PTX a"] ent_offset [of "PTX a" 0]
        pd_okD(3,4) [OF vm_okD(2) [OF vm_stepD(2) [OF entry(2)]] _ entry(4)] page_ok_nonzero
      by (force simp: PGROUNDDOWN_def)
    then have loop: "mappages_loop (Suc n) pd a pa perm s = mappages_loop n pd (a + PGSIZE) (pa + PGSIZE) perm ?s"
      using np by (simp add: entry(1))
    note st = set_entry_step [OF vm_stepD(2) [OF entry(2)] entry(4), of ?e]
    have e: "present ?e" "PTE_ADDR ?e = pa" "PTE_FLAGS ?e = perm OR 1"
      using entry_fields [OF Suc.prems(3) flags_or [OF perm]] by (simp_all add: present_iff bit_or_iff)
    have T: "translate (memory ?s) pd = (\<lambda>v. if PGROUNDDOWN v = a then Some (pa, perm OR 1) else translate (memory s) pd v)"
      unfolding st(2) e(2,3) a0 entry(5) using e(1) by simp
    have rest: "\<forall>i < n. translate (memory ?s) pd (a + PGSIZE + of_nat i * PGSIZE) = None"
    proof (intro allI impI)
      fix i assume "i < n"
      then have i: "Suc i < 2 ^ 20" "Suc i < Suc n" using Suc.prems(5) by auto
      have eq: "a + PGSIZE + of_nat i * PGSIZE = a + of_nat (Suc i) * PGSIZE" by (simp add: algebra_simps)
      show "translate (memory ?s) pd (a + PGSIZE + of_nat i * PGSIZE) = None"
        unfolding eq T using page_step [OF Suc.prems(2) i(1)] Suc.prems(6) i(2)
        by (simp del: of_nat_Suc)
    qed
    have "aligned (a + PGSIZE)" "aligned (pa + PGSIZE)" "n \<le> 2 ^ 20"
      using aligned_plus Suc.prems(2,3,5) by auto
    from Suc.IH [OF vm_stepD(2) [OF st(1)] this(1,2) perm this(3) rest]
    obtain k r used qs s' where IH: "mappages_loop n pd (a + PGSIZE) (pa + PGSIZE) perm ?s = Ret (r, s')"
      "mapped kend pd ?s qs1 (a + PGSIZE) (pa + PGSIZE) (perm OR 1) n k r used qs s'" by blast
    have "vm_step kend pd s ps (u1 @ [] @ used) qs s'"
      using vm_step_trans [OF entry(2) vm_step_trans [OF st(1)]] IH(2) by (simp add: mapped_def)
    moreover have "translate (memory s') pd = map_pages (translate (memory s) pd) a pa (perm OR 1) (Suc k)"
      using IH(2) map_pages_Suc [OF Suc.prems(2), of k] Suc.prems(5) T by (auto simp: mapped_def)
    ultimately have "mapped kend pd s ps a pa (perm OR 1) (Suc n) (Suc k) r (u1 @ used) qs s'"
      using IH(2) entry(3) by (auto simp: mapped_def)
    then show ?thesis using loop IH(1) by auto
  qed
qed

lemma mappages_count:
  assumes "0 < sz" and "unat va + unat sz \<le> 2 ^ 32"
  shows "unat ((PGROUNDDOWN (va + sz - 1) - PGROUNDDOWN va) div PGSIZE) =
    (unat va + unat sz - 1) div 4096 - unat va div 4096"
proof -
  have s: "0 < unat sz" using assms(1) by (simp add: word_less_nat_alt)
  have "unat (sz - 1) = unat sz - 1" using s by (intro unat_minus_one) auto
  then have "unat (va + (sz - 1)) = unat va + (unat sz - 1)"
    using assms(2) s by (subst unat_add_u32) auto
  then have u: "unat (va + sz - 1) = unat va + unat sz - 1" using s by (simp add: add_diff_eq)
  have le: "unat va div 4096 \<le> (unat va + unat sz - 1) div 4096" using s by (intro div_le_mono) simp
  then have "PGROUNDDOWN va \<le> PGROUNDDOWN (va + sz - 1)"
    by (simp add: word_le_nat_alt unat_PGROUNDDOWN u)
  then show ?thesis using le
    by (simp add: unat_div unat_sub unat_PGROUNDDOWN u flip: diff_mult_distrib)
qed

lemma mappages_spec:
  fixes va sz
  defines "n \<equiv> (unat va + unat sz - 1) div 4096 - unat va div 4096 + 1"
  assumes ok: "vm_ok kend pd s ps" and sz: "0 < sz" "unat va + unat sz \<le> 2 ^ 32"
    and pa: "aligned pa" "perm < 4096"
    and none: "\<forall>i < n. translate (memory s) pd (PGROUNDDOWN va + of_nat i * PGSIZE) = None"
  shows "\<exists>k r used qs s'. mappages pd va sz pa perm s = Ret (r, s') \<and>
    mapped kend pd s ps (PGROUNDDOWN va) pa (perm OR 1) n k r used qs s'"
proof -
  have "(unat va + unat sz - 1) div 4096 \<le> (2 ^ 32 - 1) div 4096"
    using sz(2) by (intro div_le_mono) simp
  then have "n \<le> 2 ^ 20" by (simp add: n_def)
  moreover have "mappages pd va sz pa perm s = mappages_loop n pd (PGROUNDDOWN va) pa perm s"
    unfolding mappages_def Let_def mappages_count [OF sz] n_def ..
  ultimately show ?thesis using mappages_loop_spec [OF ok PGROUNDDOWN_aligned pa _ none] by simp
qed

section \<open>Giving a process pages\<close>

text \<open>
  The common effect of \<open>allocuvm\<close> and \<open>copyuvm\<close> on a directory: every page of the list \<open>as\<close>
  is mapped to a frame of its own taken from the free list, with the flags \<open>fl\<close> and the
  contents \<open>fill\<close> asked for, and no other page is mapped differently.
\<close>

definition given :: "u32 \<Rightarrow> u32 \<Rightarrow> 'a kmem_scheme \<Rightarrow> u32 list \<Rightarrow> u32 list \<Rightarrow> (u32 \<Rightarrow> u32 \<Rightarrow> 8 word) \<Rightarrow> (u32 \<Rightarrow> u32) \<Rightarrow>
    u32 list \<Rightarrow> u32 list \<Rightarrow> 'a kmem_scheme \<Rightarrow> bool" where
  "given kend pd s ps as fill fl fs qs s' \<longleftrightarrow>
     vm_ok kend pd s' qs \<and>
     list_all2 (\<lambda>a f. translate (memory s') pd a = Some (V2P f, fl a OR 1) \<and>
       (\<forall>k < 4096. memory s' (f + k) = fill a k)) as fs \<and>
     (\<forall>v. PGROUNDDOWN v \<notin> set as \<longrightarrow> translate (memory s') pd v = translate (memory s) pd v) \<and>
     distinct fs \<and> set fs \<union> set qs \<subseteq> set ps \<and>
     set fs \<inter> (set qs \<union> pt_pages (memory s') pd) = {} \<and>
     pt_pages (memory s') pd \<subseteq> pt_pages (memory s) pd \<union> set ps \<and>
     only_pages (pt_pages (memory s) pd \<union> set ps) (memory s) (memory s') \<and>
     length ps \<le> length qs + 2 * length as"

lemma givenD:
  assumes "given kend pd s ps as fill fl fs qs s'"
  shows "vm_ok kend pd s' qs"
    "list_all2 (\<lambda>a f. translate (memory s') pd a = Some (V2P f, fl a OR 1) \<and>
       (\<forall>k < 4096. memory s' (f + k) = fill a k)) as fs"
    "PGROUNDDOWN v \<notin> set as \<Longrightarrow> translate (memory s') pd v = translate (memory s) pd v"
    "distinct fs" "set fs \<union> set qs \<subseteq> set ps" "set fs \<inter> (set qs \<union> pt_pages (memory s') pd) = {}"
    "pt_pages (memory s') pd \<subseteq> pt_pages (memory s) pd \<union> set ps"
    "only_pages (pt_pages (memory s) pd \<union> set ps) (memory s) (memory s')"
    "length ps \<le> length qs + 2 * length as"
  using assms unfolding given_def by (blast+)

lemma given_Nil: "vm_ok kend pd s ps \<Longrightarrow> given kend pd s ps [] fill fl [] ps s"
  by (simp add: given_def)

lemma given_Cons:
  assumes a: "given kend pd s ps [a] fill fl [f] qs s1" and b: "given kend pd s1 qs as fill fl fs rs s2"
    and pages: "aligned a" "a \<notin> set as" and f: "page_ok kend f"
  shows "given kend pd s ps (a # as) fill fl (f # fs) rs s2"
proof -
  note A = givenD [OF a] and B = givenD [OF b]
  have new: "f \<notin> set qs \<union> pt_pages (memory s1) pd" using A(6) by auto
  have "translate (memory s2) pd a = translate (memory s1) pd a"
    using B(3) [of a] pages PGROUNDDOWN_self by simp
  moreover have "memory s2 (f + k) = memory s1 (f + k)" if "k < 4096" for k
    using only_pagesD [OF B(8)] new PGROUNDDOWN_in [OF page_ok_aligned [OF f] that] by auto
  moreover have "only_pages (pt_pages (memory s) pd \<union> set ps) (memory s) (memory s2)"
    using only_pages_trans [OF A(8) B(8)] A(5,7) by auto
  moreover have "f \<notin> set fs" "f \<notin> set rs \<union> pt_pages (memory s2) pd" using new B(5,7) by auto
  moreover have "f \<in> set ps" "set fs \<union> set rs \<subseteq> set ps" using A(5) B(5) by auto
  moreover have "pt_pages (memory s2) pd \<subseteq> pt_pages (memory s) pd \<union> set ps" using A(5,7) B(7) by blast
  ultimately show ?thesis using A(2,3,9) B(1-4,6,9) by (auto simp: given_def)
qed

text \<open>One page: take a frame, fill it, map it.\<close>

lemma give_page:
  fixes m1 f ps s
  assumes ok: "vm_ok kend pd s (f # ps)" and ps: "ps \<noteq> []" and a: "aligned a" "translate (memory s) pd a = None"
    and fl: "fl < 4096" and m1: "only_pages {f} (memory s) m1"
  defines "s1 \<equiv> s\<lparr>freelist := load32 (memory s) f\<rparr>"
  shows "kalloc s = (f, s1)" "f \<noteq> 0"
    "\<exists>s2 qs. mappages pd a PGSIZE (V2P f) fl (s1\<lparr>memory := m1\<rparr>) = Ret (0, s2) \<and>
       given kend pd s (f # ps) [a] (\<lambda>_ k. m1 (f + k)) (\<lambda>_. fl) [f] qs s2"
proof -
  note d = vm_okD [OF ok]
  show k: "kalloc s = (f, s1)" using d(1) by (auto simp: s1_def kalloc_def free_pages_def Let_def)
  show "f \<noteq> 0" using page_ok_nonzero d(7) by auto
  have "vm_ok kend pd s1 ps" using ok by (auto simp: s1_def vm_ok_def free_pages_def)
  then have ok1: "vm_ok kend pd (s1\<lparr>memory := m1\<rparr>) ps"
    using m1 d(3,6) by (intro vm_ok_kept [where P = "{f}"]) (auto simp: s1_def)
  note kept = directory_kept [OF d(2) m1]
  obtain b where b: "unat a = 4096 * b" using aligned_unat [OF a(1)] .
  have n: "(unat a + unat PGSIZE - 1) div 4096 - unat a div 4096 + 1 = 1" using b by simp
  have top: "unat a + unat PGSIZE \<le> 2 ^ 32" using b unat_u32_less [of a] by simp
  have none: "\<forall>i < (1 :: nat). translate m1 pd (PGROUNDDOWN a + of_nat i * PGSIZE) = None"
    using kept(3) d(3) a PGROUNDDOWN_self by auto
  have "aligned (V2P f)" using page_ok_aligned [OF d(7) [of f]] by (simp add: V2P_aligned_iff)
  from mappages_spec [OF ok1 _ top this fl, unfolded n] none
  obtain k r used qs s2 where r: "mappages pd a PGSIZE (V2P f) fl (s1\<lparr>memory := m1\<rparr>) = Ret (r, s2)"
    and mp: "mapped kend pd (s1\<lparr>memory := m1\<rparr>) ps (PGROUNDDOWN a) (V2P f) (fl OR 1) 1 k r used qs s2"
    by auto
  note a0 = PGROUNDDOWN_self [OF a(1)]
  have st: "vm_step kend pd (s1\<lparr>memory := m1\<rparr>) ps used qs s2" and len: "length used \<le> k"
    and kr: "k = 1 \<and> r = 0 \<or> k < 1 \<and> r = - 1 \<and> qs = []"
    and T: "translate (memory s2) pd = map_pages (translate m1 pd) a (V2P f) (fl OR 1) k"
    using mp a0 by (simp_all add: mapped_def)
  note S = vm_stepD [OF st, simplified]
  have k1: "k = 1" "r = 0" using kr len ps S(1) by auto
  have pt: "pt_pages m1 pd = pt_pages (memory s) pd" using kept(2) d(3) by auto
  have T1: "translate (memory s2) pd v = (if PGROUNDDOWN v = a then Some (V2P f, fl OR 1) else translate (memory s) pd v)" for v
    using T kept(3) d(3) map_pages_Suc [OF a(1), of 0] by (simp add: k1)
  have new: "f \<notin> set ps" "f \<notin> pt_pages (memory s) pd" using d(3,6) by auto
  have "memory s2 (f + k) = m1 (f + k)" if "k < 4096" for k
    using only_pagesD [OF S(4)] new S(1) PGROUNDDOWN_in [OF page_ok_aligned [OF d(7) [of f]] that] pt by auto
  moreover have "only_pages (pt_pages (memory s) pd \<union> set (f # ps)) (memory s) (memory s2)"
    using only_pages_trans [OF m1 S(4)] pt S(1) by auto
  ultimately have "given kend pd s (f # ps) [a] (\<lambda>_ k. m1 (f + k)) (\<lambda>_. fl) [f] qs s2"
    using S(1-3) T1 a0 new pt len k1(1) by (auto simp: given_def)
  then show "\<exists>s2 qs. mappages pd a PGSIZE (V2P f) fl (s1\<lparr>memory := m1\<rparr>) = Ret (0, s2) \<and>
       given kend pd s (f # ps) [a] (\<lambda>_ k. m1 (f + k)) (\<lambda>_. fl) [f] qs s2"
    using r k1(2) by blast
qed

end
