(* ===== verification/Vm_Space.thy ===== *)
theory Vm_Space
  imports Vm_Map
begin

text \<open>
  Growing and copying address spaces: the loops of \<open>allocuvm\<close> and \<open>copyuvm\<close> give a directory
  pages of its own (\<open>given\<close>), and the properties of page tables with their witnesses.
\<close>

section \<open>The loops\<close>

lemma given_fill:
  assumes "given kend pd s ps as fill fl fs qs s'"
    and "\<And>a k. a \<in> set as \<Longrightarrow> k < 4096 \<Longrightarrow> fill a k = fill' a k" "\<And>a. a \<in> set as \<Longrightarrow> fl a = fl' a"
  shows "given kend pd s ps as fill' fl' fs qs s'"
proof -
  have "list_all2 (\<lambda>a f. translate (memory s') pd a = Some (V2P f, fl' a OR 1) \<and>
       (\<forall>k < 4096. memory s' (f + k) = fill' a k)) as fs"
    using givenD(2) [OF assms(1)] assms(2,3) by (auto elim: list.rel_mono_strong)
  then show ?thesis using assms(1) by (auto simp: given_def)
qed

lemma two_pages:
  assumes "2 * length (a # as) \<le> length ps"
  obtains f g rest where "ps = f # g # rest"
proof (cases ps)
  case (Cons f ps1)
  then show ?thesis using that assms by (cases ps1) auto
qed (use assms in simp)

lemma allocuvm_loop_spec:
  assumes "vm_ok kend pd s ps" and "distinct as" and "2 * length as \<le> length ps"
    and "\<forall>a \<in> set as. aligned a \<and> translate (memory s) pd a = None"
  shows "\<exists>fs qs s'. allocuvm_loop kend pd oldsz newsz as s = Ret (newsz, s') \<and>
    given kend pd s ps as (\<lambda>_ _. 0) (\<lambda>_. 6) fs qs s'"
  using assms
proof (induction as arbitrary: s ps)
  case Nil
  then show ?case using given_Nil by fastforce
next
  case (Cons a as)
  obtain f g rest where ps: "ps = f # g # rest" using two_pages [OF Cons.prems(3)] .
  have f: "page_ok kend f" using vm_okD(7) [OF Cons.prems(1)] ps by simp
  let ?s1 = "s\<lparr>freelist := load32 (memory s) f\<rparr>" and ?m1 = "memset f 0 PGSIZE (memory s)"
  have a: "aligned a" "translate (memory s) pd a = None" "a \<notin> set as" using Cons.prems by auto
  note g1 = give_page [OF Cons.prems(1) [unfolded ps] _ a(1,2) _ only_pages_memset [OF page_ok_aligned [OF f], of _ 0], of 6]
  from g1(3) obtain s2 qs where
    mp: "mappages pd a PGSIZE (V2P f) 6 (?s1\<lparr>memory := ?m1\<rparr>) = Ret (0, s2)"
    and "given kend pd s ps [a] (\<lambda>_ k. ?m1 (f + k)) (\<lambda>_. 6) [f] qs s2" by (auto simp: ps)
  then have given: "given kend pd s ps [a] (\<lambda>_ _. 0) (\<lambda>_. 6) [f] qs s2"
    by (elim given_fill) (simp_all add: memset_apply)
  have "aligned b \<and> translate (memory s2) pd b = None" if b: "b \<in> set as" for b
  proof -
    have "PGROUNDDOWN b = b" using Cons.prems(4) b PGROUNDDOWN_self by simp
    then show ?thesis using Cons.prems(4) givenD(3) [OF given, of b] a(3) b by auto
  qed
  moreover have "2 * length as \<le> length qs" using givenD(9) [OF given] Cons.prems(3) by simp
  ultimately obtain fs rs s' where
    loop: "allocuvm_loop kend pd oldsz newsz as s2 = Ret (newsz, s')"
    and g2: "given kend pd s2 qs as (\<lambda>_ _. 0) (\<lambda>_. 6) fs rs s'"
    using Cons.IH [OF givenD(1) [OF given], of] Cons.prems(2) by auto
  have "allocuvm_loop kend pd oldsz newsz (a # as) s = Ret (newsz, s')"
    using g1(1,2) mp loop by (simp add: Let_def)
  then show ?case using given_Cons [OF given g2 a(1,3) f] by blast
qed

text \<open>The addresses the loops visit.\<close>

lemma page_seq_props:
  assumes "aligned a" and "unat a + 4096 * n \<le> 2 ^ 32"
  shows "distinct (page_seq a n)" "\<forall>p \<in> set (page_seq a n). aligned p"
proof -
  have u: "unat (a + of_nat i * PGSIZE) = unat a + i * 4096" if "i < n" for i
  proof -
    have "of_nat i * (4096 :: u32) = of_nat (i * 4096)" by simp
    moreover have "unat (of_nat (i * 4096) :: u32) = i * 4096"
      using that assms(2) by (intro unat_of_nat_u32) simp
    ultimately show ?thesis using that assms(2) by (subst unat_add_u32) auto
  qed
  show "distinct (page_seq a n)"
    unfolding page_seq_def distinct_map
  proof (intro conjI inj_onI)
    fix i j assume ij: "i \<in> set [0..<n]" "j \<in> set [0..<n]" and eq: "a + of_nat i * PGSIZE = a + of_nat j * PGSIZE"
    have "i < n" "j < n" using ij by auto
    from u [OF this(1)] u [OF this(2)] have "unat a + i * 4096 = unat a + j * 4096" unfolding eq by (rule trans [OF sym])
    then show "i = j" by simp
  qed simp
  show "\<forall>p \<in> set (page_seq a n). aligned p"
    using aligned_plus [OF assms(1) step_aligned] by (auto simp: page_seq_def)
qed

lemma uvm_pages_props:
  assumes "aligned a" and "lim \<le> KERNBASE"
  shows "distinct (uvm_pages a lim)" "\<forall>p \<in> set (uvm_pages a lim). aligned p"
proof -
  have "unat a + 4096 * ((unat lim - unat a + 4095) div 4096) \<le> 2 ^ 32"
  proof (cases "unat lim \<le> unat a")
    case False
    then have "4096 * ((unat lim - unat a + 4095) div 4096) \<le> unat lim - unat a + 4095"
      by (simp add: mult.commute)
    moreover have "unat lim \<le> 2147483648" using assms(2) by (simp add: word_le_nat_alt)
    ultimately show ?thesis using False by simp
  qed (use unat_u32_less [of a] in simp)
  note p = page_seq_props [OF assms(1) this]
  show "distinct (uvm_pages a lim)" "\<forall>p \<in> set (uvm_pages a lim). aligned p"
    using p by (simp_all add: uvm_pages_def)
qed

text \<open>
  A user page of the parent: mapped, present, to a frame of the allocator that is neither free nor
  part of the child's tables.
\<close>

definition user_page :: "u32 \<Rightarrow> mem \<Rightarrow> u32 \<Rightarrow> u32 list \<Rightarrow> u32 set \<Rightarrow> u32 \<Rightarrow> bool" where
  "user_page kend m pd ps D a \<longleftrightarrow> aligned a \<and>
     (case translate m pd a of None \<Rightarrow> False
      | Some (pa, fl) \<Rightarrow> page_ok kend (P2V pa) \<and> P2V pa \<notin> set ps \<union> D)"

definition frame_of :: "mem \<Rightarrow> u32 \<Rightarrow> u32 \<Rightarrow> u32" where
  "frame_of m pd a = P2V (fst (the (translate m pd a)))"

definition flags_of :: "mem \<Rightarrow> u32 \<Rightarrow> u32 \<Rightarrow> u32" where
  "flags_of m pd a = snd (the (translate m pd a))"

lemma walk_mapped:
  assumes pd: "pd_ok kend (memory s) pd" and t: "translate (memory s) pd a = Some (pa, fl)"
  obtains pte where "walkpgdir pd a False s = (pte, s)" "pte \<noteq> 0" "present (load32 (memory s) pte)"
    "PTE_ADDR (load32 (memory s) pte) = pa" "PTE_FLAGS (load32 (memory s) pte) = fl"
proof
  let ?q = "pt_page (memory s) pd (PDX a)"
  have p: "present (ent (memory s) pd (PDX a))" "present (ent (memory s) ?q (PTX a))"
    "pa = PTE_ADDR (ent (memory s) ?q (PTX a))" "fl = PTE_FLAGS (ent (memory s) ?q (PTX a))"
    using t by (simp_all add: translate_ent split: if_splits)
  show "walkpgdir pd a False s = (?q + 4 * PTX a, s)"
    using p(1) by (simp add: walkpgdir_def ent_def pt_page_def Let_def)
  show "?q + 4 * PTX a \<noteq> 0"
    using PGROUNDDOWN_in [of ?q "4 * PTX a"] ent_offset [of "PTX a" 0]
      pd_okD(3,4) [OF pd _ p(1)] page_ok_nonzero by (force simp: PGROUNDDOWN_def)
  show "present (load32 (memory s) (?q + 4 * PTX a))" "PTE_ADDR (load32 (memory s) (?q + 4 * PTX a)) = pa"
    "PTE_FLAGS (load32 (memory s) (?q + 4 * PTX a)) = fl"
    using p by (simp_all add: ent_def)
qed

lemma page_ok_top: "page_ok kend p \<Longrightarrow> unat p + unat PGSIZE < 2 ^ 32"
proof -
  assume "page_ok kend p"
  then have "unat (p - 0x80000000) < 0xE000000" by (simp add: page_ok_def V2P_def word_less_nat_alt)
  then have "unat p < 0x90000000" using unat_u32_less [of p]
    by (cases "0x80000000 \<le> p") (simp_all add: unat_sub word_le_nat_alt)
  then show ?thesis by simp
qed

lemma memmove_page:
  assumes "page_ok kend f" and "page_ok kend g"
  shows "only_pages {f} m (memmove f g PGSIZE m)" "k < 4096 \<Longrightarrow> memmove f g PGSIZE m (f + k) = m (g + k)"
  using memmove_apply [OF page_ok_top [OF assms(1)] page_ok_top [OF assms(2)]] page_ok_aligned [OF assms(1)]
  by (auto simp: only_pages_def PGROUNDDOWN_eq_iff)

lemma translate_flags: "translate m pd a = Some (pa, fl) \<Longrightarrow> fl < 4096 \<and> fl OR 1 = fl"
proof -
  assume "translate m pd a = Some (pa, fl)"
  then obtain e where e: "fl = PTE_FLAGS e" "present e" by (auto simp: translate_ent split: if_splits)
  have "fl OR 1 = fl"
    unfolding e(1) by (rule bit_word_eqI) (use e(2) in \<open>auto simp: bit_PTE_FLAGS present_iff bit_or_iff bit_1_iff\<close>)
  then show ?thesis unfolding flags_iff e(1) bit_PTE_FLAGS by simp
qed

text \<open>The state in which the pages \<open>as\<close> of a parent \<open>pd\<close> can be copied for a child \<open>d\<close>.\<close>

definition copy_ok :: "u32 \<Rightarrow> u32 \<Rightarrow> u32 \<Rightarrow> u32 list \<Rightarrow> u32 list \<Rightarrow> 'a kmem_scheme \<Rightarrow> bool" where
  "copy_ok kend pd d ps as s \<longleftrightarrow>
     vm_ok kend d s ps \<and> pd_ok kend (memory s) pd \<and>
     pt_pages (memory s) pd \<inter> (set ps \<union> pt_pages (memory s) d) = {} \<and>
     distinct as \<and> 2 * length as \<le> length ps \<and>
     (\<forall>a \<in> set as. user_page kend (memory s) pd ps (pt_pages (memory s) d) a \<and> translate (memory s) d a = None)"

lemma user_pageD:
  assumes "user_page kend m pd ps D a"
  shows "aligned a" "translate m pd a = Some (V2P (frame_of m pd a), flags_of m pd a)"
    "page_ok kend (frame_of m pd a)" "frame_of m pd a \<notin> set ps \<union> D"
  using assms by (auto simp: user_page_def frame_of_def flags_of_def split: option.splits)

lemma user_pageI:
  "aligned a \<Longrightarrow> translate m pd a = Some (V2P f, fl) \<Longrightarrow> page_ok kend f \<Longrightarrow> f \<notin> set ps \<union> D \<Longrightarrow>
     user_page kend m pd ps D a"
  by (simp add: user_page_def)

lemma copy_ok_step:
  assumes c: "copy_ok kend pd d ps (a # as) s" and g: "given kend d s ps [a] fill fl [f] qs s2"
  shows "copy_ok kend pd d qs as s2" "translate (memory s2) pd = translate (memory s) pd"
    "b \<in> set as \<Longrightarrow> k < 4096 \<Longrightarrow> memory s2 (frame_of (memory s) pd b + k) = memory s (frame_of (memory s) pd b + k)"
proof -
  note G = givenD [OF g]
  have C: "pd_ok kend (memory s) pd" "pt_pages (memory s) pd \<inter> (set ps \<union> pt_pages (memory s) d) = {}"
    "distinct (a # as)" "2 * length (a # as) \<le> length ps"
    using c by (simp_all add: copy_ok_def)
  have u: "user_page kend (memory s) pd ps (pt_pages (memory s) d) b" "translate (memory s) d b = None"
    if "b \<in> set as" for b using c that by (simp_all add: copy_ok_def)
  have K: "pd_ok kend (memory s2) pd" "pt_pages (memory s2) pd = pt_pages (memory s) pd"
    "translate (memory s2) pd = translate (memory s) pd"
    using directory_kept [OF C(1) G(8)] C(2) by auto
  then show "translate (memory s2) pd = translate (memory s) pd" by simp
  show "memory s2 (frame_of (memory s) pd b + k) = memory s (frame_of (memory s) pd b + k)"
    if "b \<in> set as" "k < 4096" for b k
    using user_pageD(3,4) [OF u(1) [OF that(1)]] only_pagesD [OF G(8)] PGROUNDDOWN_in [OF page_ok_aligned that(2)]
    by auto
  have "user_page kend (memory s2) pd qs (pt_pages (memory s2) d) b \<and> translate (memory s2) d b = None"
    if "b \<in> set as" for b
  proof -
    note U = user_pageD [OF u(1) [OF that]]
    have "frame_of (memory s) pd b \<notin> set qs \<union> pt_pages (memory s2) d" using U(4) G(5,7) by blast
    moreover have "translate (memory s2) d b = translate (memory s) d b"
      using G(3) [of b] PGROUNDDOWN_self [OF U(1)] C(3) that by auto
    ultimately show ?thesis
      using user_pageI [OF U(1) U(2) [folded K(3)] U(3)] u(2) [OF that] by simp
  qed
  moreover have "pt_pages (memory s2) pd \<inter> (set qs \<union> pt_pages (memory s2) d) = {}"
    using C(2) G(5,7) K(2) by blast
  ultimately show "copy_ok kend pd d qs as s2"
    using C(3,4) G(1,9) K(1) by (simp add: copy_ok_def)
qed

lemma copyuvm_loop_spec:
  assumes "copy_ok kend pd d ps as s"
  shows "\<exists>fs qs s'. copyuvm_loop kend pd d as s = Ret (d, s') \<and>
    given kend d s ps as (\<lambda>a k. memory s (frame_of (memory s) pd a + k)) (flags_of (memory s) pd) fs qs s'"
  using assms
proof (induction as arbitrary: s ps)
  case Nil
  then show ?case using given_Nil by (fastforce simp: copy_ok_def)
next
  case (Cons a as)
  have C: "vm_ok kend d s ps" "pd_ok kend (memory s) pd" "2 * length (a # as) \<le> length ps" "a \<notin> set as"
    "user_page kend (memory s) pd ps (pt_pages (memory s) d) a" "translate (memory s) d a = None"
    using Cons.prems by (simp_all add: copy_ok_def)
  obtain f g rest where ps: "ps = f # g # rest" using two_pages [OF C(3)] .
  note U = user_pageD [OF C(5)]
  have f: "page_ok kend f" using vm_okD(7) [OF C(1)] ps by simp
  let ?s1 = "s\<lparr>freelist := load32 (memory s) f\<rparr>" and ?fr = "frame_of (memory s) pd" and ?fl = "flags_of (memory s) pd"
  let ?m1 = "memmove f (?fr a) PGSIZE (memory s)"
  obtain pte where pte: "walkpgdir pd a False s = (pte, s)" "pte \<noteq> 0" "present (load32 (memory s) pte)"
    "PTE_ADDR (load32 (memory s) pte) = V2P (?fr a)" "PTE_FLAGS (load32 (memory s) pte) = ?fl a"
    using walk_mapped [OF C(2) U(2)] .
  note fl = conjunct1 [OF translate_flags [OF U(2)]]
  note g1 = give_page [OF C(1) [unfolded ps] _ U(1) C(6) fl memmove_page(1) [OF f U(3)]]
  from g1(3) obtain s2 qs where
    mp: "mappages d a PGSIZE (V2P f) (?fl a) (?s1\<lparr>memory := ?m1\<rparr>) = Ret (0, s2)"
    and "given kend d s ps [a] (\<lambda>_ k. ?m1 (f + k)) (\<lambda>_. ?fl a) [f] qs s2" by (auto simp: ps)
  then have given: "given kend d s ps [a] (\<lambda>a k. memory s (?fr a + k)) ?fl [f] qs s2"
    by (elim given_fill) (simp_all add: memmove_page(2) [OF f U(3)])
  note st = copy_ok_step [OF Cons.prems given]
  from Cons.IH [OF st(1)] obtain fs rs s' where
    loop: "copyuvm_loop kend pd d as s2 = Ret (d, s')"
    and "given kend d s2 qs as (\<lambda>a k. memory s2 (frame_of (memory s2) pd a + k)) (flags_of (memory s2) pd) fs rs s'"
    by blast
  then have g2: "given kend d s2 qs as (\<lambda>a k. memory s (?fr a + k)) ?fl fs rs s'"
    by (elim given_fill) (simp_all add: frame_of_def flags_of_def st(2) st(3) [unfolded frame_of_def])
  have "copyuvm_loop kend pd d (a # as) s = Ret (d, s')"
    using g1(1,2) mp loop pte by (simp add: Let_def)
  then show ?case using given_Cons [OF given g2 U(1) C(4) f] by blast
qed

section \<open>Properties\<close>

text \<open>
  C25. \<open>mappages\<close> implements the update of a partial map from virtual pages to frames: on a
  directory that maps none of the pages of the range, it maps the first \<open>k\<close> of them to
  consecutive frames with the given permissions, keeps every other translation, keeps the
  directory well-formed, takes its page tables from the free list and writes no other memory. It
  reports success exactly when the whole range is mapped, and fails only when no page is free.
\<close>

theorem mappages_refines_map:
  fixes va sz
  defines "n \<equiv> (unat va + unat sz - 1) div 4096 - unat va div 4096 + 1"
  assumes "vm_ok kend pd s ps" and "0 < sz" and "unat va + unat sz \<le> 2 ^ 32"
    and "pa mod PGSIZE = 0" and "perm < PGSIZE"
    and "\<forall>i < n. translate (memory s) pd (PGROUNDDOWN va + of_nat i * PGSIZE) = None"
  shows "\<exists>k r used qs s'. mappages pd va sz pa perm s = Ret (r, s') \<and>
    translate (memory s') pd = map_pages (translate (memory s) pd) (PGROUNDDOWN va) pa (perm OR PTE_P) k \<and>
    (k = n \<and> r = 0 \<or> k < n \<and> r = - 1 \<and> qs = []) \<and>
    ps = used @ qs \<and> vm_ok kend pd s' qs \<and>
    pt_pages (memory s') pd = pt_pages (memory s) pd \<union> set used \<and>
    only_pages (pt_pages (memory s) pd \<union> set used) (memory s) (memory s')"
proof -
  obtain k r used qs s' where "mappages pd va sz pa perm s = Ret (r, s')"
    and "mapped kend pd s ps (PGROUNDDOWN va) pa (perm OR 1) n k r used qs s'"
    using mappages_spec [OF assms(2-4), of pa perm] assms(5-7) unfolding n_def by auto
  then show ?thesis unfolding mapped_def vm_step_def by blast
qed

text \<open>
  C27. Growing a process from \<open>oldsz\<close> to \<open>newsz\<close> bytes, below the kernel's half and with enough
  pages free, succeeds: each new page is mapped writable for the user, to a frame of its own that
  was free and is zero-filled; frames are neither free afterwards nor tables; every other
  translation is as before.
\<close>

theorem allocuvm_gives_zeroed_pages:
  fixes oldsz newsz
  defines "as \<equiv> uvm_pages (PGROUNDUP oldsz) newsz"
  assumes "vm_ok kend pd s ps" and "oldsz \<le> newsz" and "newsz < KERNBASE" and "2 * length as \<le> length ps"
    and "\<forall>a \<in> set as. translate (memory s) pd a = None"
  shows "\<exists>fs qs s'. allocuvm kend pd oldsz newsz s = Ret (newsz, s') \<and>
    given kend pd s ps as (\<lambda>_ _. 0) (\<lambda>_. PTE_W OR PTE_U) fs qs s'"
proof -
  have "newsz \<le> KERNBASE" using assms(4) by simp
  note p = uvm_pages_props [OF PGROUNDUP_aligned this, of oldsz, folded as_def]
  have "\<forall>a \<in> set as. aligned a \<and> translate (memory s) pd a = None" using p(2) assms(6) by blast
  moreover have "allocuvm kend pd oldsz newsz s = allocuvm_loop kend pd oldsz newsz as s"
    using assms(3,4) leD by (auto simp: allocuvm_def as_def)
  ultimately show ?thesis
    using allocuvm_loop_spec [OF assms(2) p(1) assms(5), of oldsz newsz] by simp
qed

text \<open>
  C26. The copy loop of \<open>copyuvm\<close>: the child's directory maps every page of the parent, with the
  parent's flags, to a frame of its own that was free and holds a copy of the parent's page, while
  the parent's translations and the contents of its pages stay as they were. No frame is shared.
\<close>

theorem copyuvm_copies_pages:
  assumes "copy_ok kend pd d ps as s"
  shows "\<exists>fs qs s'. copyuvm_loop kend pd d as s = Ret (d, s') \<and>
    given kend d s ps as (\<lambda>a k. memory s (frame_of (memory s) pd a + k)) (flags_of (memory s) pd) fs qs s' \<and>
    translate (memory s') pd = translate (memory s) pd \<and>
    (\<forall>a \<in> set as. frame_of (memory s) pd a \<notin> set fs \<and>
       (\<forall>k < PGSIZE. memory s' (frame_of (memory s) pd a + k) = memory s (frame_of (memory s) pd a + k)))"
proof -
  obtain fs qs s' where r: "copyuvm_loop kend pd d as s = Ret (d, s')"
    and g: "given kend d s ps as (\<lambda>a k. memory s (frame_of (memory s) pd a + k)) (flags_of (memory s) pd) fs qs s'"
    using copyuvm_loop_spec [OF assms] by blast
  have "translate (memory s') pd = translate (memory s) pd"
    using directory_kept(3) [OF _ givenD(8) [OF g]] assms unfolding copy_ok_def by blast
  moreover have "frame_of (memory s) pd a \<notin> set fs \<and>
      (\<forall>k < PGSIZE. memory s' (frame_of (memory s) pd a + k) = memory s (frame_of (memory s) pd a + k))"
    if "a \<in> set as" for a
  proof -
    have "user_page kend (memory s) pd ps (pt_pages (memory s) d) a" using assms that by (simp add: copy_ok_def)
    note U = user_pageD [OF this]
    show ?thesis
      using U(4) givenD(5) [OF g] only_pagesD [OF givenD(8) [OF g]] PGROUNDDOWN_in [OF page_ok_aligned [OF U(3)]]
      by auto
  qed
  ultimately show ?thesis using r g by blast
qed

section \<open>Witnesses\<close>

text \<open>A memory that is zero but for the threading of a free list.\<close>

primrec chain :: "u32 list \<Rightarrow> mem" where
  "chain [] = (\<lambda>_. 0)"
| "chain (p # ps) = store32 p (case ps of [] \<Rightarrow> 0 | q # _ \<Rightarrow> q) (chain ps)"

definition chain_kmem :: "u32 list \<Rightarrow> kmem" where
  "chain_kmem ps = \<lparr>use_lock = True, freelist = (case ps of [] \<Rightarrow> 0 | q # _ \<Rightarrow> q), memory = chain ps\<rparr>"

lemma chain_memory: "memory (chain_kmem ps) = chain ps"
  by (simp add: chain_kmem_def)

lemma chain_only: "\<forall>p \<in> set ps. page_ok kend p \<Longrightarrow> only_pages (set ps) (\<lambda>_. 0) (chain ps)"
proof (induction ps)
  case (Cons p ps)
  have "only_pages {p} (chain ps) (chain (p # ps))"
    using only_pages_ent [OF page_ok_aligned, of kend p 0] Cons.prems by simp
  from only_pages_trans [OF Cons.IH this, of "set (p # ps)"] Cons.prems show ?case by (simp add: subset_insertI)
qed simp

lemma chain_free:
  "\<forall>p \<in> set ps. page_ok kend p \<Longrightarrow> distinct ps \<Longrightarrow> free_pages kend (chain_kmem ps) ps"
proof (induction ps)
  case (Cons p ps)
  have o: "only_pages {p} (chain ps) (chain (p # ps))"
    using only_pages_ent [OF page_ok_aligned, of kend p 0] Cons.prems by simp
  have "threaded (chain ps) (case ps of [] \<Rightarrow> 0 | q # _ \<Rightarrow> q) ps"
    using Cons by (simp add: free_pages_def chain_kmem_def)
  then show ?case
    using threaded_only [OF o, of ps kend] Cons.prems page_ok_nonzero by (auto simp: free_pages_def chain_kmem_def)
qed (simp add: free_pages_def chain_kmem_def)

lemma zero_dir:
  assumes "page_ok kend pd"
  shows "pd_ok kend (\<lambda>_. 0) pd" "pt_pages (\<lambda>_. 0) pd = {pd}" "translate (\<lambda>_. 0) pd v = None"
proof -
  have e: "ent (\<lambda>_. 0) pd i = 0" for i unfolding ent_def by (rule load32_zero) simp
  show "pd_ok kend (\<lambda>_. 0) pd" "pt_pages (\<lambda>_. 0) pd = {pd}" "translate (\<lambda>_. 0) pd v = None"
    using assms by (simp_all add: pd_ok_def pt_pages_def translate_ent e present_def)
qed

lemma chain_dir:
  assumes ps: "\<forall>p \<in> set ps. page_ok kend p" "distinct ps" and pd: "page_ok kend pd" "pd \<notin> set ps"
  shows "vm_ok kend pd (chain_kmem ps) ps" "pt_pages (chain ps) pd = {pd}" "translate (chain ps) pd v = None"
  using chain_free [OF ps] directory_kept [OF zero_dir(1) [OF pd(1)] chain_only [OF ps(1)]] zero_dir [OF pd(1)] pd(2)
  by (auto simp: vm_ok_def chain_kmem_def)

definition demo_pages :: "u32 list" where
  "demo_pages = page_seq 0x80300000 8"

lemma demo_pages_ok: "\<forall>p \<in> set demo_pages. page_ok 0x80100000 p" "distinct demo_pages" "length demo_pages = 8"
  by (simp_all add: demo_pages_def page_seq_def page_ok_def V2P_def upt_rec)

lemma demo_dirs: "page_ok 0x80100000 0x80200000" "page_ok 0x80100000 0x80201000"
    "0x80200000 \<notin> set demo_pages" "0x80201000 \<notin> set demo_pages"
  by (simp_all add: demo_pages_def page_seq_def page_ok_def V2P_def upt_rec)

lemmas demo_parent = chain_dir [OF demo_pages_ok(1,2) demo_dirs(1,3)]
lemmas demo_child = chain_dir [OF demo_pages_ok(1,2) demo_dirs(2,4)]

theorem mappages_refines_map_witness:
  "\<exists>k r used qs s'. mappages 0x80200000 0xFFFFF123 0xEDD 0x5000 6 (chain_kmem demo_pages) = Ret (r, s') \<and>
    translate (memory s') 0x80200000 = map_pages (translate (chain demo_pages) 0x80200000) 0xFFFFF000 0x5000 7 k \<and>
    (k = 1 \<and> r = 0 \<or> k < 1 \<and> r = - 1 \<and> qs = []) \<and> demo_pages = used @ qs"
  using mappages_refines_map [OF demo_parent(1), of "0xEDD" "0xFFFFF123" "0x5000" 6] demo_parent(3)
  by (simp add: chain_memory PGROUNDDOWN_def) blast

theorem allocuvm_gives_zeroed_pages_witness:
  "\<exists>fs qs s'. allocuvm 0x80100000 0x80200000 5 0x2001 (chain_kmem demo_pages) = Ret (0x2001, s') \<and>
    given 0x80100000 0x80200000 (chain_kmem demo_pages) demo_pages [0x1000, 0x2000] (\<lambda>_ _. 0) (\<lambda>_. 6) fs qs s'"
proof -
  have "uvm_pages (PGROUNDUP 5) 0x2001 = [0x1000, 0x2000]"
    by (simp add: uvm_pages_def PGROUNDUP_def page_seq_def upt_rec)
  then show ?thesis
    using allocuvm_gives_zeroed_pages [OF demo_parent(1), of 5 "0x2001"] demo_parent(3) demo_pages_ok(3)
    by (simp add: chain_kmem_def)
qed

text \<open>A parent with one page, and an empty directory for the child.\<close>

lemma demo_copy:
  "\<exists>qs (s :: kmem). copy_ok 0x80100000 0x80200000 0x80201000 qs [0x1000] s"
proof -
  let ?pd = "0x80200000 :: u32" and ?d = "0x80201000 :: u32" and ?k = "0x80100000 :: u32"
  obtain fs qs s where g: "given ?k ?pd (chain_kmem demo_pages) demo_pages [0x1000] (\<lambda>_ _. 0) (\<lambda>_. 6) fs qs s"
    using allocuvm_loop_spec [OF demo_parent(1), of "[0x1000]" 0 0] demo_parent(3) demo_pages_ok(3)
    by (auto simp: chain_memory)
  note G = givenD [OF g, unfolded chain_memory demo_parent(2)]
  have K: "pd_ok ?k (memory s) ?d" "pt_pages (memory s) ?d = {?d}" "translate (memory s) ?d v = None" for v
    using directory_kept [OF vm_okD(2) [OF demo_child(1), unfolded chain_memory] G(8)] demo_child(2,3) demo_dirs(4)
    by auto
  obtain f where f: "fs = [f]" "translate (memory s) ?pd 0x1000 = Some (V2P f, 7)"
    using G(2) by (auto simp: list_all2_Cons1)
  have u: "user_page ?k (memory s) ?pd qs {?d} 0x1000"
    using f(2) by (rule user_pageI [rotated]) (use f(1) G(5,6) demo_pages_ok(1) demo_dirs(4) in auto)
  have free: "free_pages ?k s qs" and pd: "pd_ok ?k (memory s) ?pd" and sep: "set qs \<inter> pt_pages (memory s) ?pd = {}"
    using vm_okD(1-3) [OF G(1)] by simp_all
  have dn: "?d \<notin> set qs" "?d \<notin> pt_pages (memory s) ?pd" using G(5,7) demo_dirs(4) by auto
  have "vm_ok ?k ?d s qs" using free K dn by (simp add: vm_ok_def)
  then have "copy_ok ?k ?pd ?d qs [0x1000] s"
    using pd u K(2,3) sep dn G(9) demo_pages_ok(3) by (auto simp: copy_ok_def)
  then show ?thesis by blast
qed

theorem copyuvm_copies_pages_witness:
  "\<exists>qs (s :: kmem) fs rs s'. copy_ok 0x80100000 0x80200000 0x80201000 qs [0x1000] s \<and>
     copyuvm_loop 0x80100000 0x80200000 0x80201000 [0x1000] s = Ret (0x80201000, s') \<and>
     given 0x80100000 0x80201000 s qs [0x1000] (\<lambda>a k. memory s (frame_of (memory s) 0x80200000 a + k))
       (flags_of (memory s) 0x80200000) fs rs s'"
  using demo_copy copyuvm_copies_pages by metis

end
