(* ===== verification/Ide.thy ===== *)
theory Ide
  imports Xv6_Prelude
begin

text \<open>
  Sleep locks (\<^verbatim>\<open>sleeplock.c\<close>), disk buffers (\<^verbatim>\<open>buf.h\<close>) and the two disk drivers:
  \<^verbatim>\<open>ide.c\<close>, which queues requests and completes them in the interrupt handler, and
  \<^verbatim>\<open>memide.c\<close>, which keeps the disk image in memory.

  The hardware below \<^verbatim>\<open>ide.c\<close> is the part of an IDE drive the driver uses: the registers
  that select a sector, the command, the data port. A sector write is atomic. \<open>disk_writes\<close>
  records the sectors written, in order; no code reads it.
\<close>

section \<open>Definitions\<close>

subsection \<open>Sleep locks\<close>

record sleeplock =
  locked :: bool
  lk_pid :: int

definition initsleeplock :: sleeplock where
  "initsleeplock = \<lparr>locked = False, lk_pid = 0\<rparr>"

definition acquiresleep :: "int \<Rightarrow> sleeplock \<Rightarrow> sleeplock outcome" where
  "acquiresleep pid lk =
     (if locked lk then Block ''sleep lock'' else Ret (lk\<lparr>locked := True, lk_pid := pid\<rparr>))"

definition releasesleep :: "sleeplock \<Rightarrow> sleeplock" where
  "releasesleep lk = lk\<lparr>locked := False, lk_pid := 0\<rparr>"

definition holdingsleep :: "int \<Rightarrow> sleeplock \<Rightarrow> bool" where
  "holdingsleep pid lk \<longleftrightarrow> locked lk \<and> lk_pid lk = pid"

subsection \<open>Buffers\<close>

datatype bflag = B_VALID | B_DIRTY

record buf =
  flags :: "bflag set"
  dev :: u32
  blockno :: u32
  lock :: sleeplock
  refcnt :: u32
  prev :: nat
  "next" :: nat
  qnext :: "nat option"
  bdata :: bytes

text \<open>
  A pointer to a buffer is its index in \<open>bcache.buf\<close>; the list head \<open>bcache.head\<close> is the
  buffer after the last. \<open>curpid\<close> is \<open>myproc()->pid\<close>.
\<close>

record diskst =
  bufs :: "nat \<Rightarrow> buf"
  idequeue :: "nat option"
  havedisk1 :: bool
  ide_select :: "u32 \<times> u32"
  ide_error :: bool
  platter :: "u32 \<Rightarrow> u32 \<Rightarrow> bytes"
  disk_writes :: "(u32 \<times> u32 \<times> bytes) list"
  curpid :: int

definition upd_buf :: "nat \<Rightarrow> (buf \<Rightarrow> buf) \<Rightarrow> 'a diskst_scheme \<Rightarrow> 'a diskst_scheme" where
  "upd_buf i f s = s\<lparr>bufs := (bufs s)(i := f (bufs s i))\<rparr>"

subsection \<open>ide.c\<close>

text \<open>The drive's side: the sector and the drive that it reads from the registers 0x1f3 to 0x1f6.\<close>

definition lba_of_regs :: "u8 \<Rightarrow> u8 \<Rightarrow> u8 \<Rightarrow> u8 \<Rightarrow> u32" where
  "lba_of_regs r3 r4 r5 r6 = le32 r3 r4 r5 (r6 AND 0x0f)"

definition drive_of_regs :: "u8 \<Rightarrow> u32" where
  "drive_of_regs r6 = ucast (drop_bit 4 r6 AND 1)"

definition idewait :: "bool \<Rightarrow> 'a diskst_scheme \<Rightarrow> int" where
  "idewait checkerr s = (if checkerr \<and> ide_error s then - 1 else 0)"

definition idestart :: "nat option \<Rightarrow> 'a diskst_scheme \<Rightarrow> 'a diskst_scheme outcome" where
  "idestart bp s = (case bp of
      None \<Rightarrow> Panic ''idestart''
    | Some i \<Rightarrow>
        (let b = bufs s i in
         if blockno b \<ge> FSSIZE then Panic ''incorrect blockno''
         else
           (let sector = blockno b;
                r3 = ucast (sector AND 0xff);
                r4 = ucast (drop_bit 8 sector AND 0xff);
                r5 = ucast (drop_bit 16 sector AND 0xff);
                r6 = ucast (0xe0 OR push_bit 4 (dev b AND 1) OR (drop_bit 24 sector AND 0x0f));
                drive = drive_of_regs r6;
                lba = lba_of_regs r3 r4 r5 r6;
                s = s\<lparr>ide_select := (drive, lba)\<rparr>
            in if B_DIRTY \<in> flags b then
                 Ret (s\<lparr>platter := (platter s)(drive := (platter s drive)(lba := bdata b)),
                        disk_writes := disk_writes s @ [(drive, lba, bdata b)]\<rparr>)
               else Ret s)))"

definition ideintr :: "'a diskst_scheme \<Rightarrow> 'a diskst_scheme outcome" where
  "ideintr s = (case idequeue s of
      None \<Rightarrow> Ret s
    | Some i \<Rightarrow>
        (let s = s\<lparr>idequeue := qnext (bufs s i)\<rparr>;
             s = (if B_DIRTY \<notin> flags (bufs s i) \<and> idewait True s \<ge> 0
                  then upd_buf i (\<lambda>b. b\<lparr>bdata := platter s (fst (ide_select s)) (snd (ide_select s))\<rparr>) s
                  else s);
             s = upd_buf i (\<lambda>b. b\<lparr>flags := insert B_VALID (flags b)\<rparr>) s;
             s = upd_buf i (\<lambda>b. b\<lparr>flags := flags b - {B_DIRTY}\<rparr>) s
         in if idequeue s \<noteq> None then idestart (idequeue s) s else Ret s))"

text \<open>Following \<open>qnext\<close> to the last request; fuel bounds the walk.\<close>

fun idequeue_last :: "nat \<Rightarrow> 'a diskst_scheme \<Rightarrow> nat \<Rightarrow> nat outcome" where
  "idequeue_last 0 s i = Hang"
| "idequeue_last (Suc k) s i =
     (case qnext (bufs s i) of None \<Rightarrow> Ret i | Some j \<Rightarrow> idequeue_last k s j)"

definition idequeue_append :: "nat \<Rightarrow> 'a diskst_scheme \<Rightarrow> 'a diskst_scheme outcome" where
  "idequeue_append i s =
     (let s = upd_buf i (\<lambda>b. b\<lparr>qnext := None\<rparr>) s in
      case idequeue s of
        None \<Rightarrow> Ret (s\<lparr>idequeue := Some i\<rparr>)
      | Some h \<Rightarrow>
          and_then (idequeue_last NBUF s h)
            (\<lambda>l. Ret (upd_buf l (\<lambda>b. b\<lparr>qnext := Some i\<rparr>) s)))"

text \<open>
  The wait of \<open>iderw\<close>: each time the caller sleeps, the drive completes the request at the head
  of the queue and interrupts. With more interrupts than buffers the caller would sleep for ever.
\<close>

fun iderw_wait :: "nat \<Rightarrow> nat \<Rightarrow> 'a diskst_scheme \<Rightarrow> 'a diskst_scheme outcome" where
  "iderw_wait 0 i s =
     (if flags (bufs s i) = {B_VALID} then Ret s else Block ''iderw'')"
| "iderw_wait (Suc k) i s =
     (if flags (bufs s i) = {B_VALID} then Ret s
      else and_then (ideintr s) (iderw_wait k i))"

definition iderw :: "nat \<Rightarrow> 'a diskst_scheme \<Rightarrow> 'a diskst_scheme outcome" where
  "iderw i s =
     (if \<not> holdingsleep (curpid s) (lock (bufs s i)) then Panic ''iderw: buf not locked''
      else if flags (bufs s i) = {B_VALID} then Panic ''iderw: nothing to do''
      else if dev (bufs s i) \<noteq> 0 \<and> \<not> havedisk1 s then Panic ''iderw: ide disk 1 not present''
      else
        and_then (idequeue_append i s) (\<lambda>s.
        and_then (if idequeue s = Some i then idestart (Some i) s else Ret s)
          (iderw_wait NBUF i)))"

subsection \<open>memide.c\<close>

text \<open>\<open>disksize\<close> is the size of the linked-in image in blocks.\<close>

definition mem_iderw :: "u32 \<Rightarrow> nat \<Rightarrow> 'a diskst_scheme \<Rightarrow> 'a diskst_scheme outcome" where
  "mem_iderw disksize i s =
     (let b = bufs s i in
      if \<not> holdingsleep (curpid s) (lock b) then Panic ''iderw: buf not locked''
      else if flags b = {B_VALID} then Panic ''iderw: nothing to do''
      else if dev b \<noteq> 1 then Panic ''iderw: request not for disk 1''
      else if blockno b \<ge> disksize then Panic ''iderw: block out of range''
      else if B_DIRTY \<in> flags b then
        Ret ((upd_buf i (\<lambda>b. b\<lparr>flags := insert B_VALID (flags b - {B_DIRTY})\<rparr>) s)
               \<lparr>platter := (platter s)(1 := (platter s 1)(blockno b := bdata b)),
                disk_writes := disk_writes s @ [(1, blockno b, bdata b)]\<rparr>)
      else
        Ret (upd_buf i (\<lambda>b. b\<lparr>bdata := platter s 1 (blockno b),
                             flags := insert B_VALID (flags b)\<rparr>) s))"

section \<open>Sector selection\<close>

text \<open>The registers address the sector and the drive of the buffer.\<close>

lemma small_masks:
  "(0xff :: 'a::len word) = mask 8" "(0x0f :: 'a::len word) = mask 4"
  "(0xe0 :: 'a::len word) = push_bit 5 (mask 3)"
  by (simp_all add: mask_eq_exp_minus_1 push_bit_eq_mult)

lemma bit_sector_high:
  assumes "sector < (0x10000000 :: u32)" and "bit sector n"
  shows "n < 28"
proof -
  have "unat sector < 2 ^ 28"
    using assms(1) by (simp add: word_less_nat_alt)
  then have "take_bit 28 (unat sector) = unat sector"
    by (simp add: take_bit_nat_eq_self)
  then have "take_bit 28 sector = sector"
    by (simp add: word_unat_eq_iff unsigned_take_bit_eq)
  then have "bit (take_bit 28 sector) n" using assms(2) by simp
  then show ?thesis by (simp add: bit_take_bit_iff)
qed

lemma lba_of_sector:
  assumes "sector < 0x10000000"
  shows "lba_of_regs (ucast (sector AND 0xff)) (ucast (drop_bit 8 sector AND 0xff))
           (ucast (drop_bit 16 sector AND 0xff))
           (ucast (0xe0 OR push_bit 4 (d AND 1) OR (drop_bit 24 sector AND 0x0f))) = (sector :: u32)"
  unfolding lba_of_regs_def small_masks
  by (rule bit_word_eqI)
    (auto simp: bit_le32 bit_and_iff bit_or_iff bit_ucast_iff bit_mask_iff bit_push_bit_iff
       bit_drop_bit_eq not_less dest: bit_sector_high [OF assms])

lemma drive_of_dev:
  "drive_of_regs (ucast (0xe0 OR push_bit 4 (d AND 1) OR (drop_bit 24 sector AND 0x0f)))
     = (d AND 1 :: u32)"
  unfolding drive_of_regs_def small_masks
  by (rule bit_word_eqI)
    (auto simp: bit_and_iff bit_or_iff bit_ucast_iff
       bit_mask_iff bit_push_bit_iff bit_drop_bit_eq bit_1_iff not_less)

section \<open>Requests on an idle drive\<close>

lemma valid_only: "insert B_VALID F - {B_DIRTY} = {B_VALID}"
proof -
  have "x = B_VALID \<or> x = B_DIRTY" for x by (cases x) auto
  then show ?thesis by auto
qed

lemma valid_only': "insert B_VALID (F - {B_DIRTY}) = {B_VALID}"
  using valid_only [of F] by auto

lemma upd_buf_simps [simp]:
  "bufs (upd_buf i f s) = (bufs s)(i := f (bufs s i))"
  "idequeue (upd_buf i f s) = idequeue s"
  "havedisk1 (upd_buf i f s) = havedisk1 s"
  "ide_select (upd_buf i f s) = ide_select s"
  "ide_error (upd_buf i f s) = ide_error s"
  "platter (upd_buf i f s) = platter s"
  "disk_writes (upd_buf i f s) = disk_writes s"
  "curpid (upd_buf i f s) = curpid s"
  "diskst.more (upd_buf i f s) = diskst.more s"
  by (simp_all add: upd_buf_def)

lemma iderw_wait_done: "flags (bufs s i) = {B_VALID} \<Longrightarrow> iderw_wait k i s = Ret s"
  by (cases k) simp_all

text \<open>The sector a buffer stands for.\<close>

abbreviation (input) sector_of :: "buf \<Rightarrow> u32 \<times> u32" where
  "sector_of b \<equiv> (dev b AND 1, blockno b)"

lemma idestart_eq:
  assumes "blockno (bufs s i) < FSSIZE"
  shows "idestart (Some i) s =
    (let b = bufs s i; s = s\<lparr>ide_select := sector_of b\<rparr> in
     if B_DIRTY \<in> flags b then
       Ret (s\<lparr>platter := (platter s)(dev b AND 1 := (platter s (dev b AND 1))(blockno b := bdata b)),
              disk_writes := disk_writes s @ [(dev b AND 1, blockno b, bdata b)]\<rparr>)
     else Ret s)"
proof -
  have "blockno (bufs s i) < 0x10000000"
    using assms by (rule less_trans) simp
  then show ?thesis
    using assms
    by (simp only: idestart_def option.case Let_def lba_of_sector drive_of_dev not_le [symmetric] if_False simp_thms)
qed

lemma iderw_idle:
  fixes s :: "'a diskst_scheme"
  assumes "idequeue s = None" and "holdingsleep (curpid s) (lock (bufs s i))"
    and "flags (bufs s i) \<noteq> {B_VALID}" and "dev (bufs s i) = 0 \<or> havedisk1 s"
    and "blockno (bufs s i) < FSSIZE" and "\<not> ide_error s"
  shows "iderw i s = (let b = bufs s i; d = dev b AND 1; n = blockno b in
    if B_DIRTY \<in> flags b then
      Ret ((upd_buf i (\<lambda>b. b\<lparr>qnext := None, flags := {B_VALID}\<rparr>) s)
             \<lparr>ide_select := (d, n),
              platter := (platter s)(d := (platter s d)(n := bdata b)),
              disk_writes := disk_writes s @ [(d, n, bdata b)]\<rparr>)
    else
      Ret ((upd_buf i (\<lambda>b. b\<lparr>qnext := None, bdata := platter s d n, flags := {B_VALID}\<rparr>) s)
             \<lparr>ide_select := (d, n)\<rparr>))"
proof -
  have w: "iderw_wait 30 i t = (if flags (bufs t i) = {B_VALID} then Ret t
      else and_then (ideintr t) (iderw_wait 29 i))" for t :: "'a diskst_scheme"
    using iderw_wait.simps(2) [of 29 i t] by simp
  show ?thesis
    using assms
    by (simp add: iderw_def idequeue_append_def idestart_eq Let_def w ideintr_def idewait_def
        valid_only iderw_wait_done upd_buf_def)
qed

section \<open>Properties\<close>

text \<open>
  C7. The two drivers agree. With no other request pending and no drive error, a request for
  disk 1 has the same effect through \<^verbatim>\<open>ide.c\<close> (registers, queue, interrupt) as through
  \<^verbatim>\<open>memide.c\<close> (a copy): the same sector is read or written, and the buffer ends up
  with the same contents and the flag \<open>B_VALID\<close> alone.
\<close>

theorem ide_agrees_with_memide:
  fixes s :: "'a diskst_scheme"
  assumes "idequeue s = None" and "holdingsleep (curpid s) (lock (bufs s i))"
    and "flags (bufs s i) \<noteq> {B_VALID}" and "dev (bufs s i) = 1" and "havedisk1 s" and "\<not> ide_error s"
    and "blockno (bufs s i) < FSSIZE" and "blockno (bufs s i) < disksize"
    and "B_VALID \<in> flags (bufs s i) \<longrightarrow> B_DIRTY \<in> flags (bufs s i)"
  shows "\<exists>s1 s2. iderw i s = Ret s1 \<and> mem_iderw disksize i s = Ret s2 \<and>
    platter s1 = platter s2 \<and> disk_writes s1 = disk_writes s2 \<and> idequeue s1 = None \<and>
    flags (bufs s1 i) = {B_VALID} \<and> bufs s1 = (bufs s2)(i := (bufs s2 i)\<lparr>qnext := None\<rparr>)"
proof -
  have "insert B_VALID (flags (bufs s i)) = {B_VALID}" if "B_DIRTY \<notin> flags (bufs s i)"
    using valid_only [of "flags (bufs s i)"] that by auto
  then show ?thesis
    using iderw_idle [of s i] assms
    by (auto simp: mem_iderw_def Let_def valid_only' not_le)
qed

definition idle_disk :: "bflag set \<Rightarrow> bytes \<Rightarrow> diskst" where
  "idle_disk F d = \<lparr>bufs = \<lambda>_. \<lparr>flags = F, dev = 1, blockno = 7, lock = \<lparr>locked = True, lk_pid = 1\<rparr>,
       refcnt = 1, prev = 0, next = 0, qnext = None, bdata = d\<rparr>,
     idequeue = None, havedisk1 = True, ide_select = (0, 0), ide_error = False,
     platter = \<lambda>_ _. [], disk_writes = [], curpid = 1\<rparr>"

theorem ide_agrees_with_memide_witness:
  "\<exists>s1 s2. iderw 3 (idle_disk {B_DIRTY} [5]) = Ret s1 \<and> mem_iderw 1000 3 (idle_disk {B_DIRTY} [5]) = Ret s2 \<and>
     platter s1 = platter s2 \<and> disk_writes s1 = disk_writes s2"
  using ide_agrees_with_memide [of "idle_disk {B_DIRTY} [5]" 3 1000]
  by (auto simp: idle_disk_def holdingsleep_def)

end
