(* ===== verification/Bio.thy ===== *)
theory Bio
  imports Ide
begin

text \<open>
  The buffer cache of \<^verbatim>\<open>bio.c\<close>: 30 buffers on a doubly linked list in order of last use.
  The list is modelled as the code has it, by \<open>prev\<close> and \<open>next\<close> pointers through the head
  sentinel, and abstracted to the sequence of buffers (\<open>lru\<close>).
\<close>

section \<open>Definitions\<close>

abbreviation (input) HEAD :: nat where "HEAD \<equiv> NBUF"

text \<open>
  The four assignments that put a buffer in front of the list, shared by \<open>binit\<close> and
  \<open>brelse\<close>.
\<close>

definition push_front :: "nat \<Rightarrow> 'a diskst_scheme \<Rightarrow> 'a diskst_scheme" where
  "push_front i s =
     (let s = upd_buf i (\<lambda>b. b\<lparr>next := next (bufs s HEAD)\<rparr>) s;
          s = upd_buf i (\<lambda>b. b\<lparr>prev := HEAD\<rparr>) s;
          s = upd_buf (next (bufs s HEAD)) (\<lambda>b. b\<lparr>prev := i\<rparr>) s
      in upd_buf HEAD (\<lambda>b. b\<lparr>next := i\<rparr>) s)"

definition unlink_buf :: "nat \<Rightarrow> 'a diskst_scheme \<Rightarrow> 'a diskst_scheme" where
  "unlink_buf i s =
     (let s = upd_buf (next (bufs s i)) (\<lambda>b. b\<lparr>prev := prev (bufs s i)\<rparr>) s
      in upd_buf (prev (bufs s i)) (\<lambda>b. b\<lparr>next := next (bufs s i)\<rparr>) s)"

definition binit :: "'a diskst_scheme \<Rightarrow> 'a diskst_scheme" where
  "binit s =
     (let s = upd_buf HEAD (\<lambda>b. b\<lparr>prev := HEAD, next := HEAD\<rparr>) s
      in fold (\<lambda>i s. push_front i (upd_buf i (\<lambda>b. b\<lparr>lock := initsleeplock\<rparr>) s)) [0..<NBUF] s)"

text \<open>
  Walking the list until the head comes round again: \<open>Ret None\<close> when no buffer satisfies the
  test. Fuel bounds the walk.
\<close>

fun scan_list :: "nat \<Rightarrow> (nat \<Rightarrow> bool) \<Rightarrow> (nat \<Rightarrow> nat) \<Rightarrow> nat \<Rightarrow> nat option outcome" where
  "scan_list 0 P step b = (if b = HEAD then Ret None else Hang)"
| "scan_list (Suc k) P step b =
     (if b = HEAD then Ret None
      else if P b then Ret (Some b)
      else scan_list k P step (step b))"

definition lock_buf :: "nat \<Rightarrow> 'a diskst_scheme \<Rightarrow> (nat \<times> 'a diskst_scheme) outcome" where
  "lock_buf i s =
     and_then (acquiresleep (curpid s) (lock (bufs s i)))
       (\<lambda>lk. Ret (i, upd_buf i (\<lambda>b. b\<lparr>lock := lk\<rparr>) s))"

definition bget :: "u32 \<Rightarrow> u32 \<Rightarrow> 'a diskst_scheme \<Rightarrow> (nat \<times> 'a diskst_scheme) outcome" where
  "bget d n s =
     and_then (scan_list NBUF (\<lambda>i. dev (bufs s i) = d \<and> blockno (bufs s i) = n)
                 (\<lambda>i. next (bufs s i)) (next (bufs s HEAD)))
       (\<lambda>found. case found of
          Some i \<Rightarrow> lock_buf i (upd_buf i (\<lambda>b. b\<lparr>refcnt := refcnt b + 1\<rparr>) s)
        | None \<Rightarrow>
            and_then (scan_list NBUF
                        (\<lambda>i. refcnt (bufs s i) = 0 \<and> B_DIRTY \<notin> flags (bufs s i))
                        (\<lambda>i. prev (bufs s i)) (prev (bufs s HEAD)))
              (\<lambda>found. case found of
                 Some i \<Rightarrow>
                   lock_buf i (upd_buf i (\<lambda>b. b\<lparr>dev := d, blockno := n, flags := {}, refcnt := 1\<rparr>) s)
               | None \<Rightarrow> Panic ''bget: no buffers''))"

definition bread :: "u32 \<Rightarrow> u32 \<Rightarrow> 'a diskst_scheme \<Rightarrow> (nat \<times> 'a diskst_scheme) outcome" where
  "bread d n s =
     and_then (bget d n s) (\<lambda>(i, s).
       if B_VALID \<notin> flags (bufs s i) then and_then (iderw i s) (\<lambda>s. Ret (i, s))
       else Ret (i, s))"

definition bwrite :: "nat \<Rightarrow> 'a diskst_scheme \<Rightarrow> 'a diskst_scheme outcome" where
  "bwrite i s =
     (if \<not> holdingsleep (curpid s) (lock (bufs s i)) then Panic ''bwrite''
      else iderw i (upd_buf i (\<lambda>b. b\<lparr>flags := insert B_DIRTY (flags b)\<rparr>) s))"

definition brelse :: "nat \<Rightarrow> 'a diskst_scheme \<Rightarrow> 'a diskst_scheme outcome" where
  "brelse i s =
     (if \<not> holdingsleep (curpid s) (lock (bufs s i)) then Panic ''brelse''
      else
        (let s = upd_buf i (\<lambda>b. b\<lparr>lock := releasesleep (lock b)\<rparr>) s;
             s = upd_buf i (\<lambda>b. b\<lparr>refcnt := refcnt b - 1\<rparr>) s
         in Ret (if refcnt (bufs s i) = 0 then push_front i (unlink_buf i s) else s)))"

text \<open>Writing the contents of a locked buffer (\<open>memmove\<close> or stores through \<open>bp->data\<close>).\<close>

definition set_data :: "nat \<Rightarrow> bytes \<Rightarrow> 'a diskst_scheme \<Rightarrow> 'a diskst_scheme" where
  "set_data i d s = upd_buf i (\<lambda>b. b\<lparr>bdata := d\<rparr>) s"

text \<open>Keeping a locked buffer in the cache: \<open>b->flags |= B_DIRTY\<close> without a write.\<close>

definition pin_buf :: "nat \<Rightarrow> 'a diskst_scheme \<Rightarrow> 'a diskst_scheme" where
  "pin_buf i s = upd_buf i (\<lambda>b. b\<lparr>flags := insert B_DIRTY (flags b)\<rparr>) s"

abbreviation (input) data_of :: "nat \<Rightarrow> 'a diskst_scheme \<Rightarrow> bytes" where
  "data_of i s \<equiv> bdata (bufs s i)"

section \<open>The linked list\<close>

text \<open>The nodes strictly between two pointers, following one link field.\<close>

primrec chain :: "(nat \<Rightarrow> nat) \<Rightarrow> nat \<Rightarrow> nat list \<Rightarrow> nat \<Rightarrow> bool" where
  "chain f a [] z \<longleftrightarrow> f a = z"
| "chain f a (x # xs) z \<longleftrightarrow> f a = x \<and> chain f x xs z"

abbreviation (input) nexts :: "'a diskst_scheme \<Rightarrow> nat \<Rightarrow> nat" where
  "nexts s \<equiv> \<lambda>i. next (bufs s i)"

abbreviation (input) prevs :: "'a diskst_scheme \<Rightarrow> nat \<Rightarrow> nat" where
  "prevs s \<equiv> \<lambda>i. prev (bufs s i)"

definition linked :: "'a diskst_scheme \<Rightarrow> nat list \<Rightarrow> bool" where
  "linked s xs \<longleftrightarrow> chain (nexts s) HEAD xs HEAD \<and> chain (prevs s) HEAD (rev xs) HEAD \<and>
     distinct xs \<and> HEAD \<notin> set xs"

definition lru :: "'a diskst_scheme \<Rightarrow> nat list \<Rightarrow> bool" where
  "lru s xs \<longleftrightarrow> linked s xs \<and> set xs = {0..<NBUF}"

lemma chain_append: "chain f a (xs @ y # ys) z \<longleftrightarrow> chain f a xs y \<and> chain f y ys z"
  by (induction xs arbitrary: a) auto

lemma chain_cong:
  "(\<And>x. x = a \<or> x \<in> set xs \<Longrightarrow> f x = g x) \<Longrightarrow> chain f a xs z = chain g a xs z"
  by (induction xs arbitrary: a) auto

text \<open>Changing the last link of a chain.\<close>

lemma chain_retarget:
  "chain f a xs z \<Longrightarrow> distinct (a # xs) \<Longrightarrow> chain (f(last (a # xs) := y)) a xs y"
  by (induction xs arbitrary: a) (auto intro: chain_cong [THEN iffD1])

lemma scan_chain:
  assumes "chain f a xs HEAD" and "HEAD \<notin> set xs" and "length xs \<le> k"
  shows "scan_list k P f (f a) = Ret (find P xs)"
  using assms
proof (induction xs arbitrary: a k)
  case Nil
  then show ?case by (cases k) simp_all
next
  case (Cons x xs)
  then obtain k' where "k = Suc k'" by (cases k) auto
  with Cons show ?case by auto
qed

lemma chain_join:
  "chain f a (ys @ zs) z \<longleftrightarrow>
     chain f a ys (hd (zs @ [z])) \<and> (zs \<noteq> [] \<longrightarrow> chain f (hd zs) (tl zs) z)"
  by (cases zs) (auto simp: chain_append)

lemma chain_first: "chain f a xs z \<Longrightarrow> f a = hd (xs @ [z])"
  by (cases xs) auto

lemma nexts_push_front:
  "i \<noteq> HEAD \<Longrightarrow> nexts (push_front i s) = (nexts s)(i := next (bufs s HEAD), HEAD := i)"
  by (auto simp: push_front_def Let_def fun_eq_iff)

lemma prevs_push_front:
  "i \<noteq> HEAD \<Longrightarrow> prevs (push_front i s) = (prevs s)(i := HEAD, next (bufs s HEAD) := i)"
  by (auto simp: push_front_def Let_def fun_eq_iff)

lemma linked_push_front:
  assumes "linked s xs" and i: "i \<noteq> HEAD" "i \<notin> set xs"
  shows "linked (push_front i s) (i # xs)"
proof -
  let ?n = "nexts s" and ?p = "prevs s"
  have fw: "chain ?n HEAD xs HEAD" and bw: "chain ?p HEAD (rev xs) HEAD"
    and d: "distinct xs" "HEAD \<notin> set xs"
    using assms by (simp_all add: linked_def)
  have first: "?n HEAD = hd (xs @ [HEAD])"
    using fw by (rule chain_first)
  have last: "last (HEAD # rev xs) = ?n HEAD"
    by (cases xs) (simp_all add: first)
  have "chain (?n(i := ?n HEAD, HEAD := i)) i xs HEAD"
  proof (cases xs)
    case Nil
    then show ?thesis using first i by simp
  next
    case (Cons y ys)
    then have "chain ?n y ys HEAD" using fw by simp
    then have "chain (?n(i := ?n HEAD, HEAD := i)) y ys HEAD"
      using Cons i d by (subst chain_cong [where g = ?n]) auto
    then show ?thesis using Cons first i by simp
  qed
  moreover have "chain (?p(i := HEAD, ?n HEAD := i)) HEAD (rev xs) i"
  proof -
    have "chain (?p(last (HEAD # rev xs) := i)) HEAD (rev xs) i"
      using bw d by (intro chain_retarget) auto
    then have "chain (?p(?n HEAD := i)) HEAD (rev xs) i" by (simp only: last)
    then show ?thesis
      using i by (subst chain_cong [where g = "?p(?n HEAD := i)"]) auto
  qed
  moreover have "?n HEAD \<noteq> i"
    using first i by (cases xs) auto
  ultimately show ?thesis
    using i d by (simp add: linked_def nexts_push_front prevs_push_front chain_append)
qed

lemma linked_unlink:
  assumes l: "linked s (ys @ i # zs)"
  shows "linked (unlink_buf i s) (ys @ zs)"
proof -
  let ?n = "nexts s" and ?p = "prevs s"
  have fw: "chain ?n HEAD ys i" "chain ?n i zs HEAD"
    and bw: "chain ?p HEAD (rev zs) i" "chain ?p i (rev ys) HEAD"
    and d: "distinct (ys @ i # zs)" "HEAD \<notin> set (ys @ i # zs)"
    using l by (simp_all add: linked_def chain_append)
  have ni: "?n i = hd (zs @ [HEAD])" and pi: "?p i = hd (rev ys @ [HEAD])"
    using chain_first [OF fw(2)] chain_first [OF bw(2)] by simp_all
  have lasts: "last (HEAD # ys) = ?p i" "last (HEAD # rev zs) = ?n i"
    by (simp_all add: pi ni hd_append last_rev hd_rev)
  have "?n i \<noteq> i" using ni d by (cases zs) auto
  have "?p i \<noteq> i" using pi d by (cases ys rule: rev_cases) auto
  have nn: "nexts (unlink_buf i s) = ?n(?p i := ?n i)"
    using \<open>?n i \<noteq> i\<close> by (auto simp: unlink_buf_def Let_def fun_eq_iff)
  have pp: "prevs (unlink_buf i s) = ?p(?n i := ?p i)"
    using \<open>?n i \<noteq> i\<close> by (auto simp: unlink_buf_def Let_def fun_eq_iff)
  have "chain (?n(last (HEAD # ys) := ?n i)) HEAD ys (?n i)"
    using fw(1) d by (intro chain_retarget) auto
  then have "chain (?n(?p i := ?n i)) HEAD ys (?n i)" by (simp only: lasts)
  moreover have "chain (?n(?p i := ?n i)) (hd zs) (tl zs) HEAD" if "zs \<noteq> []"
  proof -
    have "chain ?n (hd zs) (tl zs) HEAD" using fw(2) that by (cases zs) auto
    moreover have "?p i \<notin> set zs" using pi d by (cases ys rule: rev_cases) auto
    ultimately show ?thesis
      using that by (subst chain_cong [where g = ?n]) (cases zs; auto)+
  qed
  moreover have "chain (?p(last (HEAD # rev zs) := ?p i)) HEAD (rev zs) (?p i)"
    using bw(1) d by (intro chain_retarget) auto
  then have "chain (?p(?n i := ?p i)) HEAD (rev zs) (?p i)" by (simp only: lasts)
  moreover have "chain (?p(?n i := ?p i)) (hd (rev ys)) (tl (rev ys)) HEAD" if "ys \<noteq> []"
  proof -
    have "chain ?p (hd (rev ys)) (tl (rev ys)) HEAD" using bw(2) that by (cases "rev ys") auto
    moreover have "?n i \<notin> set ys" using ni d by (cases zs) auto
    then have "?n i \<notin> set (rev ys)" by simp
    ultimately show ?thesis
      using that by (subst chain_cong [where g = ?p]) (cases "rev ys"; auto)+
  qed
  ultimately show ?thesis
    using d by (simp add: linked_def nn pp chain_join ni [symmetric] pi [symmetric])
qed

section \<open>Contract of a block cache\<close>

text \<open>
  What the log and the file system rely on. Abstractly a cache is the contents of each block as
  the kernel sees it, the contents on disk, the sectors written so far, the blocks that must
  not leave the cache, and which block each buffer in use stands for.
\<close>

record 'r acache =
  aview :: "u32 \<Rightarrow> bytes"
  adisk :: "u32 \<Rightarrow> bytes"
  awrites :: "(u32 \<times> u32 \<times> bytes) list"
  adirty :: "u32 set"
  aheld :: "nat \<Rightarrow> u32 option"
  arest :: 'r

locale block_cache =
  fixes bread :: "u32 \<Rightarrow> 's \<Rightarrow> (nat \<times> 's) outcome"
    and bwrite :: "nat \<Rightarrow> 's \<Rightarrow> 's outcome"
    and brelse :: "nat \<Rightarrow> 's \<Rightarrow> 's outcome"
    and get :: "nat \<Rightarrow> 's \<Rightarrow> bytes"
    and put :: "nat \<Rightarrow> bytes \<Rightarrow> 's \<Rightarrow> 's"
    and pin :: "nat \<Rightarrow> 's \<Rightarrow> 's"
    and inv :: "'s \<Rightarrow> bool"
    and abs :: "'s \<Rightarrow> 'r acache"
    and drive :: u32
    and nblocks :: u32
    and cap :: nat
  assumes bread_law:
      "inv s \<Longrightarrow> b < nblocks \<Longrightarrow> b \<notin> ran (aheld (abs s)) \<Longrightarrow>
       b \<in> adirty (abs s) \<or> card (dom (aheld (abs s))) + card (adirty (abs s)) < cap \<Longrightarrow>
       \<exists>i s'. bread b s = Ret (i, s') \<and> inv s' \<and> aheld (abs s) i = None \<and>
         abs s' = (abs s)\<lparr>aheld := (aheld (abs s))(i \<mapsto> b)\<rparr>"
    and get_law: "inv s \<Longrightarrow> aheld (abs s) i = Some b \<Longrightarrow> get i s = aview (abs s) b"
    and put_law:
      "inv s \<Longrightarrow> aheld (abs s) i = Some b \<Longrightarrow> length d = BSIZE \<Longrightarrow>
       inv (put i d s) \<and> abs (put i d s) = (abs s)\<lparr>aview := (aview (abs s))(b := d)\<rparr>"
    and pin_law:
      "inv s \<Longrightarrow> aheld (abs s) i = Some b \<Longrightarrow>
       inv (pin i s) \<and> abs (pin i s) = (abs s)\<lparr>adirty := insert b (adirty (abs s))\<rparr>"
    and bwrite_law:
      "inv s \<Longrightarrow> aheld (abs s) i = Some b \<Longrightarrow>
       \<exists>s'. bwrite i s = Ret s' \<and> inv s' \<and>
         abs s' = (abs s)\<lparr>adisk := (adisk (abs s))(b := aview (abs s) b),
           awrites := awrites (abs s) @ [(drive, b, aview (abs s) b)],
           adirty := adirty (abs s) - {b}\<rparr>"
    and brelse_law:
      "inv s \<Longrightarrow> aheld (abs s) i = Some b \<Longrightarrow>
       b \<in> adirty (abs s) \<or> aview (abs s) b = adisk (abs s) b \<Longrightarrow>
       \<exists>s'. brelse i s = Ret s' \<and> inv s' \<and> abs s' = (abs s)\<lparr>aheld := (aheld (abs s))(i := None)\<rparr>"
    and clean_law:
      "inv s \<Longrightarrow> b \<notin> adirty (abs s) \<Longrightarrow> b \<notin> ran (aheld (abs s)) \<Longrightarrow> aview (abs s) b = adisk (abs s) b"
    and length_law: "inv s \<Longrightarrow> length (aview (abs s) b) = BSIZE"
begin

text \<open>Looking at a block and giving the buffer back changes nothing.\<close>

lemma read_block:
  assumes "inv s" and "b < nblocks" and "b \<notin> ran (aheld (abs s))"
    and "b \<in> adirty (abs s) \<or> card (dom (aheld (abs s))) + card (adirty (abs s)) < cap"
  shows "\<exists>i s1 s2. bread b s = Ret (i, s1) \<and> get i s1 = aview (abs s) b \<and>
    inv s1 \<and> abs s1 = (abs s)\<lparr>aheld := (aheld (abs s))(i \<mapsto> b)\<rparr> \<and>
    brelse i s1 = Ret s2 \<and> inv s2 \<and> abs s2 = abs s"
proof -
  obtain i s1 where 1: "bread b s = Ret (i, s1)" "inv s1" "aheld (abs s) i = None"
      "abs s1 = (abs s)\<lparr>aheld := (aheld (abs s))(i \<mapsto> b)\<rparr>"
    using bread_law [of s b] assms by auto
  have "b \<in> adirty (abs s1) \<or> aview (abs s1) b = adisk (abs s1) b"
    using clean_law [of s b] assms 1 by auto
  then obtain s2 where 2: "brelse i s1 = Ret s2" "inv s2"
      "abs s2 = (abs s1)\<lparr>aheld := (aheld (abs s1))(i := None)\<rparr>"
    using brelse_law [of s1 i b] 1 by auto
  have "(aheld (abs s))(i := None) = aheld (abs s)" using 1(3) by (simp add: fun_upd_idem)
  then have "abs s2 = abs s" using 2(3) 1(4) by simp
  moreover have "get i s1 = aview (abs s) b" using get_law [of s1 i b] 1 by simp
  ultimately show ?thesis using 1 2 by blast
qed

text \<open>Changing a block and writing it through.\<close>

lemma write_block:
  assumes "inv s" and "b < nblocks" and "aheld (abs s) = Map.empty"
    and "b \<in> adirty (abs s) \<or> card (adirty (abs s)) < cap"
  shows "\<exists>i s1. bread b s = Ret (i, s1) \<and> inv s1 \<and> abs s1 = (abs s)\<lparr>aheld := [i \<mapsto> b]\<rparr> \<and>
    get i s1 = aview (abs s) b \<and>
    (\<forall>d. length d = BSIZE \<longrightarrow> (\<exists>s2 s3. bwrite i (put i d s1) = Ret s2 \<and> brelse i s2 = Ret s3 \<and> inv s3 \<and>
      abs s3 = (abs s)\<lparr>aview := (aview (abs s))(b := d), adisk := (adisk (abs s))(b := d),
        awrites := awrites (abs s) @ [(drive, b, d)], adirty := adirty (abs s) - {b}\<rparr>))"
proof -
  obtain i s1 where 1: "bread b s = Ret (i, s1)" "inv s1"
      "abs s1 = (abs s)\<lparr>aheld := [i \<mapsto> b]\<rparr>"
    using bread_law [of s b] assms by auto
  moreover have "get i s1 = aview (abs s) b" using get_law [of s1 i b] 1 by simp
  moreover have "\<exists>s2 s3. bwrite i (put i d s1) = Ret s2 \<and> brelse i s2 = Ret s3 \<and> inv s3 \<and>
      abs s3 = (abs s)\<lparr>aview := (aview (abs s))(b := d), adisk := (adisk (abs s))(b := d),
        awrites := awrites (abs s) @ [(drive, b, d)], adirty := adirty (abs s) - {b}\<rparr>"
    if "length d = BSIZE" for d
  proof -
    have 2: "inv (put i d s1)" "abs (put i d s1) = (abs s1)\<lparr>aview := (aview (abs s1))(b := d)\<rparr>"
      using put_law [of s1 i b d] 1 that by auto
    obtain s2 where 3: "bwrite i (put i d s1) = Ret s2" "inv s2"
        "abs s2 = (abs (put i d s1))\<lparr>adisk := (adisk (abs s))(b := d),
           awrites := awrites (abs s) @ [(drive, b, d)], adirty := adirty (abs s) - {b}\<rparr>"
      using bwrite_law [OF 2(1), of i b] 2 1 by auto
    obtain s3 where 4: "brelse i s2 = Ret s3" "inv s3"
        "abs s3 = (abs s2)\<lparr>aheld := (aheld (abs s2))(i := None)\<rparr>"
      using brelse_law [OF 3(2), of i b] 3 2 1 by auto
    have "abs s3 = (abs s)\<lparr>aview := (aview (abs s))(b := d), adisk := (adisk (abs s))(b := d),
        awrites := awrites (abs s) @ [(drive, b, d)], adirty := adirty (abs s) - {b}\<rparr>"
      using 1 2 3 4 assms(3) by simp
    then show ?thesis using 3(1) 4(1,2) by auto
  qed
  ultimately show ?thesis by blast
qed

text \<open>
  Copying one block over another, writing the copy through and releasing both buffers, the one
  copied from first.
\<close>

lemma finish_copy:
  assumes "inv s" and "aheld (abs s) = [i \<mapsto> a, j \<mapsto> b]" and "i \<noteq> j" and "a \<noteq> b"
    and "a \<in> adirty (abs s) \<or> aview (abs s) a = adisk (abs s) a"
  shows "\<exists>s1 s2 s3. bwrite j (put j (get i s) s) = Ret s1 \<and> brelse i s1 = Ret s2 \<and> brelse j s2 = Ret s3 \<and>
    inv s3 \<and> abs s3 = (abs s)\<lparr>aview := (aview (abs s))(b := aview (abs s) a),
      adisk := (adisk (abs s))(b := aview (abs s) a),
      awrites := awrites (abs s) @ [(drive, b, aview (abs s) a)],
      adirty := adirty (abs s) - {b}, aheld := Map.empty\<rparr>"
proof -
  let ?d = "get i s"
  have d: "?d = aview (abs s) a" "length ?d = BSIZE"
    using get_law [of s i a] length_law [of s a] assms(1-3) by simp_all
  have 3: "inv (put j ?d s)" "abs (put j ?d s) = (abs s)\<lparr>aview := (aview (abs s))(b := ?d)\<rparr>"
    using put_law [OF assms(1), of j b ?d] d assms(2,3) by auto
  obtain s1 where 4: "bwrite j (put j ?d s) = Ret s1" "inv s1"
      "abs s1 = (abs (put j ?d s))\<lparr>adisk := (adisk (abs s))(b := ?d),
         awrites := awrites (abs s) @ [(drive, b, ?d)], adirty := adirty (abs s) - {b}\<rparr>"
    using bwrite_law [OF 3(1), of j b] 3 assms(2,3) by auto
  obtain s2 where 5: "brelse i s1 = Ret s2" "inv s2"
      "abs s2 = (abs s1)\<lparr>aheld := (aheld (abs s1))(i := None)\<rparr>"
    using brelse_law [OF 4(2), of i a] 3 4 assms by auto
  obtain s3 where 6: "brelse j s2 = Ret s3" "inv s3"
      "abs s3 = (abs s2)\<lparr>aheld := (aheld (abs s2))(j := None)\<rparr>"
    using brelse_law [OF 5(2), of j b] 3 4 5 assms by auto
  have "(([i \<mapsto> a, j \<mapsto> b])(i := None))(j := None) = Map.empty" by auto
  then have "abs s3 = (abs s)\<lparr>aview := (aview (abs s))(b := ?d), adisk := (adisk (abs s))(b := ?d),
      awrites := awrites (abs s) @ [(drive, b, ?d)],
      adirty := adirty (abs s) - {b}, aheld := Map.empty\<rparr>"
    using 3 4 5 6 assms(2) by (simp add: fun_upd_twist [OF assms(3)])
  then show ?thesis using 4(1) 5(1) 6(1,2) d(1) by auto
qed

lemma bread_two:
  assumes "inv s" and "a < nblocks" and "b < nblocks" and "a \<noteq> b" and "aheld (abs s) = Map.empty"
    and "a \<in> adirty (abs s) \<or> card (adirty (abs s)) < cap"
    and "b \<in> adirty (abs s) \<or> Suc (card (adirty (abs s))) < cap"
  shows "\<exists>i j s1 s2. bread a s = Ret (i, s1) \<and> bread b s1 = Ret (j, s2) \<and> i \<noteq> j \<and> inv s2 \<and>
    arest (abs s1) = arest (abs s) \<and> abs s2 = (abs s)\<lparr>aheld := [i \<mapsto> a, j \<mapsto> b]\<rparr>"
proof -
  obtain i s1 where 1: "bread a s = Ret (i, s1)" "inv s1"
      "abs s1 = (abs s)\<lparr>aheld := [i \<mapsto> a]\<rparr>"
    using bread_law [of s a] assms by auto
  moreover obtain j s2 where "bread b s1 = Ret (j, s2)" "inv s2" "i \<noteq> j"
      "abs s2 = (abs s)\<lparr>aheld := [i \<mapsto> a, j \<mapsto> b]\<rparr>"
    using bread_law [of s1 b] assms 1 by (auto split: if_splits)
  ultimately show ?thesis by auto
qed

end

section \<open>Invariant and abstraction of the buffer cache\<close>

text \<open>
  The state between calls of one kernel thread: no disk request is pending, a buffer is in use
  (by this thread) exactly when its sleep lock is held, a buffer that is neither in use nor dirty
  agrees with the disk, and no block is cached twice.
\<close>

definition buf_ok :: "'a diskst_scheme \<Rightarrow> buf \<Rightarrow> bool" where
  "buf_ok s b \<longleftrightarrow> length (bdata b) = BSIZE \<and> blockno b < FSSIZE \<and>
     (dev b = 1 \<or> dev b = 0 \<and> flags b = {} \<and> refcnt b = 0) \<and>
     (B_DIRTY \<in> flags b \<longrightarrow> B_VALID \<in> flags b) \<and>
     (refcnt b = 0 \<and> \<not> locked (lock b) \<or>
      refcnt b = 1 \<and> holdingsleep (curpid s) (lock b) \<and> B_VALID \<in> flags b) \<and>
     (refcnt b = 0 \<and> B_VALID \<in> flags b \<and> B_DIRTY \<notin> flags b \<longrightarrow> bdata b = platter s 1 (blockno b))"

definition unique_blocks :: "'a diskst_scheme \<Rightarrow> bool" where
  "unique_blocks s \<longleftrightarrow> (\<forall>i<NBUF. \<forall>j<NBUF. dev (bufs s i) = 1 \<and> dev (bufs s j) = 1 \<and>
     blockno (bufs s i) = blockno (bufs s j) \<longrightarrow> i = j)"

definition quiet :: "'a diskst_scheme \<Rightarrow> bool" where
  "quiet s \<longleftrightarrow> idequeue s = None \<and> havedisk1 s \<and> \<not> ide_error s \<and>
     (\<forall>b. length (platter s 1 b) = BSIZE)"

definition bio_inv :: "'a diskst_scheme \<Rightarrow> bool" where
  "bio_inv s \<longleftrightarrow> (\<exists>xs. lru s xs) \<and> quiet s \<and> unique_blocks s \<and> (\<forall>i<NBUF. buf_ok s (bufs s i))"

definition cached :: "'a diskst_scheme \<Rightarrow> u32 \<Rightarrow> nat \<Rightarrow> bool" where
  "cached s b i \<longleftrightarrow> i < NBUF \<and> dev (bufs s i) = 1 \<and> blockno (bufs s i) = b \<and>
     B_VALID \<in> flags (bufs s i)"

definition bview :: "'a diskst_scheme \<Rightarrow> u32 \<Rightarrow> bytes" where
  "bview s b = (case find (cached s b) [0..<NBUF] of
     Some i \<Rightarrow> bdata (bufs s i) | None \<Rightarrow> platter s 1 b)"

definition bheld :: "'a diskst_scheme \<Rightarrow> nat \<Rightarrow> u32 option" where
  "bheld s i = (if i < NBUF \<and> refcnt (bufs s i) \<noteq> 0 then Some (blockno (bufs s i)) else None)"

definition bdirty :: "'a diskst_scheme \<Rightarrow> u32 set" where
  "bdirty s = (\<lambda>i. blockno (bufs s i)) ` {i. i < NBUF \<and> B_DIRTY \<in> flags (bufs s i)}"

definition bio_abs :: "'a diskst_scheme \<Rightarrow> (int \<times> 'a) acache" where
  "bio_abs s = \<lparr>aview = bview s, adisk = platter s 1, awrites = disk_writes s, adirty = bdirty s,
     aheld = bheld s, arest = (curpid s, diskst.more s)\<rparr>"

text \<open>The part of a buffer that does not say where it is on a list.\<close>

definition core :: "buf \<Rightarrow> bflag set \<times> u32 \<times> u32 \<times> sleeplock \<times> u32 \<times> bytes" where
  "core b = (flags b, dev b, blockno b, lock b, refcnt b, bdata b)"

lemma core_eq_iff:
  "core a = core b \<longleftrightarrow> flags a = flags b \<and> dev a = dev b \<and> blockno a = blockno b \<and>
     lock a = lock b \<and> refcnt a = refcnt b \<and> bdata a = bdata b"
  by (simp add: core_def)

lemma core_push_front: "core (bufs (push_front i s) j) = core (bufs s j)"
  by (simp add: push_front_def Let_def core_def)

lemma core_unlink: "core (bufs (unlink_buf i s) j) = core (bufs s j)"
  by (simp add: unlink_buf_def Let_def core_def)

lemma links_frame [simp]:
  "idequeue (push_front i s) = idequeue s" "idequeue (unlink_buf i s) = idequeue s"
  "havedisk1 (push_front i s) = havedisk1 s" "havedisk1 (unlink_buf i s) = havedisk1 s"
  "ide_error (push_front i s) = ide_error s" "ide_error (unlink_buf i s) = ide_error s"
  "platter (push_front i s) = platter s" "platter (unlink_buf i s) = platter s"
  "disk_writes (push_front i s) = disk_writes s" "disk_writes (unlink_buf i s) = disk_writes s"
  "curpid (push_front i s) = curpid s" "curpid (unlink_buf i s) = curpid s"
  "diskst.more (push_front i s) = diskst.more s" "diskst.more (unlink_buf i s) = diskst.more s"
  by (simp_all add: push_front_def unlink_buf_def Let_def)

lemma lru_touch:
  assumes "lru s xs" and "i < NBUF"
  shows "lru (push_front i (unlink_buf i s)) (i # remove1 i xs)"
proof -
  have i: "i \<in> set xs" "i \<noteq> HEAD" "distinct xs"
    using assms by (auto simp: lru_def linked_def)
  obtain ys zs where xs: "xs = ys @ i # zs" "i \<notin> set ys"
    using i(1) by (meson split_list_first)
  have "linked (unlink_buf i s) (ys @ zs)"
    using assms(1) xs by (intro linked_unlink) (simp add: lru_def)
  then have "linked (push_front i (unlink_buf i s)) (i # ys @ zs)"
    using i xs by (intro linked_push_front) auto
  moreover have "remove1 i xs = ys @ zs" using xs by (simp add: remove1_append)
  moreover have "set (i # ys @ zs) = {0..<NBUF}" using assms(1) xs by (auto simp: lru_def)
  ultimately show ?thesis by (simp add: lru_def)
qed

lemma linked_cong:
  assumes "linked s xs" and "\<And>i. next (bufs s' i) = next (bufs s i)" "\<And>i. prev (bufs s' i) = prev (bufs s i)"
  shows "linked s' xs"
  using assms by (simp add: linked_def)

lemma lru_cong:
  assumes "lru s xs" and "\<And>i. next (bufs s' i) = next (bufs s i)" "\<And>i. prev (bufs s' i) = prev (bufs s i)"
  shows "lru s' xs"
  using assms linked_cong [of s xs s'] by (simp add: lru_def)

lemma uniqueD:
  "unique_blocks s \<Longrightarrow> cached s b i \<Longrightarrow> cached s b j \<Longrightarrow> i = j"
  by (auto simp: unique_blocks_def cached_def)

lemma bview_cached: "unique_blocks s \<Longrightarrow> cached s b i \<Longrightarrow> bview s b = bdata (bufs s i)"
proof -
  assume u: "unique_blocks s" and c: "cached s b i"
  then have "find (cached s b) [0..<NBUF] \<noteq> None"
    by (auto simp: find_None_iff cached_def)
  then obtain j where "find (cached s b) [0..<NBUF] = Some j" by blast
  moreover from this have "cached s b j" by (auto simp: find_Some_iff)
  ultimately show ?thesis using uniqueD [OF u c] by (simp add: bview_def)
qed

lemma bview_uncached: "(\<And>i. \<not> cached s b i) \<Longrightarrow> bview s b = platter s 1 b"
proof -
  assume "\<And>i. \<not> cached s b i"
  then have "find (cached s b) [0..<NBUF] = None" by (simp add: find_None_iff)
  then show ?thesis by (simp add: bview_def)
qed

text \<open>The view after a change to one buffer.\<close>

lemma bview_change:
  assumes u: "unique_blocks s" "unique_blocks s'" and i: "i < NBUF"
    and fr: "\<And>j. j < NBUF \<Longrightarrow> j \<noteq> i \<Longrightarrow> core (bufs s' j) = core (bufs s j)"
    and pl: "\<not> cached s' c i \<Longrightarrow> platter s' 1 c = platter s 1 c"
  shows "bview s' c = (if cached s' c i then bdata (bufs s' i)
    else if cached s c i then platter s 1 c else bview s c)"
proof -
  have same: "cached s' c j = cached s c j" "cached s c j \<Longrightarrow> bdata (bufs s' j) = bdata (bufs s j)"
    if "j \<noteq> i" for j
    using fr [of j] that by (auto simp: cached_def core_eq_iff)
  consider "cached s' c i" | "\<not> cached s' c i" "cached s c i" | j where "j \<noteq> i" "cached s c j" "\<not> cached s' c i"
    | "\<And>j. \<not> cached s c j" "\<not> cached s' c i"
    by metis
  then show ?thesis
  proof cases
    case 2
    have "\<not> cached s' c j" for j
      using 2 same(1) [of j] uniqueD [OF u(1), of c i j] by (cases "j = i") auto
    then show ?thesis using 2 pl by (simp add: bview_uncached)
  next
    case 3
    then have "\<not> cached s c i" using uniqueD [OF u(1), of c i j] by auto
    then show ?thesis
      using 3 same [OF 3(1)] bview_cached [OF u(2), of c j] bview_cached [OF u(1), of c j] by simp
  next
    case 4
    have "\<not> cached s' c j" for j
      using 4 same(1) [of j] by (cases "j = i") auto
    then show ?thesis using 4 pl by (simp add: bview_uncached)
  qed (simp add: bview_cached [OF u(2)])
qed

text \<open>
  What a step that changes one buffer \<open>i\<close> (now standing for block \<open>b\<close>) does to the
  invariant and to the abstraction.
\<close>

definition one_buf :: "nat \<Rightarrow> u32 \<Rightarrow> 'a diskst_scheme \<Rightarrow> 'a diskst_scheme \<Rightarrow> bool" where
  "one_buf i b s s' \<longleftrightarrow> i < NBUF \<and> (\<forall>j<NBUF. j \<noteq> i \<longrightarrow> core (bufs s' j) = core (bufs s j)) \<and>
     dev (bufs s' i) = 1 \<and> blockno (bufs s' i) = b \<and>
     (\<forall>j<NBUF. j \<noteq> i \<longrightarrow> dev (bufs s j) = 1 \<longrightarrow> blockno (bufs s j) \<noteq> b) \<and>
     (\<forall>c. c \<noteq> b \<longrightarrow> platter s' 1 c = platter s 1 c) \<and> curpid s' = curpid s"

lemma bio_inv_change:
  assumes inv: "bio_inv s" and o: "one_buf i b s s'" and "lru s' xs" "quiet s'" and ok: "buf_ok s' (bufs s' i)"
  shows "bio_inv s'"
proof -
  have "buf_ok s' (bufs s' j)" if "j < NBUF" "j \<noteq> i" for j
  proof -
    have "buf_ok s (bufs s j)" using inv that by (simp add: bio_inv_def)
    moreover have "core (bufs s' j) = core (bufs s j)" using o that by (simp add: one_buf_def)
    ultimately show ?thesis
      using o that by (auto simp: buf_ok_def core_eq_iff one_buf_def)
  qed
  then have "\<forall>j<NBUF. buf_ok s' (bufs s' j)" using ok by metis
  moreover have "unique_blocks s'"
    unfolding unique_blocks_def
  proof (intro allI impI)
    fix j k
    assume jk: "j < NBUF" "k < NBUF" and "dev (bufs s' j) = 1 \<and> dev (bufs s' k) = 1 \<and>
      blockno (bufs s' j) = blockno (bufs s' k)"
    then show "j = k"
      using inv o unfolding bio_inv_def unique_blocks_def one_buf_def core_eq_iff
      by (metis (no_types, lifting))
  qed
  ultimately show ?thesis using assms(3,4) by (auto simp: bio_inv_def)
qed

lemma bheld_change:
  "one_buf i b s s' \<Longrightarrow> bheld s' = (bheld s)(i := if refcnt (bufs s' i) = 0 then None else Some b)"
  by (auto simp: bheld_def one_buf_def core_eq_iff fun_eq_iff)

lemma bdirty_iff: "c \<in> bdirty s \<longleftrightarrow> (\<exists>j<NBUF. B_DIRTY \<in> flags (bufs s j) \<and> blockno (bufs s j) = c)"
  by (auto simp: bdirty_def)

lemma bdirty_change:
  assumes inv: "bio_inv s" and o: "one_buf i b s s'"
    and d: "B_DIRTY \<in> flags (bufs s i) \<Longrightarrow> blockno (bufs s i) = b"
  shows "bdirty s' = (if B_DIRTY \<in> flags (bufs s' i) then insert b (bdirty s) else bdirty s - {b})"
proof -
  have dev: "dev (bufs s j) = 1" if "B_DIRTY \<in> flags (bufs s j)" "j < NBUF" for j
    using inv that by (auto simp: bio_inv_def buf_ok_def)
  have fr: "flags (bufs s' j) = flags (bufs s j)" "blockno (bufs s' j) = blockno (bufs s j)"
      if "j < NBUF" "j \<noteq> i" for j
    using o that by (auto simp: one_buf_def core_eq_iff)
  have fr_i: "blockno (bufs s' i) = b" using o by (simp add: one_buf_def)
  have other: "c \<in> bdirty s \<longleftrightarrow> (\<exists>j<NBUF. j \<noteq> i \<and> B_DIRTY \<in> flags (bufs s j) \<and> blockno (bufs s j) = c)"
    if "c \<noteq> b" for c
    using that d by (auto simp: bdirty_def)
  have other': "c \<in> bdirty s' \<longleftrightarrow> (\<exists>j<NBUF. j \<noteq> i \<and> B_DIRTY \<in> flags (bufs s j) \<and> blockno (bufs s j) = c)"
    if "c \<noteq> b" for c
    unfolding bdirty_iff using that fr fr_i by metis
  have b: "b \<in> bdirty s' \<longleftrightarrow> B_DIRTY \<in> flags (bufs s' i)"
  proof
    assume "b \<in> bdirty s'"
    then obtain j where j: "j < NBUF" "B_DIRTY \<in> flags (bufs s' j)" "blockno (bufs s' j) = b"
      by (auto simp: bdirty_iff)
    have "j = i"
    proof (rule ccontr)
      assume "j \<noteq> i"
      then have "dev (bufs s j) = 1" "blockno (bufs s j) = b" using j fr dev by auto
      then show False using o j(1) \<open>j \<noteq> i\<close> by (auto simp: one_buf_def)
    qed
    then show "B_DIRTY \<in> flags (bufs s' i)" using j by simp
  next
    assume "B_DIRTY \<in> flags (bufs s' i)"
    moreover have "i < NBUF" using o by (simp add: one_buf_def)
    ultimately show "b \<in> bdirty s'" using fr_i by (auto simp: bdirty_iff)
  qed
  show ?thesis
  proof (rule set_eqI)
    fix c
    show "c \<in> bdirty s' \<longleftrightarrow>
        c \<in> (if B_DIRTY \<in> flags (bufs s' i) then insert b (bdirty s) else bdirty s - {b})"
      using other [of c] other' [of c] b by (cases "c = b") auto
  qed
qed

text \<open>A step on a valid buffer that already stands for the block.\<close>

lemma bio_abs_change:
  assumes inv: "bio_inv s" and o: "one_buf i b s s'" and c: "cached s b i" and inv': "bio_inv s'"
    and valid: "B_VALID \<in> flags (bufs s' i)"
  shows "bio_abs s' = \<lparr>aview = (bview s)(b := bdata (bufs s' i)), adisk = platter s' 1,
    awrites = disk_writes s',
    adirty = (if B_DIRTY \<in> flags (bufs s' i) then insert b (bdirty s) else bdirty s - {b}),
    aheld = (bheld s)(i := if refcnt (bufs s' i) = 0 then None else Some b),
    arest = (curpid s', diskst.more s')\<rparr>"
proof -
  have "cached s' x i \<longleftrightarrow> x = b" "cached s x i \<longleftrightarrow> x = b" for x
    using c o valid by (auto simp: cached_def one_buf_def)
  then have "bview s' x = ((bview s)(b := bdata (bufs s' i))) x" for x
    using bview_change [of s s' i x] o inv inv' by (auto simp: bio_inv_def one_buf_def)
  moreover have "blockno (bufs s i) = b" using c by (simp add: cached_def)
  ultimately show ?thesis
    using bdirty_change [OF inv o] bheld_change [OF o] by (simp add: bio_abs_def fun_eq_iff)
qed

section \<open>The operations on buffers in use\<close>

lemma held_bufD:
  assumes "bio_inv s" and "bheld s i = Some b"
  shows "i < NBUF" "dev (bufs s i) = 1" "blockno (bufs s i) = b" "refcnt (bufs s i) = 1" "b < FSSIZE"
    "holdingsleep (curpid s) (lock (bufs s i))" "B_VALID \<in> flags (bufs s i)" "cached s b i"
    "length (bdata (bufs s i)) = BSIZE"
    "\<And>j. j < NBUF \<Longrightarrow> j \<noteq> i \<Longrightarrow> dev (bufs s j) = 1 \<Longrightarrow> blockno (bufs s j) \<noteq> b"
proof -
  have i: "i < NBUF" "refcnt (bufs s i) \<noteq> 0" "blockno (bufs s i) = b"
    using assms(2) by (auto simp: bheld_def split: if_splits)
  moreover have "buf_ok s (bufs s i)" using assms(1) i by (simp add: bio_inv_def)
  ultimately show "i < NBUF" "dev (bufs s i) = 1" "blockno (bufs s i) = b" "refcnt (bufs s i) = 1"
    "b < FSSIZE" "holdingsleep (curpid s) (lock (bufs s i))" "B_VALID \<in> flags (bufs s i)"
    "cached s b i" "length (bdata (bufs s i)) = BSIZE"
    by (auto simp: buf_ok_def cached_def)
  then show "\<And>j. j < NBUF \<Longrightarrow> j \<noteq> i \<Longrightarrow> dev (bufs s j) = 1 \<Longrightarrow> blockno (bufs s j) \<noteq> b"
    using assms(1) unfolding bio_inv_def unique_blocks_def by metis
qed

lemma held_one_buf:
  assumes "bio_inv s" and "bheld s i = Some b"
    and "\<And>j. j \<noteq> i \<Longrightarrow> core (bufs s' j) = core (bufs s j)"
    and "dev (bufs s' i) = 1" "blockno (bufs s' i) = b" "curpid s' = curpid s"
    and "\<And>c. c \<noteq> b \<Longrightarrow> platter s' 1 c = platter s 1 c"
  shows "one_buf i b s s'"
  using held_bufD [OF assms(1,2)] assms(3-) by (auto simp: one_buf_def)

lemma bio_inv_lru: "bio_inv s \<Longrightarrow> \<exists>xs. lru s xs"
  by (simp add: bio_inv_def)

lemma bio_inv_quiet: "bio_inv s \<Longrightarrow> quiet s"
  by (simp add: bio_inv_def)

lemma bio_inv_buf_ok: "bio_inv s \<Longrightarrow> i < NBUF \<Longrightarrow> buf_ok s (bufs s i)"
  by (simp add: bio_inv_def)

lemma set_data_spec:
  assumes inv: "bio_inv s" and h: "bheld s i = Some b" and len: "length d = BSIZE"
  shows "bio_inv (set_data i d s) \<and> bio_abs (set_data i d s) = (bio_abs s)\<lparr>aview := (bview s)(b := d)\<rparr>"
proof -
  note hd = held_bufD [OF inv h]
  let ?s = "set_data i d s"
  have o: "one_buf i b s ?s"
    using hd by (intro held_one_buf [OF inv h]) (auto simp: set_data_def)
  obtain xs where "lru s xs" using inv by (auto dest: bio_inv_lru)
  then have l: "lru ?s xs" by (rule lru_cong) (simp_all add: set_data_def)
  have "quiet ?s" using bio_inv_quiet [OF inv] by (simp add: quiet_def set_data_def)
  moreover have "buf_ok ?s (bufs ?s i)"
    using bio_inv_buf_ok [OF inv hd(1)] hd len by (auto simp: buf_ok_def set_data_def)
  ultimately have inv': "bio_inv ?s" using bio_inv_change [OF inv o l] by blast
  have "insert b (bdirty s) = bdirty s" if "B_DIRTY \<in> flags (bufs s i)"
    using that hd by (auto simp: bdirty_iff)
  moreover have "bdirty s - {b} = bdirty s" if "B_DIRTY \<notin> flags (bufs s i)"
    using that hd bdirty_change [OF inv held_one_buf [OF inv h, of s]] by auto
  moreover have "(bheld s)(i \<mapsto> b) = bheld s" using h by auto
  ultimately have "bio_abs ?s = (bio_abs s)\<lparr>aview := (bview s)(b := d)\<rparr>"
    using bio_abs_change [OF inv o hd(8) inv'] hd
    by (simp add: set_data_def bio_abs_def)
  then show ?thesis using inv' by blast
qed

lemma pin_buf_spec:
  assumes inv: "bio_inv s" and h: "bheld s i = Some b"
  shows "bio_inv (pin_buf i s) \<and> bio_abs (pin_buf i s) = (bio_abs s)\<lparr>adirty := insert b (bdirty s)\<rparr>"
proof -
  note hd = held_bufD [OF inv h]
  let ?s = "pin_buf i s"
  have o: "one_buf i b s ?s"
    using hd by (intro held_one_buf [OF inv h]) (auto simp: pin_buf_def)
  obtain xs where "lru s xs" using inv by (auto dest: bio_inv_lru)
  then have l: "lru ?s xs" by (rule lru_cong) (simp_all add: pin_buf_def)
  have "quiet ?s" using bio_inv_quiet [OF inv] by (simp add: quiet_def pin_buf_def)
  moreover have "buf_ok ?s (bufs ?s i)"
    using bio_inv_buf_ok [OF inv hd(1)] hd by (auto simp: buf_ok_def pin_buf_def)
  ultimately have inv': "bio_inv ?s" using bio_inv_change [OF inv o l] by blast
  have "bview s b = bdata (bufs s i)"
    using bview_cached hd(8) inv by (auto simp: bio_inv_def)
  then have "(bview s)(b := bdata (bufs s i)) = bview s" by auto
  moreover have "(bheld s)(i \<mapsto> b) = bheld s" using h by auto
  ultimately have "bio_abs ?s = (bio_abs s)\<lparr>adirty := insert b (bdirty s)\<rparr>"
    using bio_abs_change [OF inv o hd(8) inv'] hd
    by (simp add: pin_buf_def bio_abs_def)
  then show ?thesis using inv' by blast
qed

lemma bwrite_spec:
  assumes inv: "bio_inv s" and h: "bheld s i = Some b"
  shows "\<exists>s'. bwrite i s = Ret s' \<and> bio_inv s' \<and>
    bio_abs s' = (bio_abs s)\<lparr>adisk := (platter s 1)(b := bview s b),
      awrites := disk_writes s @ [(1, b, bview s b)], adirty := bdirty s - {b}\<rparr>"
proof -
  note hd = held_bufD [OF inv h] and q = bio_inv_quiet [OF inv]
  let ?d = "bdata (bufs s i)"
  define s' where "s' = (upd_buf i (\<lambda>b. b\<lparr>qnext := None, flags := {B_VALID}\<rparr>) s)
    \<lparr>ide_select := (1, b), platter := (platter s)(1 := (platter s 1)(b := ?d)),
     disk_writes := disk_writes s @ [(1, b, ?d)]\<rparr>"
  have "iderw i (upd_buf i (\<lambda>b. b\<lparr>flags := insert B_DIRTY (flags b)\<rparr>) s) = Ret s'"
    using hd q by (subst iderw_idle) (auto simp: quiet_def s'_def Let_def upd_buf_def)
  then have w: "bwrite i s = Ret s'" using hd by (simp add: bwrite_def)
  have o: "one_buf i b s s'"
    using hd by (intro held_one_buf [OF inv h]) (auto simp: s'_def)
  obtain xs where "lru s xs" using inv by (auto dest: bio_inv_lru)
  then have l: "lru s' xs" by (rule lru_cong) (simp_all add: s'_def)
  have "quiet s'" using q hd by (simp add: quiet_def s'_def)
  moreover have "buf_ok s' (bufs s' i)"
    using bio_inv_buf_ok [OF inv hd(1)] hd by (auto simp: buf_ok_def s'_def)
  ultimately have inv': "bio_inv s'" using bio_inv_change [OF inv o l] by blast
  have v: "bview s b = ?d"
    using bview_cached hd(8) inv by (auto simp: bio_inv_def)
  then have "(bview s)(b := ?d) = bview s" by auto
  moreover have "(bheld s)(i \<mapsto> b) = bheld s" using h by auto
  ultimately have "bio_abs s' = (bio_abs s)\<lparr>adisk := (platter s 1)(b := ?d),
      awrites := disk_writes s @ [(1, b, ?d)], adirty := bdirty s - {b}\<rparr>"
    using bio_abs_change [OF inv o hd(8) inv'] hd by (simp add: s'_def bio_abs_def)
  then show ?thesis using inv' w v by auto
qed

lemma brelse_spec:
  assumes inv: "bio_inv s" and h: "bheld s i = Some b"
    and clean: "b \<in> bdirty s \<or> bview s b = platter s 1 b"
  shows "\<exists>s'. brelse i s = Ret s' \<and> bio_inv s' \<and>
    bio_abs s' = (bio_abs s)\<lparr>aheld := (bheld s)(i := None)\<rparr>"
proof -
  note hd = held_bufD [OF inv h]
  define s1 where "s1 = upd_buf i (\<lambda>b. b\<lparr>lock := releasesleep (lock b), refcnt := 0\<rparr>) s"
  define s' where "s' = push_front i (unlink_buf i s1)"
  have r: "brelse i s = Ret s'"
    using hd by (simp add: brelse_def s1_def s'_def Let_def upd_buf_def)
  have core: "core (bufs s' j) = core (bufs s1 j)" for j
    by (simp add: s'_def core_push_front core_unlink)
  have "bufs s1 i = (bufs s i)\<lparr>lock := releasesleep (lock (bufs s i)), refcnt := 0\<rparr>"
    by (simp add: s1_def)
  then have i: "flags (bufs s' i) = flags (bufs s i)" "dev (bufs s' i) = 1" "blockno (bufs s' i) = b"
      "lock (bufs s' i) = releasesleep (lock (bufs s i))" "refcnt (bufs s' i) = 0"
      "bdata (bufs s' i) = bdata (bufs s i)"
    using core [of i] hd by (simp_all add: core_eq_iff)
  have o: "one_buf i b s s'"
    using i hd(10) core hd(1) by (auto simp: one_buf_def s1_def s'_def)
  obtain xs where "lru s xs" using inv by (auto dest: bio_inv_lru)
  then have "lru s1 xs" by (rule lru_cong) (simp_all add: s1_def)
  then have l: "lru s' (i # remove1 i xs)" unfolding s'_def using hd(1) by (rule lru_touch)
  have v: "bview s b = bdata (bufs s i)"
    using bview_cached hd(8) inv by (auto simp: bio_inv_def)
  have d: "b \<in> bdirty s \<longleftrightarrow> B_DIRTY \<in> flags (bufs s i)"
    using bdirty_change [OF inv held_one_buf [OF inv h, of s]] hd by (auto split: if_splits)
  have "quiet s'" using bio_inv_quiet [OF inv] by (simp add: quiet_def s'_def s1_def)
  moreover have "buf_ok s' (bufs s' i)"
    using bio_inv_buf_ok [OF inv hd(1)] i clean v d hd
    by (auto simp: buf_ok_def releasesleep_def s'_def s1_def)
  ultimately have inv': "bio_inv s'" using bio_inv_change [OF inv o l] by blast
  have "(bview s)(b := bdata (bufs s i)) = bview s" using v by auto
  moreover have "(if B_DIRTY \<in> flags (bufs s i) then insert b (bdirty s) else bdirty s - {b}) = bdirty s"
    using d by auto
  ultimately have "bio_abs s' = (bio_abs s)\<lparr>aheld := (bheld s)(i := None)\<rparr>"
    using bio_abs_change [OF inv o hd(8) inv'] hd i by (simp add: s'_def s1_def bio_abs_def)
  then show ?thesis using inv' r by auto
qed

section \<open>Getting a buffer\<close>

lemma lru_scan_next:
  assumes "lru s xs"
  shows "scan_list NBUF P (nexts s) (nexts s HEAD) = Ret (find P xs)"
proof -
  have "length xs \<le> NBUF"
    using assms distinct_card [of xs] by (simp add: lru_def linked_def)
  then show ?thesis
    using assms by (intro scan_chain) (simp_all add: lru_def linked_def)
qed

lemma lru_scan_prev:
  assumes "lru s xs"
  shows "scan_list NBUF P (prevs s) (prevs s HEAD) = Ret (find P (rev xs))"
proof -
  have "length xs \<le> NBUF"
    using assms distinct_card [of xs] by (simp add: lru_def linked_def)
  then show ?thesis
    using assms by (intro scan_chain) (simp_all add: lru_def linked_def)
qed

text \<open>As long as fewer buffers are in use or dirty than there are, one can be recycled.\<close>

lemma free_buffer_exists:
  assumes inv: "bio_inv s" and c: "card (dom (bheld s)) + card (bdirty s) < NBUF"
  shows "\<exists>i<NBUF. refcnt (bufs s i) = 0 \<and> B_DIRTY \<notin> flags (bufs s i)"
proof (rule ccontr)
  assume "\<not> ?thesis"
  then have "{0..<NBUF} \<subseteq> dom (bheld s) \<union> {i. i < NBUF \<and> B_DIRTY \<in> flags (bufs s i)}"
    by (auto simp: bheld_def split: if_splits)
  moreover have fin: "finite (dom (bheld s))"
    by (rule finite_subset [of _ "{0..<NBUF}"]) (auto simp: bheld_def split: if_splits)
  ultimately have "NBUF \<le> card (dom (bheld s) \<union> {i. i < NBUF \<and> B_DIRTY \<in> flags (bufs s i)})"
    using card_mono [of "dom (bheld s) \<union> {i. i < NBUF \<and> B_DIRTY \<in> flags (bufs s i)}" "{0..<NBUF}"]
    by simp
  also have "\<dots> \<le> card (dom (bheld s)) + card {i. i < NBUF \<and> B_DIRTY \<in> flags (bufs s i)}"
    by (rule card_Un_le)
  also have "card {i. i < NBUF \<and> B_DIRTY \<in> flags (bufs s i)} = card (bdirty s)"
  proof -
    have "dev (bufs s j) = 1" if "B_DIRTY \<in> flags (bufs s j)" "j < NBUF" for j
      using inv that by (auto simp: bio_inv_def buf_ok_def)
    then have "inj_on (\<lambda>i. blockno (bufs s i)) {i. i < NBUF \<and> B_DIRTY \<in> flags (bufs s i)}"
      using inv by (auto simp: inj_on_def bio_inv_def unique_blocks_def)
    then show ?thesis by (simp add: bdirty_def card_image)
  qed
  finally show False using c by simp
qed

text \<open>
  Taking a free buffer for a block that no other buffer stands for: it is locked, and read from
  disk unless it already has the contents.
\<close>

lemma bread_take:
  assumes inv: "bio_inv s" and b: "b < FSSIZE" and i: "i < NBUF" "refcnt (bufs s i) = 0"
    and others: "\<And>j. j < NBUF \<Longrightarrow> j \<noteq> i \<Longrightarrow> dev (bufs s j) = 1 \<Longrightarrow> blockno (bufs s j) \<noteq> b"
    and get: "bget 1 b s = lock_buf i (upd_buf i f s)"
    and f: "f = (\<lambda>b. b\<lparr>refcnt := refcnt b + 1\<rparr>) \<and> dev (bufs s i) = 1 \<and> blockno (bufs s i) = b \<or>
      f = (\<lambda>x. x\<lparr>dev := 1, blockno := b, flags := {}, refcnt := 1\<rparr>) \<and> B_DIRTY \<notin> flags (bufs s i)
        \<and> (dev (bufs s i) = 1 \<longrightarrow> blockno (bufs s i) \<noteq> b)"
  shows "\<exists>s'. bread 1 b s = Ret (i, s') \<and> bio_inv s' \<and>
    bio_abs s' = (bio_abs s)\<lparr>aheld := (bheld s)(i \<mapsto> b)\<rparr>"
proof -
  note ok = bio_inv_buf_ok [OF inv i(1)] and q = bio_inv_quiet [OF inv]
  let ?F = "f (bufs s i)"
  have F: "dev ?F = 1" "blockno ?F = b" "refcnt ?F = 1" "lock ?F = lock (bufs s i)"
      "bdata ?F = bdata (bufs s i)" "next ?F = next (bufs s i)" "prev ?F = prev (bufs s i)"
    using f i by auto
  have unlocked: "\<not> locked (lock (bufs s i))" using ok i by (auto simp: buf_ok_def)
  define lk where "lk = (lock (bufs s i))\<lparr>locked := True, lk_pid := curpid s\<rparr>"
  define s1 where "s1 = upd_buf i (\<lambda>_. ?F\<lparr>lock := lk\<rparr>) s"
  have g: "bget 1 b s = Ret (i, s1)"
    using get F unlocked by (simp add: lock_buf_def acquiresleep_def s1_def lk_def upd_buf_def)
  define s' where "s' = (if B_VALID \<in> flags ?F then s1
    else (upd_buf i (\<lambda>x. x\<lparr>qnext := None, bdata := platter s 1 b, flags := {B_VALID}\<rparr>) s1)
      \<lparr>ide_select := (1, b)\<rparr>)"
  have dv: "B_DIRTY \<in> flags ?F \<Longrightarrow> B_VALID \<in> flags ?F"
    using f ok by (auto simp: buf_ok_def)
  have r: "bread 1 b s = Ret (i, s')"
  proof (cases "B_VALID \<in> flags ?F")
    case True
    then show ?thesis using g by (simp add: bread_def s'_def s1_def)
  next
    case False
    then have "iderw i s1 = Ret s'"
      using F b q dv by (subst iderw_idle)
        (auto simp: s1_def s'_def lk_def holdingsleep_def quiet_def Let_def)
    then show ?thesis using g False by (simp add: bread_def s1_def)
  qed
  have frame: "bufs s' j = bufs s j" if "j \<noteq> i" for j
    using that by (simp add: s'_def s1_def)
  have o: "one_buf i b s s'"
    using i F frame others by (auto simp: one_buf_def s'_def s1_def)
  obtain xs where "lru s xs" using inv by (auto dest: bio_inv_lru)
  then have l: "lru s' xs" by (rule lru_cong) (simp_all add: s'_def s1_def F)
  have "quiet s'" using q by (simp add: quiet_def s'_def s1_def)
  moreover have "buf_ok s' (bufs s' i)"
    using ok F b q by (auto simp: buf_ok_def s'_def s1_def lk_def holdingsleep_def quiet_def)
  ultimately have inv': "bio_inv s'" using bio_inv_change [OF inv o l] by blast
  have frest: "platter s' = platter s" "disk_writes s' = disk_writes s" "curpid s' = curpid s"
      "diskst.more s' = diskst.more s"
    by (simp_all add: s'_def s1_def)
  have held: "bheld s' = (bheld s)(i \<mapsto> b)"
    using bheld_change [OF o] F by (simp add: s'_def s1_def)
  have dirty_i: "B_DIRTY \<in> flags (bufs s' i) \<longleftrightarrow> B_DIRTY \<in> flags ?F"
    using dv by (auto simp: s'_def s1_def)
  have fd: "blockno (bufs s i) = b" if "B_DIRTY \<in> flags (bufs s i)"
    using f that by blast
  have "B_DIRTY \<in> flags ?F \<longleftrightarrow> b \<in> bdirty s"
  proof -
    have "dev (bufs s j) = 1" if "B_DIRTY \<in> flags (bufs s j)" "j < NBUF" for j
      using bio_inv_buf_ok [OF inv that(2)] that(1) by (auto simp: buf_ok_def)
    then have "b \<in> bdirty s \<longleftrightarrow> B_DIRTY \<in> flags (bufs s i) \<and> blockno (bufs s i) = b"
      unfolding bdirty_iff using others i(1) by metis
    then show ?thesis using f by auto
  qed
  then have dirty: "bdirty s' = bdirty s"
    using bdirty_change [OF inv o fd] dirty_i by (simp add: insert_absorb)
  have u: "unique_blocks s" "unique_blocks s'" using inv inv' by (simp_all add: bio_inv_def)
  have view: "bview s' = bview s"
  proof
    fix c
    have c': "cached s' c i \<longleftrightarrow> c = b"
      using i F by (auto simp: cached_def s'_def s1_def)
    have "bdata (bufs s' i) = bview s b"
    proof (cases "B_VALID \<in> flags ?F")
      case True
      then have "cached s b i" using f i(1) by (auto simp: cached_def)
      then show ?thesis using bview_cached [OF u(1)] True F by (simp add: s'_def s1_def)
    next
      case False
      have "\<not> cached s b j" for j
        using f False others [of j] by (cases "j = i") (auto simp: cached_def)
      then have "bview s b = platter s 1 b" by (rule bview_uncached)
      then show ?thesis using False by (simp add: s'_def s1_def)
    qed
    moreover have "platter s 1 c = bview s c" if "cached s c i" "c \<noteq> b"
    proof -
      have "bview s c = bdata (bufs s i)" using bview_cached [OF u(1) that(1)] .
      then show ?thesis using that f ok i(2) by (auto simp: cached_def buf_ok_def)
    qed
    ultimately show "bview s' c = bview s c"
      using bview_change [OF u i(1), of c] frame frest(1) c' by (auto simp: core_eq_iff)
  qed
  show ?thesis using r inv' frest held dirty view by (simp add: bio_abs_def)
qed

lemma bread_spec:
  assumes inv: "bio_inv s" and b: "b < FSSIZE" and nh: "b \<notin> ran (bheld s)"
    and room: "b \<in> bdirty s \<or> card (dom (bheld s)) + card (bdirty s) < NBUF"
  shows "\<exists>i s'. bread 1 b s = Ret (i, s') \<and> bio_inv s' \<and> bheld s i = None \<and>
    bio_abs s' = (bio_abs s)\<lparr>aheld := (bheld s)(i \<mapsto> b)\<rparr>"
proof -
  obtain xs where l: "lru s xs" using inv by (auto dest: bio_inv_lru)
  then have set: "set xs = {0..<NBUF}" by (simp add: lru_def)
  let ?hit = "\<lambda>i. dev (bufs s i) = 1 \<and> blockno (bufs s i) = b"
  let ?free = "\<lambda>i. refcnt (bufs s i) = 0 \<and> B_DIRTY \<notin> flags (bufs s i)"
  have uniq: "j = i" if "?hit i" "?hit j" "i < NBUF" "j < NBUF" for i j
    using inv that by (simp add: bio_inv_def unique_blocks_def)
  show ?thesis
  proof (cases "find ?hit xs")
    case (Some i)
    then have i: "?hit i" "i < NBUF" using set by (auto simp: find_Some_iff)
    have i0: "refcnt (bufs s i) = 0"
    proof (rule ccontr)
      assume "refcnt (bufs s i) \<noteq> 0"
      then have "bheld s i = Some b" using i by (simp add: bheld_def)
      then show False using nh by (auto simp: ran_def)
    qed
    have g: "bget 1 b s = lock_buf i (upd_buf i (\<lambda>b. b\<lparr>refcnt := refcnt b + 1\<rparr>) s)"
      using lru_scan_next [OF l, of ?hit] Some by (simp add: bget_def)
    have "\<exists>s'. bread 1 b s = Ret (i, s') \<and> bio_inv s' \<and>
        bio_abs s' = (bio_abs s)\<lparr>aheld := (bheld s)(i \<mapsto> b)\<rparr>"
      using bread_take [OF inv b i(2) i0 _ g] uniq [of i] i by blast
    moreover have "bheld s i = None" using i0 by (simp add: bheld_def)
    ultimately show ?thesis by blast
  next
    case None
    then have miss: "\<not> ?hit j" if "j < NBUF" for j using that set by (auto simp: find_None_iff)
    have "b \<notin> bdirty s"
    proof
      assume "b \<in> bdirty s"
      then obtain j where "j < NBUF" "B_DIRTY \<in> flags (bufs s j)" "blockno (bufs s j) = b"
        by (auto simp: bdirty_iff)
      then show False using miss [of j] bio_inv_buf_ok [OF inv, of j] by (auto simp: buf_ok_def)
    qed
    then obtain k where "k < NBUF" "?free k" using free_buffer_exists [OF inv] room by blast
    then have "find ?free (rev xs) \<noteq> None" using set by (auto simp: find_None_iff)
    then obtain i where f: "find ?free (rev xs) = Some i" by blast
    then have i: "?free i" "i < NBUF" using set [symmetric] by (auto simp: find_Some_iff) (metis atLeastLessThan_iff nth_mem set_rev length_rev)
    have g: "bget 1 b s = lock_buf i (upd_buf i (\<lambda>x. x\<lparr>dev := 1, blockno := b, flags := {}, refcnt := 1\<rparr>) s)"
      using lru_scan_next [OF l, of ?hit] lru_scan_prev [OF l, of ?free] None f by (simp add: bget_def)
    have "\<exists>s'. bread 1 b s = Ret (i, s') \<and> bio_inv s' \<and>
        bio_abs s' = (bio_abs s)\<lparr>aheld := (bheld s)(i \<mapsto> b)\<rparr>"
      using bread_take [OF inv b i(2) _ _ g] miss i by blast
    moreover have "bheld s i = None" using i by (simp add: bheld_def)
    ultimately show ?thesis by blast
  qed
qed

section \<open>The buffer cache implements the contract\<close>

lemma bio_clean:
  assumes inv: "bio_inv s" and "b \<notin> bdirty s" and "b \<notin> ran (bheld s)"
  shows "bview s b = platter s 1 b"
proof (cases "\<exists>i. cached s b i")
  case True
  then obtain i where c: "cached s b i" by blast
  have "bheld s i \<noteq> Some b" using assms(3) by (auto simp: ran_def)
  then have "refcnt (bufs s i) = 0" using c by (auto simp: bheld_def cached_def split: if_splits)
  moreover have "B_DIRTY \<notin> flags (bufs s i)"
    using assms(2) c by (auto simp: bdirty_iff cached_def)
  moreover have "bview s b = bdata (bufs s i)"
    using bview_cached c inv by (auto simp: bio_inv_def)
  ultimately show ?thesis
    using bio_inv_buf_ok [OF inv, of i] c by (auto simp: buf_ok_def cached_def)
next
  case False
  then show ?thesis by (intro bview_uncached) auto
qed

lemma bio_length:
  assumes inv: "bio_inv s"
  shows "length (bview s b) = BSIZE"
proof (cases "\<exists>i. cached s b i")
  case True
  then obtain i where c: "cached s b i" by blast
  then have "bview s b = bdata (bufs s i)" using bview_cached inv by (auto simp: bio_inv_def)
  then show ?thesis using bio_inv_buf_ok [OF inv, of i] c by (auto simp: buf_ok_def cached_def)
next
  case False
  then have "bview s b = platter s 1 b" by (intro bview_uncached) auto
  then show ?thesis using bio_inv_quiet [OF inv] by (simp add: quiet_def)
qed

lemma bio_get: "bio_inv s \<Longrightarrow> bheld s i = Some b \<Longrightarrow> data_of i s = bview s b"
  using bview_cached [of s b i] held_bufD(8) [of s i b] by (auto simp: bio_inv_def)

lemma bio_abs_simps [simp]:
  "aview (bio_abs s) = bview s" "adisk (bio_abs s) = platter s 1" "awrites (bio_abs s) = disk_writes s"
  "adirty (bio_abs s) = bdirty s" "aheld (bio_abs s) = bheld s"
  "arest (bio_abs s) = (curpid s, diskst.more s)"
  by (simp_all add: bio_abs_def)

interpretation bc: block_cache "bread 1" bwrite brelse "\<lambda>i s. bdata (bufs s i)" set_data pin_buf
    bio_inv bio_abs 1 FSSIZE NBUF
  by unfold_locales
    (simp_all only: bio_abs_simps bread_spec bio_get set_data_spec pin_buf_spec bwrite_spec
       brelse_spec bio_clean bio_length simp_thms)

section \<open>Initialisation\<close>

lemma lru_binit: "lru (binit s) (rev [0..<NBUF])"
proof -
  let ?step = "\<lambda>i s. push_front i (upd_buf i (\<lambda>b. b\<lparr>lock := initsleeplock\<rparr>) s)"
  have "linked (fold ?step [0..<n] t) (rev [0..<n])"
    if "linked t []" "n \<le> NBUF" for n and t :: "'a diskst_scheme"
    using that(2)
  proof (induction n)
    case 0
    then show ?case using that(1) by simp
  next
    case (Suc n)
    let ?t = "fold ?step [0..<n] t"
    have "linked ?t (rev [0..<n])" using Suc by simp
    then have "linked (upd_buf n (\<lambda>b. b\<lparr>lock := initsleeplock\<rparr>) ?t) (rev [0..<n])"
      by (rule linked_cong) simp_all
    then have "linked (?step n ?t) (n # rev [0..<n])"
      using Suc.prems by (intro linked_push_front) auto
    then show ?case by simp
  qed
  moreover have "linked (upd_buf HEAD (\<lambda>b. b\<lparr>prev := HEAD, next := HEAD\<rparr>) s) []"
    by (simp add: linked_def)
  ultimately show ?thesis
    by (auto simp: lru_def binit_def Let_def simp del: upt_rec_numeral upt_conv_Cons fold_simps)
qed

text \<open>The cache as the loader leaves it: static storage is zero.\<close>

definition zero_buf :: buf where
  "zero_buf = \<lparr>flags = {}, dev = 0, blockno = 0, lock = initsleeplock, refcnt = 0,
     prev = 0, next = 0, qnext = None, bdata = replicate BSIZE 0\<rparr>"

definition fresh_cache :: "'a diskst_scheme \<Rightarrow> bool" where
  "fresh_cache s \<longleftrightarrow> (\<forall>i<NBUF. core (bufs s i) = core zero_buf)"

lemma binit_frame:
  "fresh_cache s \<Longrightarrow> fresh_cache (binit s)"
  "idequeue (binit s) = idequeue s" "havedisk1 (binit s) = havedisk1 s"
  "ide_error (binit s) = ide_error s" "platter (binit s) = platter s"
  "disk_writes (binit s) = disk_writes s" "curpid (binit s) = curpid s"
  "diskst.more (binit s) = diskst.more s"
proof -
  let ?step = "\<lambda>i s. push_front i (upd_buf i (\<lambda>b. b\<lparr>lock := initsleeplock\<rparr>) s)"
  have fr: "(fresh_cache t \<longrightarrow> fresh_cache (fold ?step xs t)) \<and> idequeue (fold ?step xs t) = idequeue t \<and>
      havedisk1 (fold ?step xs t) = havedisk1 t \<and> ide_error (fold ?step xs t) = ide_error t \<and>
      platter (fold ?step xs t) = platter t \<and> disk_writes (fold ?step xs t) = disk_writes t \<and>
      curpid (fold ?step xs t) = curpid t \<and> diskst.more (fold ?step xs t) = diskst.more t"
    for xs and t :: "'a diskst_scheme"
  proof (induction xs arbitrary: t)
    case (Cons x xs)
    have "fresh_cache (?step x t)" if "fresh_cache t"
      using that by (auto simp: fresh_cache_def core_push_front) (simp add: core_def zero_buf_def)
    then show ?case using Cons [of "?step x t"] by simp
  qed simp
  have "fresh_cache (upd_buf HEAD (\<lambda>b. b\<lparr>prev := HEAD, next := HEAD\<rparr>) s)" if "fresh_cache s"
    using that by (simp add: fresh_cache_def)
  then show "fresh_cache s \<Longrightarrow> fresh_cache (binit s)"
    "idequeue (binit s) = idequeue s" "havedisk1 (binit s) = havedisk1 s"
    "ide_error (binit s) = ide_error s" "platter (binit s) = platter s"
    "disk_writes (binit s) = disk_writes s" "curpid (binit s) = curpid s"
    "diskst.more (binit s) = diskst.more s"
    unfolding binit_def Let_def
    using fr [of "upd_buf HEAD (\<lambda>b. b\<lparr>prev := HEAD, next := HEAD\<rparr>) s" "[0..<NBUF]"] by simp_all
qed

lemma fresh_cache_inv:
  assumes f: "fresh_cache s" and "quiet s" and "lru s xs"
  shows "bio_inv s" "bio_abs s = \<lparr>aview = platter s 1, adisk = platter s 1, awrites = disk_writes s,
    adirty = {}, aheld = Map.empty, arest = (curpid s, diskst.more s)\<rparr>"
proof -
  have i: "dev (bufs s i) = 0" "flags (bufs s i) = {}" "refcnt (bufs s i) = 0"
      "lock (bufs s i) = initsleeplock" "length (bdata (bufs s i)) = BSIZE" "blockno (bufs s i) = 0"
    if "i < NBUF" for i
    using f that by (auto simp: fresh_cache_def core_eq_iff zero_buf_def)
  then have "buf_ok s (bufs s i)" if "i < NBUF" for i
    using that by (simp add: buf_ok_def initsleeplock_def)
  moreover have "unique_blocks s" using i by (auto simp: unique_blocks_def)
  ultimately show "bio_inv s" using assms by (auto simp: bio_inv_def)
  have "bview s b = platter s 1 b" for b
    using i by (intro bview_uncached) (auto simp: cached_def)
  moreover have "bdirty s = {}" using i by (auto simp: bdirty_def)
  moreover have "bheld s = Map.empty" using i by (auto simp: bheld_def)
  ultimately show "bio_abs s = \<lparr>aview = platter s 1, adisk = platter s 1, awrites = disk_writes s,
    adirty = {}, aheld = Map.empty, arest = (curpid s, diskst.more s)\<rparr>"
    by (auto simp: bio_abs_def)
qed

lemma binit_inv:
  assumes "fresh_cache s" and "quiet s"
  shows "bio_inv (binit s)" "bio_abs (binit s) = \<lparr>aview = platter s 1, adisk = platter s 1,
    awrites = disk_writes s, adirty = {}, aheld = Map.empty, arest = (curpid s, diskst.more s)\<rparr>"
proof -
  have "quiet (binit s)" using assms(2) by (simp add: quiet_def binit_frame)
  then show "bio_inv (binit s)" "bio_abs (binit s) = \<lparr>aview = platter s 1, adisk = platter s 1,
    awrites = disk_writes s, adirty = {}, aheld = Map.empty, arest = (curpid s, diskst.more s)\<rparr>"
    using fresh_cache_inv [OF binit_frame(1) [OF assms(1)] _ lru_binit] by (simp_all add: binit_frame)
qed

section \<open>Properties\<close>

text \<open>
  C5. \<open>bread\<close> of a block nobody holds, with a buffer to spare, returns a locked buffer with the
  contents of the block, whether it was cached or had to be read and an old buffer recycled. No
  block changes, nothing is written, no dirty block leaves the cache, and each block still has
  at most one buffer (part of the invariant).
\<close>

theorem bread_returns_block:
  fixes s :: "'a diskst_scheme"
  assumes "bio_inv s" and "b < FSSIZE" and "b \<notin> ran (bheld s)"
    and "b \<in> bdirty s \<or> card (dom (bheld s)) + card (bdirty s) < NBUF"
  shows "\<exists>i s'. bread 1 b s = Ret (i, s') \<and> bio_inv s' \<and> holdingsleep (curpid s) (lock (bufs s' i)) \<and>
    bdata (bufs s' i) = bview s b \<and> bview s' = bview s \<and> platter s' 1 = platter s 1 \<and>
    disk_writes s' = disk_writes s \<and> bdirty s' = bdirty s \<and> bheld s' = (bheld s)(i \<mapsto> b) \<and> bheld s i = None"
proof -
  obtain i s' where r: "bread 1 b s = Ret (i, s')" "bio_inv s'" "bheld s i = None"
      "bio_abs s' = (bio_abs s)\<lparr>aheld := (bheld s)(i \<mapsto> b)\<rparr>"
    using bread_spec [OF assms] by blast
  have f: "bview s' = bview s" "platter s' 1 = platter s 1" "disk_writes s' = disk_writes s"
      "bdirty s' = bdirty s" "bheld s' = (bheld s)(i \<mapsto> b)" "curpid s' = curpid s"
    using arg_cong [OF r(4), of aview] arg_cong [OF r(4), of adisk] arg_cong [OF r(4), of awrites]
      arg_cong [OF r(4), of adirty] arg_cong [OF r(4), of aheld] arg_cong [OF r(4), of arest] by simp_all
  have h: "bheld s' i = Some b" using f(5) by simp
  show ?thesis
    using r f held_bufD(6) [OF r(2) h] bio_get [OF r(2) h] by auto
qed

text \<open>
  The cache recycles the least recently used buffer. On a miss \<open>bget\<close> takes the last
  buffer of the list that is neither in use nor dirty, and panics when there is none.
\<close>

lemma bget_recycles_lru:
  fixes s :: "'a diskst_scheme"
  assumes "lru s xs" and "\<forall>i \<in> set xs. \<not> (dev (bufs s i) = d \<and> blockno (bufs s i) = n)"
  shows "bget d n s = (case find (\<lambda>i. refcnt (bufs s i) = 0 \<and> B_DIRTY \<notin> flags (bufs s i)) (rev xs) of
      None \<Rightarrow> Panic ''bget: no buffers''
    | Some i \<Rightarrow> lock_buf i (upd_buf i (\<lambda>b. b\<lparr>dev := d, blockno := n, flags := {}, refcnt := 1\<rparr>) s))"
proof -
  have "find (\<lambda>i. dev (bufs s i) = d \<and> blockno (bufs s i) = n) xs = None"
    using assms(2) by (auto simp: find_None_iff)
  then show ?thesis
    using lru_scan_next [OF assms(1)] lru_scan_prev [OF assms(1)] by (simp add: bget_def)
qed

text \<open>
  Releasing the last reference to a buffer makes it the most recently used: it moves to the
  front of the list, the others keep their order, and its lock is free.
\<close>

lemma brelse_moves_to_front:
  fixes s :: "'a diskst_scheme"
  assumes "lru s xs" and "i < NBUF" and "holdingsleep (curpid s) (lock (bufs s i))"
    and "refcnt (bufs s i) = 1"
  shows "\<exists>s'. brelse i s = Ret s' \<and> lru s' (i # remove1 i xs) \<and> \<not> locked (lock (bufs s' i)) \<and>
    refcnt (bufs s' i) = 0"
proof -
  define s1 where "s1 = upd_buf i (\<lambda>b. b\<lparr>lock := releasesleep (lock b), refcnt := 0\<rparr>) s"
  have "lru s1 xs" using assms(1) by (rule lru_cong) (simp_all add: s1_def)
  then have "lru (push_front i (unlink_buf i s1)) (i # remove1 i xs)"
    using assms(2) by (rule lru_touch)
  moreover have "brelse i s = Ret (push_front i (unlink_buf i s1))"
    using assms(3,4) by (simp add: brelse_def s1_def Let_def upd_buf_def)
  moreover have "core (bufs (push_front i (unlink_buf i s1)) i) = core (bufs s1 i)"
    by (simp add: core_push_front core_unlink)
  ultimately show ?thesis by (auto simp: core_eq_iff s1_def releasesleep_def)
qed

text \<open>
  C6. The cache recycles the least recently used buffer. On a miss \<open>bget\<close> takes the last buffer of
  the list that is neither in use nor dirty, and panics when there is none. Releasing the last
  reference to a buffer makes it the most recently used: it moves to the front of the list, the
  others keep their order, and its lock is free.
\<close>

theorem cache_recycles_lru:
  fixes s :: "'a diskst_scheme"
  assumes "lru s xs"
  shows "((\<forall>i \<in> set xs. \<not> (dev (bufs s i) = d \<and> blockno (bufs s i) = n)) \<longrightarrow>
      bget d n s = (case find (\<lambda>i. refcnt (bufs s i) = 0 \<and> B_DIRTY \<notin> flags (bufs s i)) (rev xs) of
          None \<Rightarrow> Panic ''bget: no buffers''
        | Some i \<Rightarrow> lock_buf i (upd_buf i (\<lambda>b. b\<lparr>dev := d, blockno := n, flags := {}, refcnt := 1\<rparr>) s))) \<and>
    (i < NBUF \<and> holdingsleep (curpid s) (lock (bufs s i)) \<and> refcnt (bufs s i) = 1 \<longrightarrow>
      (\<exists>s'. brelse i s = Ret s' \<and> lru s' (i # remove1 i xs) \<and> \<not> locked (lock (bufs s' i)) \<and> refcnt (bufs s' i) = 0))"
  using bget_recycles_lru [OF assms, of d n] brelse_moves_to_front [OF assms, of i] by blast

definition sample_disk :: diskst where
  "sample_disk = binit \<lparr>bufs = \<lambda>_. zero_buf, idequeue = None, havedisk1 = True, ide_select = (0, 0),
     ide_error = False, platter = \<lambda>_ _. replicate BSIZE 9, disk_writes = [], curpid = 1\<rparr>"

lemma sample_disk_inv:
  "bio_inv sample_disk" "bview sample_disk b = replicate BSIZE 9" "bdirty sample_disk = {}"
  "bheld sample_disk = Map.empty" "lru sample_disk (rev [0..<NBUF])" "curpid sample_disk = 1"
proof -
  let ?s = "\<lparr>bufs = \<lambda>_. zero_buf, idequeue = None, havedisk1 = True, ide_select = (0, 0),
     ide_error = False, platter = \<lambda>_ _. replicate BSIZE 9, disk_writes = [], curpid = 1\<rparr> :: diskst"
  have f: "fresh_cache ?s" "quiet ?s" by (simp_all add: fresh_cache_def quiet_def)
  have a: "bio_abs sample_disk = \<lparr>aview = platter ?s 1, adisk = platter ?s 1, awrites = disk_writes ?s,
      adirty = {}, aheld = Map.empty, arest = (curpid ?s, diskst.more ?s)\<rparr>"
    using binit_inv(2) [OF f] by (simp add: sample_disk_def)
  show "bio_inv sample_disk" using binit_inv(1) [OF f] by (simp add: sample_disk_def)
  show "bview sample_disk b = replicate BSIZE 9" "bdirty sample_disk = {}" "bheld sample_disk = Map.empty"
      "curpid sample_disk = 1"
    using arg_cong [OF a, of aview] arg_cong [OF a, of adirty] arg_cong [OF a, of aheld]
      arg_cong [OF a, of arest] by simp_all
  show "lru sample_disk (rev [0..<NBUF])" unfolding sample_disk_def by (rule lru_binit)
qed

theorem bread_returns_block_witness:
  "\<exists>i s'. bread 1 77 sample_disk = Ret (i, s') \<and> bdata (bufs s' i) = replicate BSIZE 9"
  using bread_returns_block [of sample_disk 77] sample_disk_inv by auto

lemma sample_disk_bufs:
  assumes "i < NBUF"
  shows "dev (bufs sample_disk i) = 0" "flags (bufs sample_disk i) = {}" "refcnt (bufs sample_disk i) = 0"
proof -
  have "fresh_cache sample_disk"
    unfolding sample_disk_def by (rule binit_frame(1)) (simp add: fresh_cache_def)
  then show "dev (bufs sample_disk i) = 0" "flags (bufs sample_disk i) = {}" "refcnt (bufs sample_disk i) = 0"
    using assms by (auto simp: fresh_cache_def core_eq_iff zero_buf_def)
qed

lemma sample_disk_miss:
  "\<forall>i \<in> set (rev [0..<NBUF]). \<not> (dev (bufs sample_disk i) = 1 \<and> blockno (bufs sample_disk i) = 77)"
  "find (\<lambda>i. refcnt (bufs sample_disk i) = 0 \<and> B_DIRTY \<notin> flags (bufs sample_disk i)) (rev (rev [0..<NBUF])) = Some 0"
proof -
  show "\<forall>i \<in> set (rev [0..<NBUF]). \<not> (dev (bufs sample_disk i) = 1 \<and> blockno (bufs sample_disk i) = 77)"
    using sample_disk_bufs by simp
  show "find (\<lambda>i. refcnt (bufs sample_disk i) = 0 \<and> B_DIRTY \<notin> flags (bufs sample_disk i)) (rev (rev [0..<NBUF])) = Some 0"
    using sample_disk_bufs by (subst upt_conv_Cons) simp_all
qed

theorem cache_recycles_lru_witness:
  "bget 1 77 sample_disk = lock_buf 0 (upd_buf 0 (\<lambda>b. b\<lparr>dev := 1, blockno := 77, flags := {}, refcnt := 1\<rparr>) sample_disk) \<and>
   (\<exists>s'. brelse 5 (upd_buf 5 (\<lambda>b. b\<lparr>refcnt := 1, lock := \<lparr>locked = True, lk_pid = 1\<rparr>\<rparr>) sample_disk) = Ret s' \<and>
     lru s' (5 # remove1 5 (rev [0..<NBUF])))"
proof
  show "bget 1 77 sample_disk = lock_buf 0 (upd_buf 0 (\<lambda>b. b\<lparr>dev := 1, blockno := 77, flags := {}, refcnt := 1\<rparr>) sample_disk)"
    using cache_recycles_lru [OF sample_disk_inv(5), of 1 77 0] sample_disk_miss by simp
  let ?s = "upd_buf 5 (\<lambda>b. b\<lparr>refcnt := 1, lock := \<lparr>locked = True, lk_pid = 1\<rparr>\<rparr>) sample_disk"
  have "lru ?s (rev [0..<NBUF])" using sample_disk_inv(5) by (rule lru_cong) simp_all
  then show "\<exists>s'. brelse 5 ?s = Ret s' \<and> lru s' (5 # remove1 5 (rev [0..<NBUF]))"
    using cache_recycles_lru [of ?s "rev [0..<NBUF]" 1 77 5] sample_disk_inv(6)
    by (auto simp: holdingsleep_def simp del: upt_rec_numeral)
qed

end
