(* ===== verification/Log.thy ===== *)
theory Log
  imports Bio
begin

text \<open>
  The write-ahead log of \<^verbatim>\<open>log.c\<close>, with \<open>readsb\<close> of \<^verbatim>\<open>fs.c\<close>, which
  \<open>initlog\<close> calls. The state extends the disk state by \<open>struct log\<close>. The main result is
  crash safety: whatever prefix of the sector writes of a commit reaches the disk, recovery leaves
  either all or none of the transaction in the home locations.
\<close>

section \<open>Definitions\<close>

record superblock =
  sb_size :: u32
  sb_nblocks :: u32
  sb_ninodes :: u32
  sb_nlog :: u32
  sb_logstart :: u32
  sb_inodestart :: u32
  sb_bmapstart :: u32

record logst = diskst +
  lstart :: u32
  lsize :: int
  outstanding :: int
  committing :: bool
  ldev :: u32
  lh_n :: int
  lh_block :: "nat \<Rightarrow> u32"

definition sb_of_bytes :: "bytes \<Rightarrow> superblock" where
  "sb_of_bytes d = \<lparr>sb_size = get32 d 0, sb_nblocks = get32 d 4, sb_ninodes = get32 d 8,
     sb_nlog = get32 d 12, sb_logstart = get32 d 16, sb_inodestart = get32 d 20,
     sb_bmapstart = get32 d 24\<rparr>"

definition readsb :: "u32 \<Rightarrow> 'a diskst_scheme \<Rightarrow> (superblock \<times> 'a diskst_scheme) outcome" where
  "readsb d s =
     and_then (bread d 1 s) (\<lambda>(i, s).
     let sb = sb_of_bytes (data_of i s) in
     and_then (brelse i s) (\<lambda>s. Ret (sb, s)))"

text \<open>
  The loops over the logged blocks run to \<open>log.lh.n\<close>, which their bodies do not assign; past
  the end of \<open>block[LOGSIZE]\<close> they leave the array.
\<close>

definition install_step :: "nat \<Rightarrow> 'a logst_scheme \<Rightarrow> 'a logst_scheme outcome" where
  "install_step tail s =
     (if tail \<ge> LOGSIZE then Fault ''log.lh.block''
      else
        and_then (bread (ldev s) (lstart s + of_nat tail + 1) s) (\<lambda>(lbuf, s).
        and_then (bread (ldev s) (lh_block s tail) s) (\<lambda>(dbuf, s).
        and_then (bwrite dbuf (set_data dbuf (data_of lbuf s) s)) (\<lambda>s.
        and_then (brelse lbuf s) (brelse dbuf)))))"

definition install_trans :: "'a logst_scheme \<Rightarrow> 'a logst_scheme outcome" where
  "install_trans s = foldo install_step [0..<nat (lh_n s)] s"

definition read_head_step :: "bytes \<Rightarrow> nat \<Rightarrow> 'a logst_scheme \<Rightarrow> 'a logst_scheme outcome" where
  "read_head_step lh i s =
     (if i \<ge> LOGSIZE then Fault ''log.lh.block''
      else Ret (s\<lparr>lh_block := (lh_block s)(i := get32 lh (4 + 4 * i))\<rparr>))"

definition read_head :: "'a logst_scheme \<Rightarrow> 'a logst_scheme outcome" where
  "read_head s =
     and_then (bread (ldev s) (lstart s) s) (\<lambda>(i, s).
     let lh = data_of i s;
         s = s\<lparr>lh_n := sint (get32 lh 0)\<rparr>
     in and_then (foldo (read_head_step lh) [0..<nat (lh_n s)] s) (brelse i))"

text \<open>The header block with \<open>n\<close> and the first \<open>n\<close> block numbers stored.\<close>

definition head_bytes :: "int \<Rightarrow> (nat \<Rightarrow> u32) \<Rightarrow> bytes \<Rightarrow> bytes" where
  "head_bytes n blk d = fold (\<lambda>i. put32 (4 + 4 * i) (blk i)) [0..<nat n] (put32 0 (of_int n) d)"

definition write_head :: "'a logst_scheme \<Rightarrow> 'a logst_scheme outcome" where
  "write_head s =
     and_then (bread (ldev s) (lstart s) s) (\<lambda>(i, s).
     if lh_n s > int LOGSIZE then Fault ''hb->block''
     else and_then (bwrite i (set_data i (head_bytes (lh_n s) (lh_block s) (data_of i s)) s)) (brelse i))"

definition recover_from_log :: "'a logst_scheme \<Rightarrow> 'a logst_scheme outcome" where
  "recover_from_log s =
     and_then (read_head s) (\<lambda>s.
     and_then (install_trans s) (\<lambda>s.
     write_head (s\<lparr>lh_n := 0\<rparr>)))"

definition initlog :: "u32 \<Rightarrow> 'a logst_scheme \<Rightarrow> 'a logst_scheme outcome" where
  "initlog d s =
     and_then (readsb d s) (\<lambda>(sb, s).
     recover_from_log (s\<lparr>lstart := sb_logstart sb, lsize := sint (sb_nlog sb), ldev := d\<rparr>))"

text \<open>\<open>Block\<close> when the caller would sleep until another operation ends.\<close>

definition begin_op :: "'a logst_scheme \<Rightarrow> 'a logst_scheme outcome" where
  "begin_op s =
     (if committing s then Block ''log''
      else if lh_n s + (outstanding s + 1) * int MAXOPBLOCKS > int LOGSIZE then Block ''log''
      else Ret (s\<lparr>outstanding := outstanding s + 1\<rparr>))"

definition write_log_step :: "nat \<Rightarrow> 'a logst_scheme \<Rightarrow> 'a logst_scheme outcome" where
  "write_log_step tail s =
     (if tail \<ge> LOGSIZE then Fault ''log.lh.block''
      else
        and_then (bread (ldev s) (lstart s + of_nat tail + 1) s) (\<lambda>(to, s).
        and_then (bread (ldev s) (lh_block s tail) s) (\<lambda>(from, s).
        and_then (bwrite to (set_data to (data_of from s) s)) (\<lambda>s.
        and_then (brelse from s) (brelse to)))))"

definition write_log :: "'a logst_scheme \<Rightarrow> 'a logst_scheme outcome" where
  "write_log s = foldo write_log_step [0..<nat (lh_n s)] s"

definition commit :: "'a logst_scheme \<Rightarrow> 'a logst_scheme outcome" where
  "commit s =
     (if lh_n s > 0 then
        and_then (write_log s) (\<lambda>s.
        and_then (write_head s) (\<lambda>s.
        and_then (install_trans s) (\<lambda>s.
        write_head (s\<lparr>lh_n := 0\<rparr>))))
      else Ret s)"

definition end_op :: "'a logst_scheme \<Rightarrow> 'a logst_scheme outcome" where
  "end_op s =
     (let s = s\<lparr>outstanding := outstanding s - 1\<rparr> in
      if committing s then Panic ''log.committing''
      else if outstanding s = 0 then
        and_then (commit (s\<lparr>committing := True\<rparr>)) (\<lambda>s. Ret (s\<lparr>committing := False\<rparr>))
      else Ret s)"

text \<open>The first position of the block in the log, or \<open>n\<close>.\<close>

fun log_scan :: "(nat \<Rightarrow> u32) \<Rightarrow> u32 \<Rightarrow> nat \<Rightarrow> nat \<Rightarrow> nat" where
  "log_scan blk b 0 i = i"
| "log_scan blk b (Suc k) i = (if blk i = b then i else log_scan blk b k (Suc i))"

definition log_write :: "nat \<Rightarrow> 'a logst_scheme \<Rightarrow> 'a logst_scheme outcome" where
  "log_write b s =
     (if lh_n s \<ge> int LOGSIZE \<or> lh_n s \<ge> lsize s - 1 then Panic ''too big a transaction''
      else if outstanding s < 1 then Panic ''log_write outside of trans''
      else
        (let i = log_scan (lh_block s) (blockno (bufs s b)) (nat (lh_n s)) 0;
             s = s\<lparr>lh_block := (lh_block s)(i := blockno (bufs s b))\<rparr>;
             s = (if int i = lh_n s then s\<lparr>lh_n := lh_n s + 1\<rparr> else s)
         in Ret (pin_buf b s)))"

section \<open>The log record over the disk state\<close>

text \<open>Disk operations leave the log record alone; log operations leave the cache alone.\<close>

lemma logst_of_more:
  fixes s s' :: "'a logst_scheme"
  assumes "diskst.more s' = diskst.more s"
  shows "lstart s' = lstart s" "lsize s' = lsize s" "outstanding s' = outstanding s"
    "committing s' = committing s" "ldev s' = ldev s" "lh_n s' = lh_n s" "lh_block s' = lh_block s"
    "logst.more s' = logst.more s"
  using assms by (cases s; cases s'; simp)+

lemma bview_cong:
  assumes "bufs s' = bufs s" and "platter s' = platter s"
  shows "bview s' = bview s"
  unfolding fun_eq_iff bview_def cached_def [abs_def] assms by simp

lemma bio_inv_cong:
  fixes s :: "'a diskst_scheme" and s' :: "'b diskst_scheme"
  assumes "bufs s' = bufs s" "platter s' = platter s" "curpid s' = curpid s" "idequeue s' = idequeue s"
    "havedisk1 s' = havedisk1 s" "ide_error s' = ide_error s"
  shows "bio_inv s' = bio_inv s"
  using assms by (simp add: bio_inv_def lru_def linked_def quiet_def unique_blocks_def buf_ok_def)

lemma bdirty_cong: "bufs s' = bufs s \<Longrightarrow> bdirty s' = bdirty s"
  by (simp add: bdirty_def)

lemma bheld_cong: "bufs s' = bufs s \<Longrightarrow> bheld s' = bheld s"
  by (simp add: bheld_def fun_eq_iff)

lemma log_fields_cache [simp]:
  "bio_inv (s\<lparr>lh_n := n\<rparr>) = bio_inv s" "bio_inv (s\<lparr>lh_block := blk\<rparr>) = bio_inv s"
  "bio_inv (s\<lparr>outstanding := k\<rparr>) = bio_inv s" "bio_inv (s\<lparr>committing := c\<rparr>) = bio_inv s"
  "bview (s\<lparr>lh_n := n\<rparr>) = bview s" "bview (s\<lparr>lh_block := blk\<rparr>) = bview s"
  "bview (s\<lparr>outstanding := k\<rparr>) = bview s" "bview (s\<lparr>committing := c\<rparr>) = bview s"
  "bdirty (s\<lparr>lh_n := n\<rparr>) = bdirty s" "bdirty (s\<lparr>lh_block := blk\<rparr>) = bdirty s"
  "bdirty (s\<lparr>outstanding := k\<rparr>) = bdirty s" "bdirty (s\<lparr>committing := c\<rparr>) = bdirty s"
  "bheld (s\<lparr>lh_n := n\<rparr>) = bheld s" "bheld (s\<lparr>lh_block := blk\<rparr>) = bheld s"
  "bheld (s\<lparr>outstanding := k\<rparr>) = bheld s" "bheld (s\<lparr>committing := c\<rparr>) = bheld s"
  by (rule bio_inv_cong bview_cong bdirty_cong bheld_cong; simp)+

section \<open>Disks with a log, as functions\<close>

type_synonym disk = "u32 \<Rightarrow> bytes"

text \<open>The log block for position \<open>i\<close>, and the blocks that belong to the log.\<close>

definition laddr :: "u32 \<Rightarrow> nat \<Rightarrow> u32" where
  "laddr start i = start + of_nat i + 1"

definition log_area :: "u32 \<Rightarrow> int \<Rightarrow> u32 set" where
  "log_area start sz = {b. unat start \<le> unat b \<and> unat b < unat start + nat sz}"

definition log_geom :: "u32 \<Rightarrow> int \<Rightarrow> bool" where
  "log_geom start sz \<longleftrightarrow> 2 \<le> unat start \<and> 2 \<le> sz \<and> sz \<le> int LOGSIZE \<and> unat start + nat sz \<le> 1000"

lemma unat_laddr:
  assumes "log_geom start sz" and "int i < sz - 1"
  shows "unat (laddr start i) = unat start + i + 1"
proof -
  have i: "unat (of_nat (Suc i) :: u32) = Suc i"
    using assms by (intro unat_of_nat_u32) (simp add: log_geom_def)
  have "unat start + Suc i < 2 ^ 32"
    using assms by (simp add: log_geom_def)
  then have "unat (start + of_nat (Suc i)) = unat start + Suc i"
    using unat_add_u32 [of start "of_nat (Suc i)"] i by simp
  then show ?thesis by (simp add: laddr_def add.commute add.left_commute)
qed

lemma laddr_area:
  assumes "log_geom start sz" and "int i < sz - 1"
  shows "laddr start i \<in> log_area start sz" "laddr start i \<noteq> start" "laddr start i < FSSIZE"
  using unat_laddr [OF assms] assms by (auto simp: log_area_def log_geom_def word_less_nat_alt)

lemma laddr_inj:
  assumes "log_geom start sz" and "int i < sz - 1" and "int j < sz - 1"
  shows "laddr start i = laddr start j \<longleftrightarrow> i = j"
  using unat_laddr [OF assms(1,2)] unat_laddr [OF assms(1,3)] by (metis add_left_cancel add_right_cancel)

lemma start_area:
  assumes "log_geom start sz"
  shows "start \<in> log_area start sz" "start < FSSIZE"
  using assms by (auto simp: log_area_def log_geom_def word_less_nat_alt)

text \<open>Copying the logged contents home, and writing the contents of the blocks to the log.\<close>

definition replay :: "u32 \<Rightarrow> nat \<Rightarrow> (nat \<Rightarrow> u32) \<Rightarrow> disk \<Rightarrow> disk" where
  "replay start n blk d = fold (\<lambda>i d. d(blk i := d (laddr start i))) [0..<n] d"

definition logged :: "u32 \<Rightarrow> nat \<Rightarrow> (nat \<Rightarrow> u32) \<Rightarrow> disk \<Rightarrow> disk \<Rightarrow> disk" where
  "logged start n blk v d = fold (\<lambda>i d. d(laddr start i := v (blk i))) [0..<n] d"

definition head_n :: "u32 \<Rightarrow> disk \<Rightarrow> int" where
  "head_n start d = sint (get32 (d start) 0)"

definition head_block :: "u32 \<Rightarrow> disk \<Rightarrow> nat \<Rightarrow> u32" where
  "head_block start d i = get32 (d start) (4 + 4 * i)"

text \<open>What a disk stands for: its contents once the log, if it holds a transaction, is replayed.\<close>

definition logical :: "u32 \<Rightarrow> disk \<Rightarrow> disk" where
  "logical start d = replay start (nat (head_n start d)) (head_block start d) d"

definition apply_writes :: "(u32 \<times> u32 \<times> bytes) list \<Rightarrow> disk \<Rightarrow> disk" where
  "apply_writes ws d = fold (\<lambda>(_, b, x) d. d(b := x)) ws d"

lemma replay_simps [simp]:
  "replay start 0 blk d = d"
  "replay start (Suc n) blk d = (replay start n blk d)(blk n := replay start n blk d (laddr start n))"
  by (simp_all add: replay_def)

lemma replay_cong: "(\<And>i. i < n \<Longrightarrow> blk i = blk' i) \<Longrightarrow> replay start n blk d = replay start n blk' d"
  by (induction n) simp_all

lemma logged_simps [simp]:
  "logged start 0 blk v d = d"
  "logged start (Suc n) blk v d = (logged start n blk v d)(laddr start n := v (blk n))"
  by (simp_all add: logged_def)

lemma replay_other: "b \<notin> blk ` {..<n} \<Longrightarrow> replay start n blk d b = d b"
  by (induction n) (auto simp: lessThan_Suc)

lemma replay_log:
  assumes "log_geom start sz" and "int n \<le> sz - 1" and "\<forall>i<n. blk i \<notin> log_area start sz"
    and "b \<in> log_area start sz"
  shows "replay start n blk d b = d b"
  using assms by (intro replay_other) auto

text \<open>Replaying gives the last logged contents of each block.\<close>

lemma replay_home:
  assumes "log_geom start sz" and "int n \<le> sz - 1" and "\<forall>i<n. blk i \<notin> log_area start sz"
    and "\<forall>i<n. d (laddr start i) = v (blk i)" and "b \<in> blk ` {..<n}"
  shows "replay start n blk d b = v b"
  using assms(2-)
proof (induction n)
  case (Suc n)
  have "replay start n blk d (laddr start n) = v (blk n)"
    using Suc.prems laddr_area(1) [OF assms(1), of n] replay_log [OF assms(1), of n blk "laddr start n" d]
    by simp
  then show ?case using Suc by (auto simp: lessThan_Suc)
qed simp

text \<open>Only the logged contents matter for the blocks the log names.\<close>

lemma replay_same_log:
  assumes "log_geom start sz" and "int n \<le> sz - 1" and "\<forall>i<n. blk i \<notin> log_area start sz"
    and "\<forall>i<n. e (laddr start i) = d (laddr start i)" and "b \<in> blk ` {..<n}"
  shows "replay start n blk e b = replay start n blk d b"
  using assms(2-)
proof (induction n)
  case (Suc n)
  have "replay start n blk f (laddr start n) = f (laddr start n)" for f
    using Suc.prems laddr_area(1) [OF assms(1), of n] by (intro replay_log [OF assms(1)]) auto
  then show ?case using Suc by (auto simp: lessThan_Suc)
qed simp

lemma logged_other: "b \<notin> laddr start ` {..<n} \<Longrightarrow> logged start n blk v d b = d b"
  by (induction n) (auto simp: lessThan_Suc)

lemma logged_at:
  assumes "log_geom start sz" and "int n \<le> sz - 1" and "i < n"
  shows "logged start n blk v d (laddr start i) = v (blk i)"
  using assms(2-)
proof (induction n)
  case (Suc n)
  then show ?case using laddr_inj [OF assms(1), of i n] by (cases "i = n") auto
qed simp

lemma logged_outside:
  assumes "log_geom start sz" and "int n \<le> sz - 1" and "b \<notin> log_area start sz \<or> b = start"
  shows "logged start n blk v d b = d b"
  using assms laddr_area [OF assms(1)] by (intro logged_other) fastforce

subsection \<open>The header block\<close>

lemma length_head_bytes [simp]: "length (head_bytes n blk d) = length d"
proof -
  have "length (fold (\<lambda>i. put32 (4 + 4 * i) (blk i)) is d) = length d" for "is" d
    by (induction "is" arbitrary: d) simp_all
  then show ?thesis by (simp add: head_bytes_def)
qed

lemma sint_of_int_small: "0 \<le> n \<Longrightarrow> n \<le> 30 \<Longrightarrow> sint (of_int n :: u32) = n"
  by (simp add: sint_sbintrunc' take_bit_int_eq_self signed_take_bit_int_eq_self)

lemma head_bytes_fields:
  assumes "length d = BSIZE" and "0 \<le> n" and "n \<le> int LOGSIZE"
  shows "get32 (head_bytes n blk d) 0 = of_int n"
    and "i < nat n \<Longrightarrow> get32 (head_bytes n blk d) (4 + 4 * i) = blk i"
proof -
  have 0: "get32 (fold (\<lambda>i. put32 (4 + 4 * i) (blk i)) [0..<m] d') 0 = get32 d' 0" for m d'
    by (induction m) (simp_all add: get32_put32_other)
  have len: "length (fold (\<lambda>i. put32 (4 + 4 * i) (blk i)) [0..<m] d') = length d'" for m d'
    by (induction m) simp_all
  have 1: "get32 (fold (\<lambda>i. put32 (4 + 4 * i) (blk i)) [0..<m] d') (4 + 4 * i) = blk i"
    if "i < m" "m \<le> LOGSIZE" "length d' = BSIZE" for m i and d' :: bytes
    using that
  proof (induction m)
    case (Suc m)
    then show ?case
      by (cases "i = m") (simp_all add: get32_put32_other len)
  qed simp
  show "get32 (head_bytes n blk d) 0 = of_int n"
    using assms by (simp add: head_bytes_def 0)
  show "i < nat n \<Longrightarrow> get32 (head_bytes n blk d) (4 + 4 * i) = blk i"
    using assms 1 [of i "nat n"] by (simp add: head_bytes_def)
qed

section \<open>What the operations do\<close>

lemma bio_absD:
  fixes s s' :: "'a logst_scheme"
  assumes "bio_abs s' = X" and "arest X = (curpid s, diskst.more s)"
  shows "bview s' = aview X" "platter s' 1 = adisk X" "disk_writes s' = awrites X"
    "bdirty s' = adirty X" "bheld s' = aheld X" "curpid s' = curpid s"
    "lstart s' = lstart s" "lsize s' = lsize s" "outstanding s' = outstanding s"
    "committing s' = committing s" "ldev s' = ldev s" "lh_n s' = lh_n s" "lh_block s' = lh_block s"
    "logst.more s' = logst.more s" "diskst.more s' = diskst.more s"
proof -
  show "diskst.more s' = diskst.more s" using assms bio_abs_simps(6) [of s'] by auto
  then show "lstart s' = lstart s" "lsize s' = lsize s" "outstanding s' = outstanding s"
    "committing s' = committing s" "ldev s' = ldev s" "lh_n s' = lh_n s" "lh_block s' = lh_block s"
    "logst.more s' = logst.more s"
    by (rule logst_of_more)+
  show "bview s' = aview X" "platter s' 1 = adisk X" "disk_writes s' = awrites X"
    "bdirty s' = adirty X" "bheld s' = aheld X"
    using assms(1) by auto
  show "curpid s' = curpid s" using assms bio_abs_simps(6) [of s'] by auto
qed

lemma install_step_spec:
  fixes s :: "'a logst_scheme"
  assumes inv: "bio_inv s" "bheld s = Map.empty" "ldev s = 1" and g: "log_geom (lstart s) sz" "int i < sz - 1"
    and b: "lh_block s i < FSSIZE" "lh_block s i \<notin> log_area (lstart s) sz"
    and a: "laddr (lstart s) i \<notin> bdirty s" "card (bdirty s) < NBUF"
      "lh_block s i \<in> bdirty s \<or> Suc (card (bdirty s)) < NBUF"
  shows "\<exists>s'. install_step i s = Ret s' \<and> bio_inv s' \<and>
    bio_abs s' = (let b = lh_block s i; d = bview s (laddr (lstart s) i) in
      (bio_abs s)\<lparr>aview := (bview s)(b := d), adisk := (platter s 1)(b := d),
        awrites := disk_writes s @ [(1, b, d)], adirty := bdirty s - {b}\<rparr>)"
proof -
  let ?a = "laddr (lstart s) i" and ?b = "lh_block s i"
  have i: "i < LOGSIZE" using g by (simp add: log_geom_def)
  have ab: "?a \<noteq> ?b" using laddr_area(1) [OF g] b by auto
  obtain k j s1 s2 where 1: "bread 1 ?a s = Ret (k, s1)" "bread 1 ?b s1 = Ret (j, s2)" "k \<noteq> j" "bio_inv s2"
      "arest (bio_abs s1) = arest (bio_abs s)"
      "bio_abs s2 = (bio_abs s)\<lparr>aheld := [k \<mapsto> ?a, j \<mapsto> ?b]\<rparr>"
    using bc.bread_two [OF inv(1), of ?a ?b] laddr_area(3) [OF g] b ab a inv(2) by auto
  have "diskst.more s1 = diskst.more s" using 1(5) by simp
  note s1 = logst_of_more [OF this]
  have clean: "bview s ?a = platter s 1 ?a"
    using bc.clean_law [OF inv(1), of ?a] a inv(2) by simp
  have held: "aheld (bio_abs s2) = [k \<mapsto> ?a, j \<mapsto> ?b]"
      "?a \<in> adirty (bio_abs s2) \<or> aview (bio_abs s2) ?a = adisk (bio_abs s2) ?a"
    unfolding 1(6) using clean by simp_all
  obtain s3 s4 s5 where 2: "bwrite j (set_data j (data_of k s2) s2) = Ret s3" "brelse k s3 = Ret s4"
      "brelse j s4 = Ret s5" "bio_inv s5"
      "bio_abs s5 = (bio_abs s2)\<lparr>aview := (aview (bio_abs s2))(?b := aview (bio_abs s2) ?a),
        adisk := (adisk (bio_abs s2))(?b := aview (bio_abs s2) ?a),
        awrites := awrites (bio_abs s2) @ [(1, ?b, aview (bio_abs s2) ?a)],
        adirty := adirty (bio_abs s2) - {?b}, aheld := Map.empty\<rparr>"
    using bc.finish_copy [OF 1(4) held(1) 1(3) ab] held(2) by blast
  have "install_step i s = Ret s5"
    using i 1(1,2) 2(1-3) inv(3) s1 by (simp add: install_step_def laddr_def)
  moreover have "bio_abs s5 = (bio_abs s)\<lparr>aview := (bview s)(?b := bview s ?a),
      adisk := (platter s 1)(?b := bview s ?a),
      awrites := disk_writes s @ [(1, ?b, bview s ?a)], adirty := bdirty s - {?b}\<rparr>"
    unfolding 2(5) 1(6) using inv(2) by (simp add: bio_abs_def)
  ultimately show ?thesis using 2(4) by (simp add: Let_def)
qed

lemma write_log_step_spec:
  fixes s :: "'a logst_scheme"
  assumes inv: "bio_inv s" "bheld s = Map.empty" "ldev s = 1" and g: "log_geom (lstart s) sz" "int i < sz - 1"
    and b: "lh_block s i < FSSIZE" "lh_block s i \<notin> log_area (lstart s) sz"
    and a: "laddr (lstart s) i \<notin> bdirty s" "card (bdirty s) < NBUF" "lh_block s i \<in> bdirty s"
  shows "\<exists>s'. write_log_step i s = Ret s' \<and> bio_inv s' \<and>
    bio_abs s' = (let a = laddr (lstart s) i; d = bview s (lh_block s i) in
      (bio_abs s)\<lparr>aview := (bview s)(a := d), adisk := (platter s 1)(a := d),
        awrites := disk_writes s @ [(1, a, d)]\<rparr>)"
proof -
  let ?a = "laddr (lstart s) i" and ?b = "lh_block s i"
  have i: "i < LOGSIZE" using g by (simp add: log_geom_def)
  have ab: "?a \<noteq> ?b" using laddr_area(1) [OF g] b by auto
  obtain k j s1 s2 where 1: "bread 1 ?a s = Ret (k, s1)" "bread 1 ?b s1 = Ret (j, s2)" "k \<noteq> j" "bio_inv s2"
      "arest (bio_abs s1) = arest (bio_abs s)"
      "bio_abs s2 = (bio_abs s)\<lparr>aheld := [k \<mapsto> ?a, j \<mapsto> ?b]\<rparr>"
    using bc.bread_two [OF inv(1), of ?a ?b] laddr_area(3) [OF g] b ab a inv(2) by auto
  have "diskst.more s1 = diskst.more s" using 1(5) by simp
  note s1 = logst_of_more [OF this]
  have held: "aheld (bio_abs s2) = [j \<mapsto> ?b, k \<mapsto> ?a]" "adirty (bio_abs s2) = bdirty s"
    unfolding 1(6) using 1(3) by (auto simp: fun_upd_twist)
  obtain s3 s4 s5 where 2: "bwrite k (set_data k (data_of j s2) s2) = Ret s3" "brelse j s3 = Ret s4"
      "brelse k s4 = Ret s5" "bio_inv s5"
      "bio_abs s5 = (bio_abs s2)\<lparr>aview := (aview (bio_abs s2))(?a := aview (bio_abs s2) ?b),
        adisk := (adisk (bio_abs s2))(?a := aview (bio_abs s2) ?b),
        awrites := awrites (bio_abs s2) @ [(1, ?a, aview (bio_abs s2) ?b)],
        adirty := adirty (bio_abs s2) - {?a}, aheld := Map.empty\<rparr>"
    using bc.finish_copy [OF 1(4) held(1) 1(3) [symmetric] ab [symmetric]] held(2) a(3) by auto
  have "write_log_step i s = Ret s5"
    using i 1(1,2) 2(1-3) inv(3) s1 by (simp add: write_log_step_def laddr_def)
  moreover have "bio_abs s5 = (bio_abs s)\<lparr>aview := (bview s)(?a := bview s ?b),
      adisk := (platter s 1)(?a := bview s ?b), awrites := disk_writes s @ [(1, ?a, bview s ?b)]\<rparr>"
    unfolding 2(5) 1(6) using inv(2) a(1) by (simp add: bio_abs_def)
  ultimately show ?thesis using 2(4) by (simp add: Let_def)
qed

lemma write_head_spec:
  fixes s :: "'a logst_scheme"
  assumes inv: "bio_inv s" "bheld s = Map.empty" "ldev s = 1" and g: "log_geom (lstart s) sz"
    and n: "lh_n s \<le> int LOGSIZE" and a: "lstart s \<notin> bdirty s" "card (bdirty s) < NBUF"
  shows "\<exists>s'. write_head s = Ret s' \<and> bio_inv s' \<and>
    bio_abs s' = (let d = head_bytes (lh_n s) (lh_block s) (bview s (lstart s)) in
      (bio_abs s)\<lparr>aview := (bview s)(lstart s := d), adisk := (platter s 1)(lstart s := d),
        awrites := disk_writes s @ [(1, lstart s, d)]\<rparr>)"
proof -
  let ?d = "head_bytes (lh_n s) (lh_block s) (bview s (lstart s))"
  have len: "length ?d = BSIZE" using bio_length [OF inv(1)] by simp
  obtain i s1 where 1: "bread 1 (lstart s) s = Ret (i, s1)" "bio_abs s1 = (bio_abs s)\<lparr>aheld := [i \<mapsto> lstart s]\<rparr>"
      "data_of i s1 = bview s (lstart s)"
      "\<forall>d. length d = BSIZE \<longrightarrow> (\<exists>s2 s3. bwrite i (set_data i d s1) = Ret s2 \<and> brelse i s2 = Ret s3 \<and> bio_inv s3 \<and>
        bio_abs s3 = (bio_abs s)\<lparr>aview := (bview s)(lstart s := d), adisk := (platter s 1)(lstart s := d),
          awrites := disk_writes s @ [(1, lstart s, d)], adirty := bdirty s - {lstart s}\<rparr>)"
    using bc.write_block [OF inv(1), of "lstart s"] start_area(2) [OF g] inv(2) a(2) by auto
  obtain s2 s3 where 2: "bwrite i (set_data i ?d s1) = Ret s2" "brelse i s2 = Ret s3" "bio_inv s3"
      "bio_abs s3 = (bio_abs s)\<lparr>aview := (bview s)(lstart s := ?d), adisk := (platter s 1)(lstart s := ?d),
          awrites := disk_writes s @ [(1, lstart s, ?d)], adirty := bdirty s - {lstart s}\<rparr>"
    using 1(4) len by blast
  have "lh_n s1 = lh_n s" "lh_block s1 = lh_block s"
    using bio_absD [OF 1(2), of s] by (simp_all add: bio_abs_def)
  then have "write_head s = Ret s3"
    using 1(1,3) 2(1,2) inv(3) n by (simp add: write_head_def)
  moreover have "bdirty s - {lstart s} = bdirty s" using a(1) by simp
  ultimately show ?thesis using 2(3,4) by (simp add: Let_def bio_abs_def)
qed

lemma install_loop_spec:
  fixes s :: "'a logst_scheme"
  assumes inv: "bio_inv s" "bheld s = Map.empty" "ldev s = 1" and g: "log_geom (lstart s) sz"
    and n: "int n \<le> sz - 1"
    and b: "\<forall>i<n. lh_block s i < FSSIZE \<and> lh_block s i \<notin> log_area (lstart s) sz"
    and d: "bdirty s \<inter> log_area (lstart s) sz = {}" "card (bdirty s) < NBUF"
      "lh_block s ` {..<n} \<subseteq> bdirty s \<and> inj_on (lh_block s) {..<n} \<or> bdirty s = {}"
  shows "\<exists>s'. foldo install_step [0..<n] s = Ret s' \<and> bio_inv s' \<and>
    bio_abs s' = (bio_abs s)\<lparr>aview := replay (lstart s) n (lh_block s) (bview s),
      adisk := replay (lstart s) n (lh_block s) (platter s 1),
      awrites := disk_writes s @ map (\<lambda>i. (1, lh_block s i, bview s (laddr (lstart s) i))) [0..<n],
      adirty := bdirty s - lh_block s ` {..<n}\<rparr>"
  using n b d(3)
proof (induction n)
  case 0
  have "(bio_abs s)\<lparr>aview := bview s, adisk := platter s 1, awrites := disk_writes s, adirty := bdirty s\<rparr> = bio_abs s"
    by (simp add: bio_abs_def)
  then show ?case using inv by simp
next
  case (Suc n)
  let ?a = "laddr (lstart s) n" and ?b = "lh_block s n" and ?blk = "lh_block s"
  have d3: "?blk ` {..<n} \<subseteq> bdirty s \<and> inj_on ?blk {..<n} \<or> bdirty s = {}"
    using Suc.prems(3) by (auto simp: lessThan_Suc)
  then obtain t where t: "foldo install_step [0..<n] s = Ret t" "bio_inv t"
      "bio_abs t = (bio_abs s)\<lparr>aview := replay (lstart s) n ?blk (bview s),
        adisk := replay (lstart s) n ?blk (platter s 1),
        awrites := disk_writes s @ map (\<lambda>i. (1, ?blk i, bview s (laddr (lstart s) i))) [0..<n],
        adirty := bdirty s - ?blk ` {..<n}\<rparr>"
    using Suc.IH [OF _ _ d3] Suc.prems(1,2) by auto
  note td = bio_absD [OF t(3), of s, simplified]
  have i: "int n < sz - 1" using Suc.prems(1) by simp
  have "card (bdirty t) \<le> card (bdirty s)"
    unfolding td by (rule card_mono) (auto simp: bdirty_def)
  then have card: "card (bdirty t) < NBUF" using d(2) by simp
  have "?b \<in> bdirty t \<or> Suc (card (bdirty t)) < NBUF"
    using Suc.prems(3) by (auto simp: td lessThan_Suc inj_on_def)
  moreover have a: "?a \<in> log_area (lstart s) sz" using laddr_area(1) [OF g i] .
  moreover have "?a \<notin> bdirty t" using a d(1) by (auto simp: td)
  ultimately obtain s' where s': "install_step n t = Ret s'" "bio_inv s'"
      "bio_abs s' = (bio_abs t)\<lparr>aview := (bview t)(?b := bview t ?a), adisk := (platter t 1)(?b := bview t ?a),
        awrites := disk_writes t @ [(1, ?b, bview t ?a)], adirty := bdirty t - {?b}\<rparr>"
    using install_step_spec [of t sz n] t(2) inv g i Suc.prems(2) card
    by (auto simp: td Let_def)
  have ba: "bview t ?a = bview s ?a"
    unfolding td using replay_log [OF g _ _ a, of n ?blk] i Suc.prems(2) by auto
  have pa: "replay (lstart s) n ?blk (platter s 1) ?a = platter s 1 ?a"
    using replay_log [OF g _ _ a, of n ?blk] i Suc.prems(2) by auto
  have "?a \<notin> bdirty s" using a d(1) by auto
  then have clean: "bview s ?a = platter s 1 ?a"
    using bc.clean_law [OF inv(1), of ?a] inv(2) by simp
  have "foldo install_step [0..<Suc n] s = Ret s'"
    unfolding foldo_upt_Suc using t(1) s'(1) by simp
  moreover have dn: "bdirty s - ?blk ` {..<Suc n} = bdirty s - ?blk ` {..<n} - {?b}"
    by (auto simp: lessThan_Suc)
  have "bio_abs s' = (bio_abs s)\<lparr>aview := replay (lstart s) (Suc n) ?blk (bview s),
      adisk := replay (lstart s) (Suc n) ?blk (platter s 1),
      awrites := disk_writes s @ map (\<lambda>i. (1, ?blk i, bview s (laddr (lstart s) i))) [0..<Suc n],
      adirty := bdirty s - ?blk ` {..<Suc n}\<rparr>"
    unfolding s'(3) dn using ba by (simp add: td t(3) clean pa)
  ultimately show ?case using s'(2) by blast
qed

lemma write_log_loop_spec:
  fixes s :: "'a logst_scheme"
  assumes inv: "bio_inv s" "bheld s = Map.empty" "ldev s = 1" and g: "log_geom (lstart s) sz"
    and n: "int n \<le> sz - 1"
    and b: "\<forall>i<n. lh_block s i < FSSIZE \<and> lh_block s i \<notin> log_area (lstart s) sz"
    and d: "bdirty s \<inter> log_area (lstart s) sz = {}" "card (bdirty s) < NBUF"
      "lh_block s ` {..<n} \<subseteq> bdirty s"
  shows "\<exists>s'. foldo write_log_step [0..<n] s = Ret s' \<and> bio_inv s' \<and>
    bio_abs s' = (bio_abs s)\<lparr>aview := logged (lstart s) n (lh_block s) (bview s) (bview s),
      adisk := logged (lstart s) n (lh_block s) (bview s) (platter s 1),
      awrites := disk_writes s @ map (\<lambda>i. (1, laddr (lstart s) i, bview s (lh_block s i))) [0..<n]\<rparr>"
  using n b d(3)
proof (induction n)
  case 0
  have "(bio_abs s)\<lparr>aview := bview s, adisk := platter s 1, awrites := disk_writes s\<rparr> = bio_abs s"
    by (simp add: bio_abs_def)
  then show ?case using inv by simp
next
  case (Suc n)
  let ?a = "laddr (lstart s) n" and ?b = "lh_block s n" and ?blk = "lh_block s"
  have "?blk ` {..<n} \<subseteq> bdirty s" using Suc.prems(3) by auto
  then obtain t where t: "foldo write_log_step [0..<n] s = Ret t" "bio_inv t"
      "bio_abs t = (bio_abs s)\<lparr>aview := logged (lstart s) n ?blk (bview s) (bview s),
        adisk := logged (lstart s) n ?blk (bview s) (platter s 1),
        awrites := disk_writes s @ map (\<lambda>i. (1, laddr (lstart s) i, bview s (?blk i))) [0..<n]\<rparr>"
    using Suc by auto
  note td = bio_absD [OF t(3), of s, simplified]
  have i: "int n < sz - 1" using Suc.prems(1) by simp
  have a: "?a \<in> log_area (lstart s) sz" using laddr_area(1) [OF g i] .
  moreover have "?a \<notin> bdirty t" using a d(1) by (auto simp: td)
  moreover have "?b \<in> bdirty t" using Suc.prems(3) by (auto simp: td)
  ultimately obtain s' where s': "write_log_step n t = Ret s'" "bio_inv s'"
      "bio_abs s' = (bio_abs t)\<lparr>aview := (bview t)(?a := bview t ?b), adisk := (platter t 1)(?a := bview t ?b),
        awrites := disk_writes t @ [(1, ?a, bview t ?b)]\<rparr>"
    using write_log_step_spec [of t sz n] t(2) inv g i Suc.prems(2) d(2)
    by (auto simp: td Let_def)
  have bb: "bview t ?b = bview s ?b"
    unfolding td using logged_outside [OF g, of n ?b] i Suc.prems(2) by simp
  have "foldo write_log_step [0..<Suc n] s = Ret s'"
    unfolding foldo_upt_Suc using t(1) s'(1) by simp
  moreover have "bio_abs s' = (bio_abs s)\<lparr>aview := logged (lstart s) (Suc n) ?blk (bview s) (bview s),
      adisk := logged (lstart s) (Suc n) ?blk (bview s) (platter s 1),
      awrites := disk_writes s @ map (\<lambda>i. (1, laddr (lstart s) i, bview s (?blk i))) [0..<Suc n]\<rparr>"
    unfolding s'(3) bb by (simp add: td t(3))
  ultimately show ?case using s'(2) by blast
qed

lemma read_head_loop:
  fixes s :: "'a logst_scheme"
  shows "n \<le> LOGSIZE \<Longrightarrow> foldo (read_head_step lh) [0..<n] s =
     Ret (s\<lparr>lh_block := \<lambda>i. if i < n then get32 lh (4 + 4 * i) else lh_block s i\<rparr>)"
proof (induction n)
  case (Suc n)
  have "(\<lambda>i. if i < n then get32 lh (4 + 4 * i) else lh_block s i)(n := get32 lh (4 + 4 * n))
      = (\<lambda>i. if i < Suc n then get32 lh (4 + 4 * i) else lh_block s i)"
    by (auto simp: fun_eq_iff)
  moreover have "read_head_step lh n t = Ret (t\<lparr>lh_block := (lh_block t)(n := get32 lh (4 + 4 * n))\<rparr>)"
    for t :: "'a logst_scheme"
    using Suc.prems by (simp add: read_head_step_def)
  ultimately show ?case using Suc unfolding foldo_upt_Suc by simp
qed simp

lemma read_head_spec:
  fixes s :: "'a logst_scheme"
  assumes inv: "bio_inv s" "bheld s = Map.empty" "bdirty s = {}" "ldev s = 1" and g: "log_geom (lstart s) sz"
    and n: "head_n (lstart s) (platter s 1) \<le> int LOGSIZE"
  shows "\<exists>s'. read_head s = Ret s' \<and> bio_inv s' \<and>
    bio_abs s' = bio_abs (s\<lparr>lh_n := head_n (lstart s) (platter s 1),
      lh_block := \<lambda>i. if i < nat (head_n (lstart s) (platter s 1))
        then head_block (lstart s) (platter s 1) i else lh_block s i\<rparr>)"
proof -
  obtain i s1 where 1: "bread 1 (lstart s) s = Ret (i, s1)" "bio_inv s1"
      "bio_abs s1 = (bio_abs s)\<lparr>aheld := [i \<mapsto> lstart s]\<rparr>"
    using bc.bread_law [OF inv(1), of "lstart s"] start_area(2) [OF g] inv(2,3) by auto
  note d1 = bio_absD [OF 1(3), of s, simplified]
  have clean: "bview s (lstart s) = platter s 1 (lstart s)"
    using bc.clean_law [OF inv(1), of "lstart s"] inv(2,3) by simp
  have data: "data_of i s1 = platter s 1 (lstart s)"
    using bio_get [OF 1(2), of i "lstart s"] d1 clean by simp
  define blk where "blk = (\<lambda>i. if i < nat (head_n (lstart s) (platter s 1))
        then head_block (lstart s) (platter s 1) i else lh_block s i)"
  define s2 where "s2 = s1\<lparr>lh_n := head_n (lstart s) (platter s 1), lh_block := blk\<rparr>"
  have s2: "bio_inv s2" "bheld s2 = [i \<mapsto> lstart s]" "bview s2 = bview s" "platter s2 1 = platter s 1"
    using 1(2) d1 by (simp_all add: s2_def)
  obtain s3 where 3: "brelse i s2 = Ret s3" "bio_inv s3" "bio_abs s3 = (bio_abs s2)\<lparr>aheld := (bheld s2)(i := None)\<rparr>"
    using bc.brelse_law [OF s2(1), of i "lstart s"] s2 clean by auto
  have "foldo (read_head_step (data_of i s1)) [0..<nat (lh_n (s1\<lparr>lh_n := sint (get32 (data_of i s1) 0)\<rparr>))]
      (s1\<lparr>lh_n := sint (get32 (data_of i s1) 0)\<rparr>) = Ret s2"
    unfolding data using n d1
    by (subst read_head_loop) (simp_all add: s2_def blk_def head_n_def head_block_def cong: if_cong)
  then have "read_head s = Ret s3"
    using 1(1) 3(1) inv(4) by (simp add: read_head_def Let_def)
  moreover have "diskst.more s2 = diskst.more (s\<lparr>lh_n := head_n (lstart s) (platter s 1), lh_block := blk\<rparr>)"
    using d1(15) by (cases s; cases s1) (simp add: s2_def)
  then have "bio_abs s3 = bio_abs (s\<lparr>lh_n := head_n (lstart s) (platter s 1), lh_block := blk\<rparr>)"
    unfolding 3(3) using s2 d1 inv(2) by (simp add: bio_abs_def) (simp add: s2_def)
  ultimately show ?thesis using 3(2) by (auto simp: blk_def)
qed

text \<open>The sector writes of recovery, and the disks it can start from.\<close>

definition recovery_writes :: "u32 \<Rightarrow> disk \<Rightarrow> (u32 \<times> u32 \<times> bytes) list" where
  "recovery_writes start d =
     map (\<lambda>i. (1, head_block start d i, d (laddr start i))) [0..<nat (head_n start d)] @
     [(1, start, put32 0 0 (d start))]"

definition log_disk_ok :: "u32 \<Rightarrow> int \<Rightarrow> disk \<Rightarrow> bool" where
  "log_disk_ok start sz d \<longleftrightarrow> head_n start d \<le> sz - 1 \<and>
     (\<forall>i<nat (head_n start d). head_block start d i < FSSIZE \<and> head_block start d i \<notin> log_area start sz)"

lemma apply_writes_append: "apply_writes (xs @ ys) d = apply_writes ys (apply_writes xs d)"
  by (simp add: apply_writes_def)

lemma apply_writes_Cons: "apply_writes ((r, b, x) # ws) d = apply_writes ws (d(b := x))"
  by (simp add: apply_writes_def)

lemma apply_writes_Nil [simp]: "apply_writes [] d = d"
  by (simp add: apply_writes_def)

lemma replay_writes:
  assumes "log_geom start sz" and "int n \<le> sz - 1" and "\<forall>i<n. blk i \<notin> log_area start sz"
  shows "apply_writes (map (\<lambda>i. (1, blk i, d (laddr start i))) [0..<n]) d = replay start n blk d"
  using assms(2,3)
proof (induction n)
  case (Suc n)
  have "replay start n blk d (laddr start n) = d (laddr start n)"
    using Suc.prems laddr_area(1) [OF assms(1), of n] by (intro replay_log [OF assms(1)]) auto
  then show ?case using Suc by (simp add: apply_writes_append apply_writes_Cons)
qed simp

lemma logged_writes:
  "apply_writes (map (\<lambda>i. (1, laddr start i, v (blk i))) [0..<n]) d = logged start n blk v d"
  by (induction n) (simp_all add: apply_writes_append apply_writes_Cons)

lemma recover_from_log_spec:
  fixes s :: "'a logst_scheme"
  assumes inv: "bio_inv s" "bheld s = Map.empty" "bdirty s = {}" "ldev s = 1" and g: "log_geom (lstart s) sz"
    and ok: "log_disk_ok (lstart s) sz (platter s 1)"
  shows "\<exists>s'. recover_from_log s = Ret s' \<and> bio_inv s' \<and> bheld s' = Map.empty \<and> bdirty s' = {} \<and>
    platter s' 1 = (logical (lstart s) (platter s 1))(lstart s := put32 0 0 (platter s 1 (lstart s))) \<and>
    disk_writes s' = disk_writes s @ recovery_writes (lstart s) (platter s 1) \<and>
    lh_n s' = 0 \<and> ldev s' = 1 \<and> lstart s' = lstart s \<and> lsize s' = lsize s \<and> curpid s' = curpid s \<and>
    outstanding s' = outstanding s \<and> committing s' = committing s \<and> logst.more s' = logst.more s"
proof -
  let ?d = "platter s 1" and ?S = "lstart s"
  let ?n = "nat (head_n ?S ?d)"
  define blk where "blk = (\<lambda>i. if i < ?n then head_block ?S ?d i else lh_block s i)"
  have n: "head_n ?S ?d \<le> int LOGSIZE" "int ?n \<le> sz - 1"
    using ok g by (auto simp: log_disk_ok_def log_geom_def)
  obtain s1 where 1: "read_head s = Ret s1" "bio_inv s1"
      "bio_abs s1 = bio_abs (s\<lparr>lh_n := head_n ?S ?d, lh_block := blk\<rparr>)"
    using read_head_spec [OF inv g n(1)] by (auto simp: blk_def)
  note d1 = bio_absD [OF 1(3) bio_abs_simps(6), simplified]
  have blk: "\<forall>i<?n. blk i < FSSIZE \<and> blk i \<notin> log_area ?S sz"
    using ok by (simp add: log_disk_ok_def blk_def)
  have view: "bview s = ?d"
    using bc.clean_law [OF inv(1)] inv(2,3) by (simp add: fun_eq_iff)
  obtain s2 where 2: "foldo install_step [0..<?n] s1 = Ret s2" "bio_inv s2"
      "bio_abs s2 = (bio_abs s1)\<lparr>aview := replay ?S ?n blk ?d, adisk := replay ?S ?n blk ?d,
        awrites := disk_writes s @ map (\<lambda>i. (1, blk i, ?d (laddr ?S i))) [0..<?n], adirty := {}\<rparr>"
    using install_loop_spec [of s1 sz ?n] 1(2) d1 inv g n blk view by auto
  note d2 = bio_absD [OF 2(3), of s1, simplified]
  have same: "replay ?S ?n blk ?d = logical ?S ?d"
    unfolding logical_def by (rule replay_cong) (simp add: blk_def)
  have start: "logical ?S ?d ?S = ?d ?S"
    unfolding same [symmetric] using replay_log [OF g n(2)] blk start_area(1) [OF g] by blast
  let ?h = "put32 0 0 (?d ?S)"
  obtain s3 where 3: "write_head (s2\<lparr>lh_n := 0\<rparr>) = Ret s3" "bio_inv s3"
      "bio_abs s3 = (bio_abs (s2\<lparr>lh_n := 0\<rparr>))\<lparr>aview := (bview s2)(?S := ?h), adisk := (platter s2 1)(?S := ?h),
        awrites := disk_writes s2 @ [(1, ?S, ?h)]\<rparr>"
    using write_head_spec [of "s2\<lparr>lh_n := 0\<rparr>" sz] 2(2) d2 d1 inv g
    by (auto simp: Let_def head_bytes_def same start)
  note d3 = bio_absD [OF 3(3), of "s2\<lparr>lh_n := 0\<rparr>", simplified]
  have "recover_from_log s = Ret s3"
    using 1(1) 2(1) 3(1) d1 by (simp add: recover_from_log_def install_trans_def)
  moreover have "map (\<lambda>i. (1, blk i, ?d (laddr ?S i))) [0..<?n] @ [(1, ?S, ?h)] = recovery_writes ?S ?d"
    by (simp add: recovery_writes_def blk_def)
  ultimately show ?thesis
    using 3(2) d3 d2 d1 inv same by auto
qed

section \<open>Crashes on disks with a log\<close>

text \<open>The sector writes of a commit.\<close>

definition commit_writes :: "u32 \<Rightarrow> nat \<Rightarrow> (nat \<Rightarrow> u32) \<Rightarrow> disk \<Rightarrow> bytes \<Rightarrow> (u32 \<times> u32 \<times> bytes) list" where
  "commit_writes start n blk v h =
     map (\<lambda>i. (1, laddr start i, v (blk i))) [0..<n] @
     [(1, start, head_bytes (int n) blk h)] @
     map (\<lambda>i. (1, blk i, v (blk i))) [0..<n] @
     [(1, start, put32 0 0 (head_bytes (int n) blk h))]"

lemma home_writes:
  "apply_writes (map (\<lambda>i. (1, blk i, v (blk i))) [0..<j]) e b = (if b \<in> blk ` {..<j} then v b else e b)"
  by (induction j) (auto simp: apply_writes_append apply_writes_Cons lessThan_Suc)

lemma take_commit_writes:
  "k \<le> n \<Longrightarrow> take k (commit_writes start n blk v h) = map (\<lambda>i. (1, laddr start i, v (blk i))) [0..<k]"
  "j \<le> n \<Longrightarrow> take (Suc (n + j)) (commit_writes start n blk v h) =
     map (\<lambda>i. (1, laddr start i, v (blk i))) [0..<n] @ [(1, start, head_bytes (int n) blk h)] @
     map (\<lambda>i. (1, blk i, v (blk i))) [0..<j]"
  by (simp_all add: commit_writes_def take_map)

lemma length_commit_writes [simp]: "length (commit_writes start n blk v h) = 2 * n + 2"
  by (simp add: commit_writes_def)

lemma crash_disk:
  assumes g: "log_geom start sz" and n: "int n \<le> sz - 1"
    and blk: "\<forall>i<n. blk i < FSSIZE \<and> blk i \<notin> log_area start sz"
    and d: "head_n start d = 0" "length (d start) = BSIZE"
    and v: "\<And>b. b \<notin> blk ` {..<n} \<Longrightarrow> b \<notin> log_area start sz \<Longrightarrow> v b = d b"
    and k: "k \<le> 2 * n + 2"
  defines "dk \<equiv> apply_writes (take k (commit_writes start n blk v (d start))) d"
  shows "log_disk_ok start sz dk"
    and "b \<notin> log_area start sz \<Longrightarrow> logical start dk b = (if k \<le> n then d b else v b)"
    and "length (dk start) = BSIZE"
proof -
  have n30: "int n \<le> 30" using n g by (simp add: log_geom_def)
  let ?H = "head_bytes (int n) blk (d start)"
  have H: "sint (get32 ?H 0) = int n" "\<And>i. i < n \<Longrightarrow> get32 ?H (4 + 4 * i) = blk i"
    using head_bytes_fields [OF d(2), where n = "int n" and blk = blk] n30 sint_of_int_small [of "int n"] by simp_all
  have home: "start \<notin> blk ` {..<m}" "laddr start i \<notin> blk ` {..<m}" if "m \<le> n" "i < n" for m i
    using blk start_area(1) [OF g] laddr_area(1) [OF g, of i] that n by fastforce+
  have home_start: "start \<notin> blk ` {..<m}" if "m \<le> n" for m
    using blk start_area(1) [OF g] that by fastforce
  consider (log) "k \<le> n" | (home) j where "k = Suc (n + j)" "j \<le> n" | (all) "k = 2 * n + 2"
    using k by (cases "k \<le> n"; cases "k = 2 * n + 2") (auto intro: that(2) [of "k - Suc n"])
  then have "log_disk_ok start sz dk \<and> length (dk start) = BSIZE \<and>
      (b \<notin> log_area start sz \<longrightarrow> logical start dk b = (if k \<le> n then d b else v b))"
  proof cases
    case log
    then have dk: "dk = logged start k blk v d"
      by (simp add: dk_def take_commit_writes logged_writes)
    have "dk start = d start" "b \<notin> log_area start sz \<Longrightarrow> dk b = d b"
      unfolding dk using logged_outside [OF g, of k] log n by simp_all
    then show ?thesis
      using d log g by (simp add: log_disk_ok_def logical_def head_n_def log_geom_def)
  next
    case home
    let ?e = "(logged start n blk v d)(start := ?H)"
    have dk: "dk = apply_writes (map (\<lambda>i. (1, blk i, v (blk i))) [0..<j]) ?e"
      using home by (simp add: dk_def take_commit_writes apply_writes_append apply_writes_Cons logged_writes)
    have dkb: "dk c = (if c \<in> blk ` {..<j} then v c else ?e c)" for c
      unfolding dk by (rule home_writes)
    have hd: "dk start = ?H" using home_start home(2) by (simp add: dkb)
    have hn: "head_n start dk = int n" "\<And>i. i < n \<Longrightarrow> head_block start dk i = blk i"
      using hd H by (simp_all add: head_n_def head_block_def)
    have la: "\<forall>i<n. dk (laddr start i) = v (blk i)"
      using home_start home(2) \<open>\<And>m i. m \<le> n \<Longrightarrow> i < n \<Longrightarrow> laddr start i \<notin> blk ` {..<m}\<close>
        logged_at [OF g n] laddr_area(2) [OF g] n by (auto simp: dkb)
    have lg: "logical start dk = replay start n blk dk"
      unfolding logical_def hn(1) nat_int using hn(2) by (rule replay_cong)
    have "logical start dk b = v b" if b: "b \<notin> log_area start sz"
    proof (cases "b \<in> blk ` {..<n}")
      case True
      then show ?thesis unfolding lg using replay_home [OF g n _ la] blk by blast
    next
      case False
      then have "replay start n blk dk b = dk b" by (rule replay_other)
      moreover have "b \<noteq> start" using b start_area(1) [OF g] by blast
      moreover have "b \<notin> blk ` {..<j}" using False home(2) by auto
      ultimately show ?thesis
        unfolding lg using False b v logged_outside [OF g n] by (simp add: dkb)
    qed
    moreover have "log_disk_ok start sz dk"
      using hn blk n by (simp add: log_disk_ok_def)
    ultimately show ?thesis using home d hd by simp
  next
    case all
    let ?e = "(logged start n blk v d)(start := ?H)"
    have dk: "dk = (apply_writes (map (\<lambda>i. (1, blk i, v (blk i))) [0..<n]) ?e)(start := put32 0 0 ?H)"
      using all by (simp add: dk_def apply_writes_append apply_writes_Cons logged_writes)
        (simp add: commit_writes_def apply_writes_append apply_writes_Cons logged_writes)
    have hn: "head_n start dk = 0"
      using d(2) by (simp add: dk head_n_def)
    have "dk b = v b" if b: "b \<notin> log_area start sz"
    proof -
      have "b \<noteq> start" using b start_area(1) [OF g] by blast
      then show ?thesis
        using v b logged_outside [OF g n, of b] by (simp add: dk home_writes)
    qed
    then show ?thesis using all hn g d by (simp add: log_disk_ok_def logical_def log_geom_def) (simp add: dk)
  qed
  then show "log_disk_ok start sz dk" "length (dk start) = BSIZE"
    "b \<notin> log_area start sz \<Longrightarrow> logical start dk b = (if k \<le> n then d b else v b)"
    by blast+
qed

text \<open>Recovery may itself be interrupted: every prefix of its writes leaves the same logical disk.\<close>

lemma crash_in_recovery:
  assumes g: "log_geom start sz" and ok: "log_disk_ok start sz d" and len: "length (d start) = BSIZE"
    and k: "k \<le> length (recovery_writes start d)"
  defines "dk \<equiv> apply_writes (take k (recovery_writes start d)) d"
  shows "log_disk_ok start sz dk"
    and "b \<notin> log_area start sz \<Longrightarrow> logical start dk b = logical start d b"
    and "length (dk start) = BSIZE"
proof -
  define n where "n = nat (head_n start d)"
  let ?blk = "head_block start d"
  have n: "int n \<le> sz - 1" using ok g by (simp add: n_def log_disk_ok_def log_geom_def)
  have blk: "\<forall>i<n. ?blk i < FSSIZE \<and> ?blk i \<notin> log_area start sz" using ok by (simp add: n_def log_disk_ok_def)
  have rep: "apply_writes (map (\<lambda>i. (1, ?blk i, d (laddr start i))) [0..<m]) d = replay start m ?blk d"
    if "m \<le> n" for m
    using that n blk by (intro replay_writes [OF g]) auto
  have inlog: "replay start m ?blk d b = d b" if "m \<le> n" "b \<in> log_area start sz" for m b
    using that n blk by (intro replay_log [OF g]) auto
  have "k \<le> Suc n" using k by (simp add: n_def recovery_writes_def)
  then consider (part) "k \<le> n" | (all) "k = Suc n" by (auto simp: le_Suc_eq)
  then have "log_disk_ok start sz dk \<and> length (dk start) = BSIZE \<and>
      (b \<notin> log_area start sz \<longrightarrow> logical start dk b = logical start d b)"
  proof cases
    case part
    then have dk: "dk = replay start k ?blk d"
      by (simp add: dk_def recovery_writes_def take_map rep flip: n_def)
    have st: "dk start = d start" unfolding dk using inlog part start_area(1) [OF g] by blast
    then have hd: "head_n start dk = head_n start d" "head_block start dk = ?blk"
      by (simp_all add: head_n_def head_block_def fun_eq_iff)
    have "logical start dk b = logical start d b" if b: "b \<notin> log_area start sz"
    proof (cases "b \<in> ?blk ` {..<n}")
      case True
      have "dk (laddr start i) = d (laddr start i)" if "i < n" for i
        unfolding dk using inlog [OF part] laddr_area(1) [OF g, of i] that n by auto
      then show ?thesis
        unfolding logical_def hd n_def [symmetric]
        using replay_same_log [OF g n _ _ True, of dk d] blk by blast
    next
      case False
      moreover have "b \<notin> ?blk ` {..<k}" using False part by auto
      then have "dk b = d b" unfolding dk by (rule replay_other)
      ultimately show ?thesis
        unfolding logical_def hd n_def [symmetric] by (simp add: replay_other)
    qed
    then show ?thesis using st hd ok len by (simp add: log_disk_ok_def)
  next
    case all
    then have dk: "dk = (replay start n ?blk d)(start := put32 0 0 (d start))"
      by (simp add: dk_def recovery_writes_def apply_writes_append apply_writes_Cons rep flip: n_def)
    then have "head_n start dk = 0" using len by (simp add: head_n_def)
    then show ?thesis
      using start_area(1) [OF g] g len dk by (auto simp: n_def logical_def log_disk_ok_def log_geom_def)
  qed
  then show "log_disk_ok start sz dk" "length (dk start) = BSIZE"
    "b \<notin> log_area start sz \<Longrightarrow> logical start dk b = logical start d b"
    by blast+
qed

section \<open>Transactions\<close>

text \<open>
  The state of the log while operations run: the dirty buffers are exactly the logged blocks,
  each logged once, none of them in the log itself, and the log on disk is empty.
\<close>

definition log_inv :: "'a logst_scheme \<Rightarrow> bool" where
  "log_inv s \<longleftrightarrow> bio_inv s \<and> ldev s = 1 \<and> log_geom (lstart s) (lsize s) \<and>
     0 \<le> lh_n s \<and> lh_n s \<le> lsize s - 1 \<and> inj_on (lh_block s) {..<nat (lh_n s)} \<and>
     bdirty s = lh_block s ` {..<nat (lh_n s)} \<and>
     (\<forall>i<nat (lh_n s). lh_block s i < FSSIZE \<and> lh_block s i \<notin> log_area (lstart s) (lsize s)) \<and>
     head_n (lstart s) (platter s 1) = 0"

text \<open>The blocks the kernel can see outside the log.\<close>

lemma log_invD:
  assumes "log_inv s"
  shows "bio_inv s" "ldev s = 1" "log_geom (lstart s) (lsize s)" "0 \<le> lh_n s" "lh_n s \<le> lsize s - 1"
    "inj_on (lh_block s) {..<nat (lh_n s)}" "bdirty s = lh_block s ` {..<nat (lh_n s)}"
    "\<forall>i<nat (lh_n s). lh_block s i < FSSIZE \<and> lh_block s i \<notin> log_area (lstart s) (lsize s)"
    "head_n (lstart s) (platter s 1) = 0"
    "bdirty s \<inter> log_area (lstart s) (lsize s) = {}" "card (bdirty s) = nat (lh_n s)" "card (bdirty s) < NBUF"
  using assms by (auto simp: log_inv_def card_image log_geom_def)

lemma log_view_clean:
  assumes "log_inv s" and "bheld s = Map.empty" and "b \<notin> lh_block s ` {..<nat (lh_n s)}"
  shows "bview s b = platter s 1 b"
  using assms bc.clean_law [of s b] log_invD(1,7) [OF assms(1)] by simp

definition txn_writes :: "'a logst_scheme \<Rightarrow> (u32 \<times> u32 \<times> bytes) list" where
  "txn_writes s = (if lh_n s > 0 then
     commit_writes (lstart s) (nat (lh_n s)) (lh_block s) (bview s) (platter s 1 (lstart s)) else [])"

lemma commit_spec:
  fixes s :: "'a logst_scheme"
  assumes inv: "log_inv s" and h: "bheld s = Map.empty"
  shows "\<exists>s'. commit s = Ret s' \<and> log_inv s' \<and> bheld s' = Map.empty \<and> lh_n s' = 0 \<and>
    platter s' 1 = apply_writes (txn_writes s) (platter s 1) \<and>
    disk_writes s' = disk_writes s @ txn_writes s \<and>
    (\<forall>b. b \<notin> log_area (lstart s) (lsize s) \<longrightarrow> bview s' b = bview s b) \<and>
    lstart s' = lstart s \<and> lsize s' = lsize s \<and> curpid s' = curpid s \<and>
    outstanding s' = outstanding s \<and> committing s' = committing s \<and> logst.more s' = logst.more s"
proof (cases "lh_n s > 0")
  case False
  then have "lh_n s = 0" using log_invD(4) [OF inv] by simp
  then show ?thesis using inv h by (simp add: commit_def txn_writes_def)
next
  case True
  note i = log_invD [OF inv]
  define n where "n = nat (lh_n s)"
  let ?S = "lstart s" and ?blk = "lh_block s" and ?v = "bview s" and ?d = "platter s 1" and ?sz = "lsize s"
  have n: "int n = lh_n s" "int n \<le> ?sz - 1" "int n \<le> int LOGSIZE" "nat (lh_n s) = n"
    using i by (auto simp: n_def log_geom_def)
  have g: "log_geom ?S ?sz" by (fact i(3))
  have blk: "\<forall>i<n. ?blk i < FSSIZE \<and> ?blk i \<notin> log_area ?S ?sz" using i(8) n by simp
  have clean: "?v b = ?d b" if "b \<notin> ?blk ` {..<n}" for b
    using log_view_clean [OF inv h, of b] that n by simp
  have st: "?v ?S = ?d ?S"
    using clean [of ?S] blk start_area(1) [OF g] by fastforce
  have sd: "?S \<notin> bdirty s" using i(10) start_area(1) [OF g] by blast
  let ?H = "head_bytes (lh_n s) ?blk (?d ?S)"
  obtain s1 where 1: "foldo write_log_step [0..<n] s = Ret s1" "bio_inv s1"
      "bio_abs s1 = (bio_abs s)\<lparr>aview := logged ?S n ?blk ?v ?v, adisk := logged ?S n ?blk ?v ?d,
        awrites := disk_writes s @ map (\<lambda>i. (1, laddr ?S i, ?v (?blk i))) [0..<n]\<rparr>"
    using write_log_loop_spec [OF i(1) h i(2,3) n(2)] blk i(7,10,12) n by auto
  note d1 = bio_absD [OF 1(3), of s, simplified]
  have st1: "logged ?S n ?blk ?v e ?S = e ?S" for e
    using logged_outside [OF g n(2), of ?S] by simp
  obtain s2 where 2: "write_head s1 = Ret s2" "bio_inv s2"
      "bio_abs s2 = (bio_abs s1)\<lparr>aview := (bview s1)(?S := ?H), adisk := (platter s1 1)(?S := ?H),
        awrites := disk_writes s1 @ [(1, ?S, ?H)]\<rparr>"
    using write_head_spec [of s1 ?sz] 1(2) d1 i(2,3,12) h n(3) n(1) sd
    by (auto simp: Let_def st1 st)
  note d2 = bio_absD [OF 2(3), of s1, simplified]
  let ?e = "(logged ?S n ?blk ?v ?d)(?S := ?H)" and ?w = "(logged ?S n ?blk ?v ?v)(?S := ?H)"
  obtain s3 where 3: "foldo install_step [0..<n] s2 = Ret s3" "bio_inv s3"
      "bio_abs s3 = (bio_abs s2)\<lparr>aview := replay ?S n ?blk ?w, adisk := replay ?S n ?blk ?e,
        awrites := disk_writes s2 @ map (\<lambda>i. (1, ?blk i, ?w (laddr ?S i))) [0..<n],
        adirty := {}\<rparr>"
    using install_loop_spec [of s2 ?sz n] 2(2) d2 d1 i(2,3,6,7,10,12) h n(2,4) blk by auto
  note d3 = bio_absD [OF 3(3), of s2, simplified]
  have lw: "?w (laddr ?S i) = ?v (?blk i)" "?e (laddr ?S i) = ?v (?blk i)" if "i < n" for i
    using logged_at [OF g n(2) that] laddr_area(2) [OF g, of i] that n by simp_all
  have rs: "replay ?S n ?blk f ?S = f ?S" for f
    using replay_log [OF g n(2) _ start_area(1) [OF g]] blk by blast
  let ?Z = "put32 0 0 ?H"
  obtain s4 where 4: "write_head (s3\<lparr>lh_n := 0\<rparr>) = Ret s4" "bio_inv s4"
      "bio_abs s4 = (bio_abs (s3\<lparr>lh_n := 0\<rparr>))\<lparr>aview := (bview s3)(?S := ?Z), adisk := (platter s3 1)(?S := ?Z),
        awrites := disk_writes s3 @ [(1, ?S, ?Z)]\<rparr>"
    using write_head_spec [of "s3\<lparr>lh_n := 0\<rparr>" ?sz] 3(2) d3 d2 d1 i(2,3) h
    by (auto simp: Let_def head_bytes_def [of 0] rs)
  note d4 = bio_absD [OF 4(3), of "s3\<lparr>lh_n := 0\<rparr>", simplified]
  have "commit s = Ret s4"
    using True 1(1) 2(1) 3(1) 4(1) d1 d2 n by (simp add: commit_def write_log_def install_trans_def)
  moreover have mw: "map (\<lambda>i. (1, ?blk i, ?w (laddr ?S i))) [0..<n] = map (\<lambda>i. (1, ?blk i, ?v (?blk i))) [0..<n]"
    using lw by (intro map_cong) simp_all
  have tw: "txn_writes s = map (\<lambda>i. (1, laddr ?S i, ?v (?blk i))) [0..<n] @ [(1, ?S, ?H)] @
      map (\<lambda>i. (1, ?blk i, ?w (laddr ?S i))) [0..<n] @ [(1, ?S, ?Z)]"
    unfolding mw txn_writes_def commit_writes_def using True by (simp only: n if_True)
  have "disk_writes s4 = disk_writes s @ txn_writes s"
    unfolding tw using d4 d3 d2 d1 by simp
  moreover have me: "map (\<lambda>i. (1, ?blk i, ?e (laddr ?S i))) [0..<n] = map (\<lambda>i. (1, ?blk i, ?v (?blk i))) [0..<n]"
    using lw by (intro map_cong) simp_all
  have "apply_writes (map (\<lambda>i. (1, ?blk i, ?v (?blk i))) [0..<n]) ?e = replay ?S n ?blk ?e"
    using replay_writes [OF g n(2), of ?blk ?e] blk unfolding me by blast
  then have "apply_writes (txn_writes s) ?d = (replay ?S n ?blk ?e)(?S := ?Z)"
    unfolding tw mw
    by (simp only: apply_writes_append apply_writes_Cons apply_writes_Nil logged_writes)
  then have "platter s4 1 = apply_writes (txn_writes s) ?d"
    using d4(2) d3(2) by simp
  moreover have "bview s4 b = bview s b" if b: "b \<notin> log_area ?S ?sz" for b
  proof -
    have "b \<noteq> ?S" using b start_area(1) [OF g] by blast
    moreover have "replay ?S n ?blk ?w b = ?v b"
      using replay_home [OF g n(2), of ?blk ?w ?v b] replay_other [of b ?blk n ?S ?w] blk lw
        logged_outside [OF g n(2), of b] b \<open>b \<noteq> ?S\<close>
      by (cases "b \<in> ?blk ` {..<n}") auto
    ultimately show ?thesis using d4 d3 by simp
  qed
  moreover have "length (?d ?S) = BSIZE" using bio_inv_quiet [OF i(1)] by (simp add: quiet_def)
  then have "log_inv s4"
    using 4(2) d4 d3 d2 d1 i(2,3) by (simp add: log_inv_def head_n_def log_geom_def)
  ultimately show ?thesis
    using d4 d3 d2 d1 h by simp
qed

subsection \<open>Recording a block in the transaction\<close>

lemma log_scan_spec:
  "i \<le> log_scan blk b k i \<and> log_scan blk b k i \<le> i + k \<and>
   (\<forall>m. i \<le> m \<and> m < log_scan blk b k i \<longrightarrow> blk m \<noteq> b) \<and>
   (log_scan blk b k i < i + k \<longrightarrow> blk (log_scan blk b k i) = b)"
proof (induction blk b k i rule: log_scan.induct)
  case (2 blk b k i)
  show ?case
  proof (cases "blk i = b")
    case False
    have "blk m \<noteq> b" if "i \<le> m" "m < log_scan blk b k (Suc i)" for m
      using 2 [OF False] that False by (cases "m = i") auto
    then show ?thesis using 2 [OF False] False by auto
  qed auto
qed auto

lemma log_scan_cases:
  fixes blk :: "nat \<Rightarrow> u32" and n :: nat
  obtains (found) i where "log_scan blk b n 0 = i" "i < n" "blk i = b"
    | (fresh) "log_scan blk b n 0 = n" "b \<notin> blk ` {..<n}"
proof (cases "log_scan blk b n 0 < n")
  case True
  then show thesis using log_scan_spec [of 0 blk b n] found by simp
next
  case False
  then have "log_scan blk b n 0 = n" using log_scan_spec [of 0 blk b n] by simp
  moreover from this have "b \<notin> blk ` {..<n}" using log_scan_spec [of 0 blk b n] by auto
  ultimately show thesis by (rule fresh)
qed

lemma log_write_spec:
  fixes s :: "'a logst_scheme"
  assumes inv: "log_inv s" and h: "bheld s i = Some b" and b: "b \<notin> log_area (lstart s) (lsize s)"
    and out: "1 \<le> outstanding s" and room: "lh_n s < lsize s - 1"
  shows "\<exists>s'. log_write i s = Ret s' \<and> log_inv s' \<and> bview s' = bview s \<and> platter s' 1 = platter s 1 \<and>
    disk_writes s' = disk_writes s \<and> bheld s' = bheld s \<and> bdirty s' = insert b (bdirty s) \<and>
    lstart s' = lstart s \<and> lsize s' = lsize s \<and> outstanding s' = outstanding s \<and>
    committing s' = committing s \<and> curpid s' = curpid s \<and> logst.more s' = logst.more s \<and>
    lh_n s' = (if b \<in> bdirty s then lh_n s else lh_n s + 1)"
proof -
  note i = log_invD [OF inv] and hb = held_bufD [OF log_invD(1) [OF inv] h]
  define n where "n = nat (lh_n s)"
  have n: "nat (lh_n s) = n" "int n = lh_n s" "n < 29" using i room by (auto simp: n_def log_geom_def)
  let ?t = "\<lambda>blk m. s\<lparr>lh_block := blk, lh_n := m\<rparr>"
  have run: "log_write i s = Ret (pin_buf i (?t blk m))" if
      "blk = (lh_block s)(log_scan (lh_block s) b n 0 := b)"
      "m = (if int (log_scan (lh_block s) b n 0) = lh_n s then lh_n s + 1 else lh_n s)" for blk m
    using that out room i(3) hb(3) n(1) by (simp add: log_write_def log_geom_def Let_def)
  have pin: "bio_inv (pin_buf i (?t blk m)) \<and>
      bio_abs (pin_buf i (?t blk m)) = (bio_abs (?t blk m))\<lparr>adirty := insert b (bdirty s)\<rparr>" for blk m
    using pin_buf_spec [of "?t blk m" i b] i(1) h by simp
  have fields: "bview (pin_buf i (?t blk m)) = bview s \<and> platter (pin_buf i (?t blk m)) 1 = platter s 1 \<and>
      disk_writes (pin_buf i (?t blk m)) = disk_writes s \<and> bheld (pin_buf i (?t blk m)) = bheld s \<and>
      bdirty (pin_buf i (?t blk m)) = insert b (bdirty s) \<and> lstart (pin_buf i (?t blk m)) = lstart s \<and>
      lsize (pin_buf i (?t blk m)) = lsize s \<and> outstanding (pin_buf i (?t blk m)) = outstanding s \<and>
      committing (pin_buf i (?t blk m)) = committing s \<and> curpid (pin_buf i (?t blk m)) = curpid s \<and>
      logst.more (pin_buf i (?t blk m)) = logst.more s \<and> ldev (pin_buf i (?t blk m)) = ldev s \<and>
      lh_n (pin_buf i (?t blk m)) = m \<and> lh_block (pin_buf i (?t blk m)) = blk" for blk m
    using bio_absD [OF conjunct2 [OF pin [where blk = blk and m = m]], of "?t blk m"] by simp
  have inv': "log_inv (pin_buf i (?t blk m))" if
      "0 \<le> m" "m \<le> lsize s - 1" "inj_on blk {..<nat m}" "insert b (bdirty s) = blk ` {..<nat m}"
      "\<forall>j<nat m. blk j < FSSIZE \<and> blk j \<notin> log_area (lstart s) (lsize s)" for blk m
    using pin [where blk = blk and m = m] fields [where blk = blk and m = m] i(2,3,9) that by (simp add: log_inv_def)
  show ?thesis
  proof (cases rule: log_scan_cases [of "lh_block s" b n])
    case (found j)
    then have "(lh_block s)(j := b) = lh_block s" by auto
    then have r: "log_write i s = Ret (pin_buf i (?t (lh_block s) (lh_n s)))"
      using run found n by auto
    have "b \<in> lh_block s ` {..<n}" using found(2,3) by blast
    then have bd: "b \<in> bdirty s" using i(7) n(1) by simp
    then have "log_inv (pin_buf i (?t (lh_block s) (lh_n s)))"
      using i by (intro inv') auto
    then show ?thesis using r fields [where blk = "lh_block s" and m = "lh_n s"] bd by auto
  next
    case fresh
    let ?blk = "(lh_block s)(n := b)"
    have r: "log_write i s = Ret (pin_buf i (?t ?blk (lh_n s + 1)))"
      using run fresh n by auto
    have nm: "nat (lh_n s + 1) = Suc n" using n by simp
    have bd: "b \<notin> bdirty s" using i(7) n fresh by auto
    have "log_inv (pin_buf i (?t ?blk (lh_n s + 1)))"
    proof (rule inv')
      show "inj_on ?blk {..<nat (lh_n s + 1)}"
        unfolding nm using i(6) n fresh by (auto simp: inj_on_def lessThan_Suc)
      show "insert b (bdirty s) = ?blk ` {..<nat (lh_n s + 1)}"
        unfolding nm using i(7) n by (auto simp: lessThan_Suc)
      show "\<forall>j<nat (lh_n s + 1). ?blk j < FSSIZE \<and> ?blk j \<notin> log_area (lstart s) (lsize s)"
        unfolding nm using i(8) n b hb(5) by (auto simp: less_Suc_eq)
    qed (use i room in auto)
    then show ?thesis using r fields [where blk = ?blk and m = "lh_n s + 1"] bd by auto
  qed
qed

subsection \<open>Reboot\<close>

text \<open>
  The machine comes up with an empty cache on whatever is on the disk; \<open>initlog\<close> finds the log
  through the superblock and recovers.
\<close>

definition booted :: "u32 \<Rightarrow> int \<Rightarrow> disk \<Rightarrow> 'a logst_scheme \<Rightarrow> bool" where
  "booted start sz d r \<longleftrightarrow> fresh_cache r \<and> quiet r \<and> platter r 1 = d \<and>
     sb_logstart (sb_of_bytes (d 1)) = start \<and> sint (sb_nlog (sb_of_bytes (d 1))) = sz"

lemma initlog_spec:
  fixes r :: "'a logst_scheme"
  assumes bt: "booted start sz d r" and g: "log_geom start sz" and ok: "log_disk_ok start sz d"
  shows "\<exists>r'. initlog 1 (binit r) = Ret r' \<and> log_inv r' \<and> bheld r' = Map.empty \<and> lh_n r' = 0 \<and>
    lstart r' = start \<and> lsize r' = sz \<and> outstanding r' = outstanding r \<and> committing r' = committing r \<and>
    disk_writes r' = disk_writes r @ recovery_writes start d \<and>
    (\<forall>b. b \<notin> log_area start sz \<longrightarrow> platter r' 1 b = logical start d b) \<and> bview r' = platter r' 1"
proof -
  have b: "fresh_cache r" "quiet r" "platter r 1 = d" "sb_logstart (sb_of_bytes (d 1)) = start"
      "sint (sb_nlog (sb_of_bytes (d 1))) = sz"
    using bt by (auto simp: booted_def)
  let ?r = "binit r"
  have r: "bio_inv ?r" "bview ?r = d" "platter ?r 1 = d" "bdirty ?r = {}" "bheld ?r = Map.empty"
      "disk_writes ?r = disk_writes r"
    using binit_inv [OF b(1,2)] b(3) by (simp_all add: bio_abs_def)
  obtain i s1 s2 where 1: "bread 1 1 ?r = Ret (i, s1)" "data_of i s1 = d 1" "brelse i s1 = Ret s2"
      "bio_inv s2" "bio_abs s2 = bio_abs ?r"
    using bc.read_block [OF r(1), of 1] r by auto
  note d2 = bio_absD [OF 1(5) bio_abs_simps(6)]
  let ?s = "s2\<lparr>lstart := start, lsize := sz, ldev := 1\<rparr>"
  have i: "initlog 1 ?r = recover_from_log ?s"
    using 1(1-3) b(4,5) by (simp add: initlog_def readsb_def Let_def)
  have s: "bio_inv ?s" "bheld ?s = Map.empty" "bdirty ?s = {}" "platter ?s 1 = d" "disk_writes ?s = disk_writes r"
    using 1(4) bio_inv_cong [of ?s s2] bheld_cong [of ?s s2] bdirty_cong [of ?s s2] d2 r by simp_all
  obtain r' where r': "recover_from_log ?s = Ret r'" "bio_inv r'" "bheld r' = Map.empty" "bdirty r' = {}"
      "platter r' 1 = (logical start d)(start := put32 0 0 (d start))"
      "disk_writes r' = disk_writes r @ recovery_writes start d"
      "lh_n r' = 0" "ldev r' = 1" "lstart r' = start" "lsize r' = sz"
      "outstanding r' = outstanding s2" "committing r' = committing s2"
    using recover_from_log_spec [OF s(1-3), of sz] s(4,5) g ok by auto
  have "length (d start) = BSIZE" using b(2,3) by (auto simp: quiet_def)
  then have "log_inv r'"
    using r' g by (simp add: log_inv_def head_n_def) (simp add: log_geom_def)
  moreover have "bview r' = platter r' 1"
    using bc.clean_law [OF r'(2)] r'(3,4) by (auto simp: fun_eq_iff)
  moreover have "platter r' 1 b = logical start d b" if "b \<notin> log_area start sz" for b
    using that r'(5) start_area(1) [OF g] by auto
  moreover have "outstanding r' = outstanding r" "committing r' = committing r"
    using r'(11,12) d2(9,10) logst_of_more(3,4) [OF binit_frame(8) [of r]] by simp_all
  ultimately show ?thesis using i r' by auto
qed

lemma end_op_commits:
  fixes s :: "'a logst_scheme"
  assumes inv: "log_inv s" and h: "bheld s = Map.empty" and c: "\<not> committing s" "outstanding s = 1"
  shows "\<exists>s'. end_op s = Ret s' \<and> log_inv s' \<and> lh_n s' = 0 \<and> outstanding s' = 0 \<and> \<not> committing s' \<and>
    disk_writes s' = disk_writes s @ txn_writes s \<and>
    (\<forall>b. b \<notin> log_area (lstart s) (lsize s) \<longrightarrow> platter s' 1 b = bview s b \<and> bview s' b = bview s b) \<and>
    bheld s' = Map.empty \<and> lstart s' = lstart s \<and> lsize s' = lsize s \<and> curpid s' = curpid s \<and>
    logst.more s' = logst.more s"
proof -
  let ?s = "s\<lparr>outstanding := 0, committing := True\<rparr>"
  have "log_inv ?s" using inv by (simp add: log_inv_def)
  then obtain t where t: "commit ?s = Ret t" "log_inv t" "bheld t = Map.empty" "lh_n t = 0"
      "disk_writes t = disk_writes s @ txn_writes ?s" "outstanding t = 0"
      "\<forall>b. b \<notin> log_area (lstart s) (lsize s) \<longrightarrow> bview t b = bview s b"
      "lstart t = lstart s" "lsize t = lsize s" "curpid t = curpid s" "logst.more t = logst.more s"
    using commit_spec [of ?s] h by auto
  have "platter t 1 b = bview t b" for b
    using log_view_clean [OF t(2,3)] t(4) by simp
  moreover have "end_op s = Ret (t\<lparr>committing := False\<rparr>)"
    using t(1) c by (simp add: end_op_def Let_def)
  moreover have "log_inv (t\<lparr>committing := False\<rparr>)" using t(2) by (simp add: log_inv_def)
  moreover have "txn_writes ?s = txn_writes s" by (simp add: txn_writes_def)
  ultimately show ?thesis using t by simp
qed

lemma crash_then_recover:
  fixes s :: "'a logst_scheme" and r :: "'b logst_scheme"
  assumes inv: "log_inv s" and h: "bheld s = Map.empty"
    and r: "booted (lstart s) (lsize s) (apply_writes (take k (txn_writes s)) (platter s 1)) r"
  shows "\<exists>r'. initlog 1 (binit r) = Ret r' \<and> log_inv r' \<and> bview r' = platter r' 1 \<and>
    (\<forall>b. b \<notin> log_area (lstart s) (lsize s) \<longrightarrow>
       platter r' 1 b = (if k \<le> nat (lh_n s) then platter s 1 b else bview s b))"
proof -
  note i = log_invD [OF inv]
  let ?d = "apply_writes (take k (txn_writes s)) (platter s 1)" and ?n = "nat (lh_n s)"
  have len: "length (platter s 1 (lstart s)) = BSIZE" using bio_inv_quiet [OF i(1)] by (simp add: quiet_def)
  have "log_disk_ok (lstart s) (lsize s) ?d \<and> (\<forall>b. b \<notin> log_area (lstart s) (lsize s) \<longrightarrow>
      logical (lstart s) ?d b = (if k \<le> ?n then platter s 1 b else bview s b))"
  proof (cases "lh_n s > 0")
    case False
    then have "txn_writes s = []" "lh_n s = 0" using i(4) by (simp_all add: txn_writes_def)
    then show ?thesis
      using i(3,9) log_view_clean [OF inv h] by (simp add: log_disk_ok_def logical_def log_geom_def)
  next
    case True
    let ?w = "commit_writes (lstart s) ?n (lh_block s) (bview s) (platter s 1 (lstart s))"
    have tw: "take k (txn_writes s) = take (min k (2 * ?n + 2)) ?w"
      using True by (simp add: txn_writes_def take_all_iff min_def)
    have v: "bview s b = platter s 1 b" if "b \<notin> lh_block s ` {..<?n}" for b
      using log_view_clean [OF inv h that] .
    have n: "int ?n \<le> lsize s - 1" using i(4,5) by simp
    have m: "(min k (2 * ?n + 2) \<le> ?n) = (k \<le> ?n)" by auto
    show ?thesis
      unfolding tw using crash_disk(1,2) [OF i(3) n i(8,9) len v, of "min k (2 * ?n + 2)"]
      unfolding m by auto
  qed
  then show ?thesis using initlog_spec [OF r i(3)] by auto
qed

section \<open>Contract of the log for the file system\<close>

text \<open>
  The file system sees blocks, the set of blocks its transaction has recorded, and the buffers it
  holds. \<open>writable\<close> says which blocks may be recorded now, \<open>lcap\<close> how many.
\<close>

record 'r ajournal =
  jview :: "u32 \<Rightarrow> bytes"
  jdisk :: "u32 \<Rightarrow> bytes"
  jlog :: "u32 set"
  jheld :: "nat \<Rightarrow> u32 option"
  jrest :: 'r

locale journal =
  fixes bread :: "u32 \<Rightarrow> 's \<Rightarrow> (nat \<times> 's) outcome"
    and brelse :: "nat \<Rightarrow> 's \<Rightarrow> 's outcome"
    and lwrite :: "nat \<Rightarrow> 's \<Rightarrow> 's outcome"
    and get :: "nat \<Rightarrow> 's \<Rightarrow> bytes"
    and put :: "nat \<Rightarrow> bytes \<Rightarrow> 's \<Rightarrow> 's"
    and inv :: "'s \<Rightarrow> bool"
    and abs :: "'s \<Rightarrow> 'r ajournal"
    and writable :: "'r \<Rightarrow> u32 \<Rightarrow> bool"
    and lcap :: "'r \<Rightarrow> nat"
    and nblocks :: u32
    and cap :: nat
  assumes bread_law:
      "inv s \<Longrightarrow> b < nblocks \<Longrightarrow> b \<notin> ran (jheld (abs s)) \<Longrightarrow>
       b \<in> jlog (abs s) \<or> card (dom (jheld (abs s))) + card (jlog (abs s)) < cap \<Longrightarrow>
       \<exists>i s'. bread b s = Ret (i, s') \<and> inv s' \<and> jheld (abs s) i = None \<and>
         abs s' = (abs s)\<lparr>jheld := (jheld (abs s))(i \<mapsto> b)\<rparr>"
    and get_law: "inv s \<Longrightarrow> jheld (abs s) i = Some b \<Longrightarrow> get i s = jview (abs s) b"
    and put_law:
      "inv s \<Longrightarrow> jheld (abs s) i = Some b \<Longrightarrow> length d = BSIZE \<Longrightarrow>
       inv (put i d s) \<and> abs (put i d s) = (abs s)\<lparr>jview := (jview (abs s))(b := d)\<rparr>"
    and lwrite_law:
      "inv s \<Longrightarrow> jheld (abs s) i = Some b \<Longrightarrow> writable (jrest (abs s)) b \<Longrightarrow>
       card (jlog (abs s)) < lcap (jrest (abs s)) \<Longrightarrow>
       \<exists>s'. lwrite i s = Ret s' \<and> inv s' \<and> abs s' = (abs s)\<lparr>jlog := insert b (jlog (abs s))\<rparr>"
    and brelse_law:
      "inv s \<Longrightarrow> jheld (abs s) i = Some b \<Longrightarrow>
       b \<in> jlog (abs s) \<or> jview (abs s) b = jdisk (abs s) b \<Longrightarrow>
       \<exists>s'. brelse i s = Ret s' \<and> inv s' \<and> abs s' = (abs s)\<lparr>jheld := (jheld (abs s))(i := None)\<rparr>"
    and clean_law:
      "inv s \<Longrightarrow> b \<notin> jlog (abs s) \<Longrightarrow> b \<notin> ran (jheld (abs s)) \<Longrightarrow> jview (abs s) b = jdisk (abs s) b"
    and length_law: "inv s \<Longrightarrow> length (jview (abs s) b) = BSIZE"
begin

text \<open>A block can be read, whatever the file system then does with the buffer.\<close>

lemma peek:
  assumes "inv s" and "b < nblocks" and "b \<notin> ran (jheld (abs s))"
    and "b \<in> jlog (abs s) \<or> card (dom (jheld (abs s))) + card (jlog (abs s)) < cap"
  shows "\<exists>i s1 s2. bread b s = Ret (i, s1) \<and> inv s1 \<and> jheld (abs s) i = None \<and>
    get i s1 = jview (abs s) b \<and> abs s1 = (abs s)\<lparr>jheld := (jheld (abs s))(i \<mapsto> b)\<rparr> \<and>
    brelse i s1 = Ret s2 \<and> inv s2 \<and> abs s2 = abs s"
proof -
  obtain i s1 where 1: "bread b s = Ret (i, s1)" "inv s1" "jheld (abs s) i = None"
      "abs s1 = (abs s)\<lparr>jheld := (jheld (abs s))(i \<mapsto> b)\<rparr>"
    using bread_law [OF assms] by auto
  have "b \<in> jlog (abs s1) \<or> jview (abs s1) b = jdisk (abs s1) b"
    using clean_law [of s b] assms 1 by auto
  then obtain s2 where 2: "brelse i s1 = Ret s2" "inv s2"
      "abs s2 = (abs s1)\<lparr>jheld := (jheld (abs s1))(i := None)\<rparr>"
    using brelse_law [of s1 i b] 1 by auto
  have "(jheld (abs s))(i := None) = jheld (abs s)" using 1(3) by (simp add: fun_upd_idem)
  then have "abs s2 = abs s" using 2(3) 1(4) by simp
  moreover have "get i s1 = jview (abs s) b" using get_law [of s1 i b] 1 by simp
  ultimately show ?thesis using 1 2 by blast
qed

text \<open>The pattern of every update: read the block, change it, record it, release it.\<close>

lemma record_block:
  assumes "inv s" and "jheld (abs s) i = Some b" and "length d = BSIZE"
    and "writable (jrest (abs s)) b" and "card (jlog (abs s)) < lcap (jrest (abs s))"
  shows "\<exists>s2 s3. lwrite i (put i d s) = Ret s2 \<and> brelse i s2 = Ret s3 \<and> inv s3 \<and>
    inv s2 \<and> abs s2 = (abs s)\<lparr>jview := (jview (abs s))(b := d), jlog := insert b (jlog (abs s))\<rparr> \<and>
    abs s3 = (abs s)\<lparr>jview := (jview (abs s))(b := d), jlog := insert b (jlog (abs s)),
      jheld := (jheld (abs s))(i := None)\<rparr>"
proof -
  have p: "inv (put i d s)" "abs (put i d s) = (abs s)\<lparr>jview := (jview (abs s))(b := d)\<rparr>"
    using put_law assms by blast+
  then obtain s2 where 2: "lwrite i (put i d s) = Ret s2" "inv s2"
      "abs s2 = (abs s)\<lparr>jview := (jview (abs s))(b := d), jlog := insert b (jlog (abs s))\<rparr>"
    using lwrite_law [of "put i d s" i b] assms by auto
  obtain s3 where "brelse i s2 = Ret s3" "inv s3" "abs s3 = (abs s2)\<lparr>jheld := (jheld (abs s2))(i := None)\<rparr>"
    using brelse_law [of s2 i b] 2 assms(2) by auto
  then show ?thesis using 2 by auto
qed

lemma update_block:
  assumes "inv s" and "b < nblocks" and "b \<notin> ran (jheld (abs s))"
    and "b \<in> jlog (abs s) \<or> card (dom (jheld (abs s))) + card (jlog (abs s)) < cap"
    and "writable (jrest (abs s)) b" and "card (jlog (abs s)) < lcap (jrest (abs s))"
  shows "\<exists>i s1. bread b s = Ret (i, s1) \<and> inv s1 \<and> get i s1 = jview (abs s) b \<and> jheld (abs s) i = None \<and>
    abs s1 = (abs s)\<lparr>jheld := (jheld (abs s))(i \<mapsto> b)\<rparr> \<and>
    (\<forall>d. length d = BSIZE \<longrightarrow> (\<exists>s2 s3. lwrite i (put i d s1) = Ret s2 \<and> brelse i s2 = Ret s3 \<and> inv s3 \<and>
      abs s3 = (abs s)\<lparr>jview := (jview (abs s))(b := d), jlog := insert b (jlog (abs s))\<rparr>))"
proof -
  obtain i s1 where 1: "bread b s = Ret (i, s1)" "inv s1" "jheld (abs s) i = None"
      "abs s1 = (abs s)\<lparr>jheld := (jheld (abs s))(i \<mapsto> b)\<rparr>"
    using bread_law [OF assms(1-4)] by auto
  have u: "(jheld (abs s))(i := None) = jheld (abs s)" using 1(3) by (simp add: fun_upd_idem)
  have "\<exists>s2 s3. lwrite i (put i d s1) = Ret s2 \<and> brelse i s2 = Ret s3 \<and> inv s3 \<and>
      abs s3 = (abs s)\<lparr>jview := (jview (abs s))(b := d), jlog := insert b (jlog (abs s))\<rparr>"
    if len: "length d = BSIZE" for d
  proof -
    have r: "jheld (abs s1) i = Some b" "writable (jrest (abs s1)) b"
        "card (jlog (abs s1)) < lcap (jrest (abs s1))"
      using 1(4) assms(5,6) by simp_all
    obtain s2 s3 where "lwrite i (put i d s1) = Ret s2" "brelse i s2 = Ret s3" "inv s3"
      "abs s3 = (abs s1)\<lparr>jview := (jview (abs s1))(b := d), jlog := insert b (jlog (abs s1)),
        jheld := (jheld (abs s1))(i := None)\<rparr>"
      using record_block [OF 1(2) r(1) len r(2,3)] by blast
    then show ?thesis using 1(4) u by auto
  qed
  moreover have "get i s1 = jview (abs s) b" using get_law [of s1 i b] 1 by simp
  ultimately show ?thesis using 1 by blast
qed

end

type_synonym log_rest = "u32 \<times> int \<times> int \<times> bool"

definition log_abs :: "'a logst_scheme \<Rightarrow> (int \<times> log_rest \<times> 'a) ajournal" where
  "log_abs s = \<lparr>jview = bview s, jdisk = platter s 1, jlog = bdirty s, jheld = bheld s,
     jrest = (curpid s, (lstart s, lsize s, outstanding s, committing s), logst.more s)\<rparr>"

definition log_writable :: "int \<times> log_rest \<times> 'a \<Rightarrow> u32 \<Rightarrow> bool" where
  "log_writable r b = (case r of (_, (st, sz, out, _), _) \<Rightarrow> b \<notin> log_area st sz \<and> 1 \<le> out)"

definition log_cap :: "int \<times> log_rest \<times> 'a \<Rightarrow> nat" where
  "log_cap r = (case r of (_, (_, sz, _, _), _) \<Rightarrow> nat (sz - 1))"

lemma log_abs_simps [simp]:
  "jview (log_abs s) = bview s" "jdisk (log_abs s) = platter s 1" "jlog (log_abs s) = bdirty s"
  "jheld (log_abs s) = bheld s"
  "jrest (log_abs s) = (curpid s, (lstart s, lsize s, outstanding s, committing s), logst.more s)"
  by (simp_all add: log_abs_def)

text \<open>A cache operation that leaves the disk, the dirty blocks and the log record alone.\<close>

lemma log_lift:
  fixes s s' :: "'a logst_scheme"
  assumes inv: "log_inv s" and b: "bio_inv s'" "bio_abs s' = X"
    and X: "arest X = (curpid s, diskst.more s)" "adisk X = platter s 1" "adirty X = bdirty s"
  shows "log_inv s' \<and> log_abs s' = (log_abs s)\<lparr>jview := aview X, jheld := aheld X\<rparr>"
proof -
  note d = bio_absD [OF b(2), of s, OF X(1)]
  have "log_inv s'" using inv b(1) d X(2,3) by (simp add: log_inv_def)
  then show ?thesis using d X(2,3) by (simp add: log_abs_def)
qed

lemma log_bread:
  fixes s :: "'a logst_scheme"
  assumes "log_inv s" and "b < FSSIZE" and "b \<notin> ran (bheld s)"
    and "b \<in> bdirty s \<or> card (dom (bheld s)) + card (bdirty s) < NBUF"
  shows "\<exists>i s'. bread 1 b s = Ret (i, s') \<and> log_inv s' \<and> bheld s i = None \<and>
    log_abs s' = (log_abs s)\<lparr>jheld := (bheld s)(i \<mapsto> b)\<rparr>"
proof -
  obtain i s' where r: "bread 1 b s = Ret (i, s')" "bio_inv s'" "bheld s i = None"
      "bio_abs s' = (bio_abs s)\<lparr>aheld := (bheld s)(i \<mapsto> b)\<rparr>"
    using bread_spec [OF log_invD(1) [OF assms(1)] assms(2-4)] by blast
  show ?thesis
    using log_lift [OF assms(1) r(2,4)] r(1,3) by (simp add: log_abs_def)
qed

lemma log_set_data:
  fixes s :: "'a logst_scheme"
  assumes "log_inv s" and "bheld s i = Some b" and "length d = BSIZE"
  shows "log_inv (set_data i d s) \<and> log_abs (set_data i d s) = (log_abs s)\<lparr>jview := (bview s)(b := d)\<rparr>"
proof -
  have r: "bio_inv (set_data i d s)" "bio_abs (set_data i d s) = (bio_abs s)\<lparr>aview := (bview s)(b := d)\<rparr>"
    using set_data_spec [OF log_invD(1) [OF assms(1)] assms(2,3)] by blast+
  show ?thesis using log_lift [OF assms(1) r] by (simp add: log_abs_def)
qed

lemma log_brelse:
  fixes s :: "'a logst_scheme"
  assumes "log_inv s" and "bheld s i = Some b" and "b \<in> bdirty s \<or> bview s b = platter s 1 b"
  shows "\<exists>s'. brelse i s = Ret s' \<and> log_inv s' \<and> log_abs s' = (log_abs s)\<lparr>jheld := (bheld s)(i := None)\<rparr>"
proof -
  obtain s' where r: "brelse i s = Ret s'" "bio_inv s'" "bio_abs s' = (bio_abs s)\<lparr>aheld := (bheld s)(i := None)\<rparr>"
    using brelse_spec [OF log_invD(1) [OF assms(1)] assms(2,3)] by blast
  show ?thesis using log_lift [OF assms(1) r(2,3)] r(1) by (simp add: log_abs_def)
qed

lemma log_log_write:
  fixes s :: "'a logst_scheme"
  assumes "log_inv s" and "bheld s i = Some b" and "log_writable (jrest (log_abs s)) b"
    and "card (bdirty s) < log_cap (jrest (log_abs s))"
  shows "\<exists>s'. log_write i s = Ret s' \<and> log_inv s' \<and> log_abs s' = (log_abs s)\<lparr>jlog := insert b (bdirty s)\<rparr>"
proof -
  have "b \<notin> log_area (lstart s) (lsize s)" "1 \<le> outstanding s" "lh_n s < lsize s - 1"
    using assms(3,4) log_invD(4,11) [OF assms(1)] by (auto simp: log_writable_def log_cap_def)
  from log_write_spec [OF assms(1,2) this]
  show ?thesis by (auto simp: log_abs_def)
qed

lemma log_clean:
  "log_inv s \<Longrightarrow> b \<notin> bdirty s \<Longrightarrow> b \<notin> ran (bheld s) \<Longrightarrow> bview s b = platter s 1 b"
  by (rule bio_clean [OF log_invD(1)])

interpretation jn: journal "bread 1" brelse log_write "\<lambda>i s. bdata (bufs s i)" set_data
    log_inv log_abs log_writable log_cap FSSIZE NBUF
  by unfold_locales
    (simp_all only: log_abs_simps(1-4) log_bread bio_get log_invD(1) log_set_data log_brelse
       log_log_write log_clean bio_length simp_thms)

section \<open>A running example\<close>

text \<open>
  A disk laid out by \<^verbatim>\<open>mkfs\<close> with its defaults, otherwise empty, and one operation on it
  that has recorded block 600.
\<close>

definition demo_sb :: bytes where
  "demo_sb = put32 0 1000 (put32 4 941 (put32 8 200 (put32 12 30 (put32 16 2 (put32 20 32
     (put32 24 58 (replicate BSIZE 0)))))))"

definition demo_disk :: disk where
  "demo_disk b = (if b = 1 then demo_sb else replicate BSIZE 0)"

definition demo_boot :: logst where
  "demo_boot = \<lparr>bufs = \<lambda>_. zero_buf, idequeue = None, havedisk1 = True, ide_select = (0, 0),
     ide_error = False, platter = \<lambda>_. demo_disk, disk_writes = [], curpid = 1, lstart = 0,
     lsize = 0, outstanding = 0, committing = False, ldev = 0, lh_n = 0, lh_block = \<lambda>_. 0\<rparr>"

lemma get32_replicate_0: "i + 3 < n \<Longrightarrow> get32 (replicate n 0) i = 0"
  by (rule bit_word_eqI) (simp add: get32_def bit_le32)

lemma demo_sb_fields:
  "length demo_sb = BSIZE" "sb_logstart (sb_of_bytes demo_sb) = 2" "sb_nlog (sb_of_bytes demo_sb) = 30"
  by (simp_all add: demo_sb_def sb_of_bytes_def get32_put32_other)

lemma demo_geom: "log_geom 2 30"
  by (simp add: log_geom_def)

lemma demo_boot_on:
  assumes "d 1 = demo_sb" and "\<And>b. length (d b) = BSIZE"
  shows "booted 2 30 d (demo_boot\<lparr>platter := \<lambda>_. d\<rparr>)"
  using assms by (simp add: booted_def fresh_cache_def quiet_def demo_boot_def demo_sb_fields zero_buf_def)

lemma demo_disk_len: "length (demo_disk b) = BSIZE"
  by (simp add: demo_disk_def demo_sb_fields)

lemma demo_disk_ok: "log_disk_ok 2 30 demo_disk" "head_n 2 demo_disk = 0"
  by (simp_all add: log_disk_ok_def head_n_def demo_disk_def get32_replicate_0)

lemma demo_started:
  "\<exists>s. initlog 1 (binit demo_boot) = Ret s \<and> log_inv s \<and> bheld s = Map.empty \<and> lh_n s = 0 \<and>
     lstart s = 2 \<and> lsize s = 30 \<and> outstanding s = 0 \<and> \<not> committing s \<and>
     (\<forall>b. b \<notin> log_area 2 30 \<longrightarrow> platter s 1 b = demo_disk b) \<and> bview s = platter s 1"
proof -
  have d: "demo_boot\<lparr>platter := \<lambda>_. demo_disk\<rparr> = demo_boot" by (simp add: demo_boot_def)
  have "booted 2 30 demo_disk demo_boot"
    using demo_boot_on [of demo_disk] demo_disk_len unfolding d by (simp add: demo_disk_def)
  from initlog_spec [OF this demo_geom demo_disk_ok(1)] show ?thesis
    by (auto simp: logical_def demo_disk_ok(2) demo_boot_def)
qed

lemma demo_outside: "600 \<notin> log_area 2 30" "1 \<notin> log_area 2 30" "0 \<notin> log_area 2 30"
  by (simp_all add: log_area_def)

lemma demo_txn:
  "\<exists>s :: logst. log_inv s \<and> bheld s = Map.empty \<and> bdirty s = {600} \<and> lh_n s = 1 \<and> lstart s = 2 \<and>
     lsize s = 30 \<and> outstanding s = 1 \<and> \<not> committing s \<and> bview s 600 = replicate BSIZE 7 \<and>
     (\<forall>b. b \<notin> log_area 2 30 \<longrightarrow> platter s 1 b = demo_disk b)"
proof -
  obtain s0 :: logst where 0: "log_inv s0" "bheld s0 = Map.empty" "lh_n s0 = 0" "lstart s0 = 2"
      "lsize s0 = 30" "outstanding s0 = 0" "\<not> committing s0"
      "\<forall>b. b \<notin> log_area 2 30 \<longrightarrow> platter s0 1 b = demo_disk b"
    using demo_started by blast
  let ?s = "s0\<lparr>outstanding := 1\<rparr>"
  have inv: "log_inv ?s" using 0(1) by (simp add: log_inv_def)
  have d: "bdirty ?s = {}" using log_invD(7) [OF 0(1)] 0(3) by simp
  have w: "log_writable (jrest (log_abs ?s)) 600" "log_cap (jrest (log_abs ?s)) = 29"
    using 0(4,5) demo_outside by (simp_all add: log_writable_def log_cap_def)
  obtain i s1 where "\<forall>x. length x = BSIZE \<longrightarrow> (\<exists>s2 s3. log_write i (set_data i x s1) = Ret s2 \<and>
      brelse i s2 = Ret s3 \<and> log_inv s3 \<and> log_abs s3 = (log_abs ?s)\<lparr>jview := (bview ?s)(600 := x),
        jlog := insert 600 (bdirty ?s)\<rparr>)"
    using jn.update_block [OF inv, of 600] 0(2) d w by auto
  then obtain s3 where s3: "log_inv s3" "log_abs s3 = (log_abs ?s)\<lparr>jview := (bview ?s)(600 := replicate BSIZE 7),
        jlog := insert 600 (bdirty ?s)\<rparr>"
    by (metis length_replicate)
  have f: "bview s3 600 = replicate BSIZE 7" "bdirty s3 = {600}" "bheld s3 = Map.empty"
      "platter s3 1 = platter s0 1" "lstart s3 = 2" "lsize s3 = 30" "outstanding s3 = 1" "\<not> committing s3"
    using arg_cong [OF s3(2), of jview] arg_cong [OF s3(2), of jlog] arg_cong [OF s3(2), of jheld]
      arg_cong [OF s3(2), of jdisk] arg_cong [OF s3(2), of jrest] d 0 by simp_all
  have "nat (lh_n s3) = 1" using log_invD(11) [OF s3(1)] f(2) by simp
  then have "lh_n s3 = 1" by simp
  then show ?thesis using s3(1) f 0(8) by auto
qed

lemma apply_writes_other: "b \<notin> (\<lambda>(_, b, _). b) ` set ws \<Longrightarrow> apply_writes ws d b = d b"
  by (induction ws arbitrary: d) (auto simp: apply_writes_Cons)

lemma apply_writes_length:
  "(\<And>b. length (d b) = BSIZE) \<Longrightarrow> (\<forall>(_, _, x) \<in> set ws. length x = BSIZE) \<Longrightarrow> length (apply_writes ws d c) = BSIZE"
  by (induction ws arbitrary: d) (auto simp: apply_writes_Cons)

lemma txn_writes_length:
  assumes "log_inv s" and "(r, b, x) \<in> set (txn_writes s)"
  shows "length x = BSIZE"
  using assms bio_length [OF log_invD(1) [OF assms(1)]] bio_inv_quiet [OF log_invD(1) [OF assms(1)]]
  by (auto simp: txn_writes_def commit_writes_def quiet_def split: if_splits)

lemma txn_writes_blocks:
  assumes "log_inv s" and "(r, b, x) \<in> set (txn_writes s)"
  shows "b \<in> log_area (lstart s) (lsize s) \<or> b \<in> bdirty s"
proof -
  note i = log_invD [OF assms(1)]
  have "laddr (lstart s) j \<in> log_area (lstart s) (lsize s)" if "j < nat (lh_n s)" for j
    using laddr_area(1) [OF i(3), of j] that i(4,5) by linarith
  then show ?thesis
    using assms(2) start_area(1) [OF i(3)] i(7)
    by (auto simp: txn_writes_def commit_writes_def split: if_splits)
qed

text \<open>A machine that starts on what a crash during the commit of the example left.\<close>

lemma demo_crash:
  assumes "log_inv s" "lstart s = 2" "lsize s = 30" "bdirty s = {600}"
    "\<forall>b. b \<notin> log_area 2 30 \<longrightarrow> platter s 1 b = demo_disk b"
  shows "booted (lstart s) (lsize s) (apply_writes (take k (txn_writes s)) (platter s 1))
    (demo_boot\<lparr>platter := \<lambda>_. apply_writes (take k (txn_writes s)) (platter s 1)\<rparr>)"
proof -
  let ?ws = "take k (txn_writes s)"
  have "1 \<notin> (\<lambda>(_, b, _). b) ` set ?ws"
    using txn_writes_blocks [OF assms(1)] assms(2-4) demo_outside by (fastforce dest: in_set_takeD)
  then have "apply_writes ?ws (platter s 1) 1 = demo_sb"
    using assms(5) demo_outside by (simp add: apply_writes_other demo_disk_def)
  moreover have "length (apply_writes ?ws (platter s 1) b) = BSIZE" for b
    using bio_inv_quiet [OF log_invD(1) [OF assms(1)]] txn_writes_length [OF assms(1)]
    by (intro apply_writes_length) (auto simp: quiet_def dest: in_set_takeD)
  ultimately show ?thesis using demo_boot_on assms(2,3) by simp
qed

section \<open>Properties\<close>

text \<open>
  C1. Commits are atomic under crashes. Take any state between operations with a transaction to
  commit, let the machine stop after any number \<open>k\<close> of the sector writes that \<open>commit\<close>
  issues, and start it again with an empty cache on the disk as it is then. \<open>initlog\<close> returns,
  and outside the log every block has its contents from before the transaction if the header
  was not yet written, and its contents in the transaction otherwise.
\<close>

theorem commit_crash_atomic:
  fixes s :: "'a logst_scheme" and r :: "'b logst_scheme"
  assumes "log_inv s" and "bheld s = Map.empty"
    and "booted (lstart s) (lsize s) (apply_writes (take k (txn_writes s)) (platter s 1)) r"
  shows "\<exists>s' r'. commit s = Ret s' \<and> disk_writes s' = disk_writes s @ txn_writes s \<and>
    initlog 1 (binit r) = Ret r' \<and> log_inv r' \<and> bview r' = platter r' 1 \<and>
    (\<forall>b. b \<notin> log_area (lstart s) (lsize s) \<longrightarrow>
       platter r' 1 b = (if k \<le> nat (lh_n s) then platter s 1 b else bview s b))"
  using commit_spec [OF assms(1,2)] crash_then_recover [OF assms] by auto

theorem commit_crash_atomic_witness:
  "\<exists>(s :: logst) (r :: logst) r'. log_inv s \<and> lh_n s = 1 \<and> platter s 1 600 = replicate BSIZE 0 \<and>
     platter r 1 = apply_writes (take 2 (txn_writes s)) (platter s 1) \<and>
     initlog 1 (binit r) = Ret r' \<and> platter r' 1 600 = replicate BSIZE 7"
proof -
  obtain s :: logst where s: "log_inv s" "bheld s = Map.empty" "bdirty s = {600}" "lh_n s = 1" "lstart s = 2"
      "lsize s = 30" "bview s 600 = replicate BSIZE 7" "\<forall>b. b \<notin> log_area 2 30 \<longrightarrow> platter s 1 b = demo_disk b"
    using demo_txn by blast
  let ?r = "demo_boot\<lparr>platter := \<lambda>_. apply_writes (take 2 (txn_writes s)) (platter s 1)\<rparr>"
  have "platter s 1 600 = replicate BSIZE 0" using s(8) demo_outside by (simp add: demo_disk_def)
  moreover obtain r' where "initlog 1 (binit ?r) = Ret r'" "platter r' 1 600 = replicate BSIZE 7"
    using commit_crash_atomic [OF s(1,2) demo_crash [OF s(1,5,6,3,8), of 2]] s demo_outside by auto
  moreover have "platter ?r 1 = apply_writes (take 2 (txn_writes s)) (platter s 1)" by simp
  ultimately show ?thesis using s(1,4) by blast
qed

text \<open>
  C2. Recovery can be interrupted and repeated. Whatever the log on disk holds (a transaction or
  nothing), a crash after any number of the sector writes of \<open>initlog\<close> followed by another
  start leaves outside the log what an undisturbed recovery leaves.
\<close>

theorem recovery_crash_idempotent:
  fixes r :: "'a logst_scheme" and q :: "'b logst_scheme"
  assumes "booted start sz d r" and "log_geom start sz" and "log_disk_ok start sz d"
    and "booted start sz (apply_writes (take k (recovery_writes start d)) d) q"
  shows "\<exists>r' q'. initlog 1 (binit r) = Ret r' \<and> disk_writes r' = disk_writes r @ recovery_writes start d \<and>
    initlog 1 (binit q) = Ret q' \<and> log_inv q' \<and>
    (\<forall>b. b \<notin> log_area start sz \<longrightarrow> platter q' 1 b = platter r' 1 b \<and> platter r' 1 b = logical start d b)"
proof -
  let ?k = "min k (length (recovery_writes start d))"
  let ?d = "apply_writes (take ?k (recovery_writes start d)) d"
  have len: "length (d start) = BSIZE" using assms(1) by (auto simp: booted_def quiet_def)
  have tk: "take k (recovery_writes start d) = take ?k (recovery_writes start d)" by (simp add: min_def)
  have ok: "log_disk_ok start sz ?d" "\<And>b. b \<notin> log_area start sz \<Longrightarrow> logical start ?d b = logical start d b"
    using crash_in_recovery [OF assms(2,3) len, of ?k] by simp_all
  obtain q' where "initlog 1 (binit q) = Ret q'" "log_inv q'"
      "\<forall>b. b \<notin> log_area start sz \<longrightarrow> platter q' 1 b = logical start ?d b"
    using initlog_spec [OF assms(4,2)] ok(1) unfolding tk by blast
  then show ?thesis
    using initlog_spec [OF assms(1-3)] ok(2) by auto
qed

text \<open>A disk whose log holds a committed transaction: block 600 is to be filled with sevens.\<close>

definition demo_logged :: disk where
  "demo_logged = demo_disk(2 := put32 4 600 (put32 0 1 (replicate BSIZE 0)), 3 := replicate BSIZE 7)"

lemma demo_logged_len: "length (demo_logged b) = BSIZE"
  by (simp add: demo_logged_def demo_disk_len)

lemma demo_logged_head: "head_n 2 demo_logged = 1" "head_block 2 demo_logged 0 = 600"
  by (simp_all add: head_n_def head_block_def demo_logged_def get32_put32_other)

lemma demo_logged_ok: "log_disk_ok 2 30 demo_logged"
  "recovery_writes 2 demo_logged = [(1, 600, replicate BSIZE 7), (1, 2, put32 0 0 (demo_logged 2))]"
  "logical 2 demo_logged 600 = replicate BSIZE 7"
proof -
  show "log_disk_ok 2 30 demo_logged" using demo_outside(1) by (simp add: log_disk_ok_def demo_logged_head)
  have a: "demo_logged (laddr 2 0) = replicate BSIZE 7" by (simp add: laddr_def demo_logged_def)
  then show "recovery_writes 2 demo_logged = [(1, 600, replicate BSIZE 7), (1, 2, put32 0 0 (demo_logged 2))]"
    by (simp add: recovery_writes_def demo_logged_head)
  show "logical 2 demo_logged 600 = replicate BSIZE 7" using a by (simp add: logical_def demo_logged_head)
qed

theorem recovery_crash_idempotent_witness:
  "\<exists>(q :: logst) q'. platter q 1 = apply_writes (take 1 (recovery_writes 2 demo_logged)) demo_logged \<and>
     head_n 2 (platter q 1) = 1 \<and> initlog 1 (binit q) = Ret q' \<and> log_inv q' \<and>
     demo_logged 600 = replicate BSIZE 0 \<and> platter q' 1 600 = replicate BSIZE 7"
proof -
  let ?d = "demo_logged(600 := replicate BSIZE 7)"
  let ?q = "demo_boot\<lparr>platter := \<lambda>_. ?d\<rparr>"
  have d: "apply_writes (take 1 (recovery_writes 2 demo_logged)) demo_logged = ?d"
    by (simp add: demo_logged_ok apply_writes_Cons)
  have q: "booted 2 30 ?d ?q"
    by (rule demo_boot_on) (auto simp: demo_logged_len, simp add: demo_logged_def demo_disk_def)
  have r: "booted 2 30 demo_logged (demo_boot\<lparr>platter := \<lambda>_. demo_logged\<rparr>)"
    by (rule demo_boot_on) (simp_all add: demo_logged_len, simp add: demo_logged_def demo_disk_def)
  obtain q' where "initlog 1 (binit ?q) = Ret q'" "platter q' 1 600 = replicate BSIZE 7" "log_inv q'"
    using recovery_crash_idempotent [OF r demo_geom demo_logged_ok(1) q [folded d], unfolded d] demo_outside(1) demo_logged_ok(3) by metis
  then have "platter ?q 1 = ?d \<and> head_n 2 (platter ?q 1) = 1 \<and> initlog 1 (binit ?q) = Ret q' \<and> log_inv q' \<and> 
      demo_logged 600 = replicate BSIZE 0 \<and> platter q' 1 600 = replicate BSIZE 7"
    using demo_logged_head(1) by (simp add: demo_logged_def demo_disk_def demo_boot_def head_n_def)
  then show ?thesis unfolding d by blast
qed

text \<open>
  C3. When the last operation ends, \<open>end_op\<close> returns, the log is empty again, and every block
  outside the log has on disk the contents the operations gave it.
\<close>

theorem end_op_installs:
  fixes s :: "'a logst_scheme"
  assumes "log_inv s" and "bheld s = Map.empty" and "\<not> committing s" and "outstanding s = 1"
  shows "\<exists>s'. end_op s = Ret s' \<and> log_inv s' \<and> lh_n s' = 0 \<and> outstanding s' = 0 \<and> \<not> committing s' \<and>
    (\<forall>b. b \<notin> log_area (lstart s) (lsize s) \<longrightarrow> platter s' 1 b = bview s b \<and> bview s' b = bview s b)"
  using end_op_commits [OF assms] by auto

theorem end_op_installs_witness:
  "\<exists>(s :: logst) s'. log_inv s \<and> platter s 1 600 = replicate BSIZE 0 \<and> end_op s = Ret s' \<and>
     platter s' 1 600 = replicate BSIZE 7"
proof -
  obtain s :: logst where s: "log_inv s" "bheld s = Map.empty" "lstart s = 2" "lsize s = 30" "\<not> committing s"
      "outstanding s = 1" "bview s 600 = replicate BSIZE 7" "\<forall>b. b \<notin> log_area 2 30 \<longrightarrow> platter s 1 b = demo_disk b"
    using demo_txn by blast
  have "platter s 1 600 = replicate BSIZE 0" using s(8) demo_outside by (simp add: demo_disk_def)
  then show ?thesis using end_op_installs [OF s(1,2,5,6)] s demo_outside by auto
qed

text \<open>
  C4. Log absorption. \<open>log_write\<close> of a held block outside the log, in a transaction with room,
  returns; it changes neither the contents nor the disk, keeps the block in the cache, and takes
  a new log slot exactly when the block was not already recorded.
\<close>

theorem log_write_absorbs:
  fixes s :: "'a logst_scheme"
  assumes "log_inv s" and "bheld s i = Some b" and "b \<notin> log_area (lstart s) (lsize s)"
    and "1 \<le> outstanding s" and "lh_n s < lsize s - 1"
  shows "\<exists>s'. log_write i s = Ret s' \<and> log_inv s' \<and> bview s' = bview s \<and> platter s' 1 = platter s 1 \<and>
    bdirty s' = insert b (bdirty s) \<and> lh_n s' = (if b \<in> bdirty s then lh_n s else lh_n s + 1)"
  using log_write_spec [OF assms] by auto

theorem log_write_absorbs_witness:
  "\<exists>(s :: logst) i s'. log_inv s \<and> lh_n s = 1 \<and> bheld s i = Some 600 \<and> log_write i s = Ret s' \<and> lh_n s' = 1"
proof -
  obtain s :: logst where s: "log_inv s" "bheld s = Map.empty" "bdirty s = {600}" "lh_n s = 1" "lstart s = 2"
      "lsize s = 30" "outstanding s = 1"
    using demo_txn by blast
  obtain i s1 where 1: "bread 1 600 s = Ret (i, s1)" "log_inv s1" "log_abs s1 = (log_abs s)\<lparr>jheld := [i \<mapsto> 600]\<rparr>"
    using jn.bread_law [OF s(1), of 600] s(2,3) by auto
  have f: "bheld s1 i = Some 600" "bdirty s1 = {600}" "lstart s1 = 2" "lsize s1 = 30" "outstanding s1 = 1"
    using arg_cong [OF 1(3), of jheld] arg_cong [OF 1(3), of jlog] arg_cong [OF 1(3), of jrest] s by simp_all
  have n: "lh_n s1 = 1" using log_invD(4,11) [OF 1(2)] f(2) by simp
  show ?thesis
    using log_write_absorbs [OF 1(2) f(1)] f n 1(2) demo_outside by auto
qed

text \<open>What a file system operation does to a block: read it, change it, record it, release it.\<close>

definition log_update :: "u32 \<times> bytes \<Rightarrow> 'a logst_scheme \<Rightarrow> 'a logst_scheme outcome" where
  "log_update = (\<lambda>(b, d) s. and_then (bread 1 b s) (\<lambda>(i, s). and_then (log_write i (set_data i d s)) (brelse i)))"

definition new_blocks :: "(u32 \<times> bytes) list \<Rightarrow> 'a logst_scheme \<Rightarrow> bool" where
  "new_blocks us s \<longleftrightarrow> distinct (map fst us) \<and>
     (\<forall>(b, d) \<in> set us. b < FSSIZE \<and> b \<notin> log_area (lstart s) (lsize s) \<and> b \<notin> bdirty s \<and> length d = BSIZE)"

lemma log_inv_count: "log_inv s \<Longrightarrow> lh_n s = int (card (bdirty s))"
  using log_invD(4,11) [of s] by simp

lemma log_update_room:
  fixes s :: "'a logst_scheme"
  assumes inv: "log_inv s" and h: "bheld s = Map.empty" and out: "1 \<le> outstanding s"
    and new: "new_blocks ((b, d) # us) s" and room: "lh_n s < lsize s - 1"
  shows "\<exists>s'. log_update (b, d) s = Ret s' \<and> log_inv s' \<and>
    log_abs s' = (log_abs s)\<lparr>jview := (bview s)(b := d), jlog := insert b (bdirty s)\<rparr>"
proof -
  have b: "b < FSSIZE" "length d = BSIZE" "log_writable (jrest (log_abs s)) b"
    "card (bdirty s) < log_cap (jrest (log_abs s))"
    using new out room log_inv_count [OF inv] by (auto simp: new_blocks_def log_writable_def log_cap_def)
  then obtain i s1 s2 s3 where "bread 1 b s = Ret (i, s1)" "log_write i (set_data i d s1) = Ret s2" "brelse i s2 = Ret s3"
    "log_inv s3" "log_abs s3 = (log_abs s)\<lparr>jview := (bview s)(b := d), jlog := insert b (bdirty s)\<rparr>"
    using jn.update_block [OF inv b(1)] h log_invD(12) [OF inv] by fastforce
  then show ?thesis by (simp add: log_update_def)
qed

lemma log_update_full:
  fixes s :: "'a logst_scheme"
  assumes inv: "log_inv s" and h: "bheld s = Map.empty" and new: "new_blocks ((b, d) # us) s" and full: "lh_n s = lsize s - 1"
  shows "log_update (b, d) s = Panic ''too big a transaction''"
proof -
  have b: "b < FSSIZE" "length d = BSIZE" using new by (auto simp: new_blocks_def)
  obtain i s1 where 1: "bread 1 b s = Ret (i, s1)" "log_inv s1" "log_abs s1 = (log_abs s)\<lparr>jheld := [i \<mapsto> b]\<rparr>"
    using jn.bread_law [OF inv b(1)] h log_invD(12) [OF inv] by auto
  have "bdirty s1 = bdirty s" "lsize s1 = lsize s"
    using arg_cong [OF 1(3), of jlog] arg_cong [OF 1(3), of jrest] by simp_all
  then have "lh_n s1 = lsize s1 - 1" using full log_inv_count [OF inv] log_inv_count [OF 1(2)] by simp
  then have "log_write i (set_data i d s1) = Panic ''too big a transaction''" by (simp add: log_write_def set_data_def upd_buf_def)
  then show ?thesis using 1(1) by (simp add: log_update_def)
qed

lemma log_updates:
  fixes s :: "'a logst_scheme"
  assumes "log_inv s" and "bheld s = Map.empty" and "1 \<le> outstanding s" and "new_blocks us s"
    and "lh_n s + int (length us) \<le> lsize s - 1"
  shows "\<exists>t. foldo log_update us s = Ret t \<and> log_inv t \<and> bheld t = Map.empty \<and> bdirty t = bdirty s \<union> fst ` set us \<and>
    jrest (log_abs t) = jrest (log_abs s)"
  using assms
proof (induction us arbitrary: s)
  case (Cons u us)
  obtain b d where u: "u = (b, d)" by (cases u)
  obtain s1 where 1: "log_update (b, d) s = Ret s1" "log_inv s1"
      "log_abs s1 = (log_abs s)\<lparr>jview := (bview s)(b := d), jlog := insert b (bdirty s)\<rparr>"
    using log_update_room [OF Cons.prems(1-3) Cons.prems(4) [unfolded u]] Cons.prems(5) by auto
  have f: "bheld s1 = Map.empty" "bdirty s1 = insert b (bdirty s)" "lstart s1 = lstart s" "lsize s1 = lsize s"
      "outstanding s1 = outstanding s" "jrest (log_abs s1) = jrest (log_abs s)"
    using arg_cong [OF 1(3), of jheld] arg_cong [OF 1(3), of jlog] arg_cong [OF 1(3), of jrest] Cons.prems(2) by simp_all
  have nb: "b \<notin> bdirty s" "new_blocks us s1" using Cons.prems(4) f by (force simp: new_blocks_def u)+
  have "finite (bdirty s)" using log_invD(7) [OF Cons.prems(1)] by simp
  then have "lh_n s1 = lh_n s + 1" using log_inv_count [OF 1(2)] log_inv_count [OF Cons.prems(1)] f(2) nb(1) by simp
  then obtain t where "foldo log_update us s1 = Ret t" "log_inv t" "bheld t = Map.empty" "bdirty t = bdirty s1 \<union> fst ` set us"
      "jrest (log_abs t) = jrest (log_abs s1)"
    using Cons.IH [OF 1(2) f(1) _ nb(2)] f Cons.prems(3,5) by auto
  then show ?case using 1(1) f u by auto
qed simp

text \<open>
  C16. \<open>begin_op\<close> reserves more log space than there is. On the log \<^verbatim>\<open>mkfs\<close> makes (30 blocks, one of them
  the header) three operations are admitted together, which reserves \<open>3 * MAXOPBLOCKS = 30\<close> blocks.
  They can record any 29 different blocks, but when each uses all it has reserved the kernel panics
  at the thirtieth.
\<close>

theorem begin_op_over_reserves:
  fixes s :: "'a logst_scheme"
  assumes inv: "log_inv s" and "bheld s = Map.empty" and "lh_n s = 0" and "outstanding s = 0" and "\<not> committing s"
    and "lsize s = 30" and "new_blocks us s" and "length us = 3 * MAXOPBLOCKS"
  shows "\<exists>t. and_then (and_then (begin_op s) begin_op) begin_op = Ret t \<and>
    (\<forall>k < 3 * MAXOPBLOCKS. \<exists>u. foldo log_update (take k us) t = Ret u \<and> log_inv u \<and> lh_n u = int k \<and>
       bdirty u = fst ` set (take k us)) \<and>
    foldo log_update us t = Panic ''too big a transaction''"
proof -
  let ?t = "s\<lparr>outstanding := 3\<rparr>"
  have run: "and_then (and_then (begin_op s) begin_op) begin_op = Ret ?t" using assms(3-5) by (simp add: begin_op_def)
  have t: "log_inv ?t" "bdirty ?t = {}" "bheld ?t = Map.empty"
    using inv log_invD(7) [OF inv] assms(2,3) by (simp_all add: log_inv_def)
  have new: "new_blocks (take k us) ?t" for k
    using assms(7) unfolding new_blocks_def by (auto simp: distinct_take take_map [symmetric] dest: in_set_takeD)
  have prefix: "\<exists>u. foldo log_update (take k us) ?t = Ret u \<and> log_inv u \<and> lh_n u = int k \<and> bheld u = Map.empty \<and>
      bdirty u = fst ` set (take k us) \<and> lstart u = lstart s \<and> lsize u = 30" if k: "k < 30" for k
  proof -
    obtain u where u: "foldo log_update (take k us) ?t = Ret u" "log_inv u" "bheld u = Map.empty"
        "bdirty u = fst ` set (take k us)" "jrest (log_abs u) = jrest (log_abs ?t)"
      using log_updates [OF t(1,3) _ new [of k]] t(2) k assms(3,6,8) by auto
    have "distinct (map fst (take k us))" using new [of k] by (simp add: new_blocks_def)
    from distinct_card [OF this] have "card (fst ` set (take k us)) = k" using k assms(8) by simp
    then show ?thesis using u log_inv_count [OF u(2)] assms(6) by auto
  qed
  obtain u where u: "foldo log_update (take 29 us) ?t = Ret u" "log_inv u" "lh_n u = 29" "bheld u = Map.empty"
      "bdirty u = fst ` set (take 29 us)" "lstart u = lstart s" "lsize u = 30"
    using prefix [of 29] by auto
  obtain b d where bd: "us ! 29 = (b, d)" by (cases "us ! 29")
  have us: "us = take 29 us @ [(b, d)]" using assms(8) bd take_Suc_conv_app_nth [of 29 us] by simp
  have "new_blocks (take 29 us @ [(b, d)]) s" using assms(7) us by simp
  then have "new_blocks [(b, d)] u" using u(5-7) assms(6) by (auto simp: new_blocks_def)
  then have "log_update (b, d) u = Panic ''too big a transaction''" using log_update_full [OF u(2,4)] u(3,7) by simp
  then have "foldo log_update us ?t = Panic ''too big a transaction''" by (subst us) (simp add: foldo_append u(1))
  moreover have "\<exists>u. foldo log_update (take k us) ?t = Ret u \<and> log_inv u \<and> lh_n u = int k \<and> bdirty u = fst ` set (take k us)"
    if "k < 3 * MAXOPBLOCKS" for k
    using prefix [of k] that by auto
  ultimately show ?thesis using run by blast
qed

theorem begin_op_over_reserves_witness:
  "\<exists>(s :: logst) t. and_then (and_then (begin_op s) begin_op) begin_op = Ret t \<and>
     foldo log_update (map (\<lambda>k. (600 + of_nat k, replicate BSIZE 7)) [0..<30]) t = Panic ''too big a transaction''"
proof -
  obtain s :: logst where s: "log_inv s" "bheld s = Map.empty" "lh_n s = 0" "lstart s = 2" "lsize s = 30" "outstanding s = 0"
      "\<not> committing s"
    using demo_started by blast
  have "600 + of_nat k < FSSIZE \<and> 600 + of_nat k \<notin> log_area 2 30" if "k < 30" for k :: nat
  proof -
    have "unat (600 + of_nat k :: u32) = 600 + k" using that by (simp add: unat_word_ariths unat_of_nat take_bit_eq_mod)
    then show ?thesis using that by (simp add: word_less_nat_alt log_area_def)
  qed
  moreover have "distinct (map (\<lambda>k. 600 + of_nat k :: u32) [0..<30])" by (simp add: upt_rec)
  ultimately have "new_blocks (map (\<lambda>k. (600 + of_nat k, replicate BSIZE 7)) [0..<30]) s"
    using log_invD(7) [OF s(1)] s(3-5) by (auto simp: new_blocks_def comp_def)
  from begin_op_over_reserves [OF s(1-3,6,7,5) this] show ?thesis by auto
qed

end
