(* ===== verification/Fs.thy ===== *)
theory Fs
  imports Log Xv6_String
begin

text \<open>
  The file system layer of \<^verbatim>\<open>fs.c\<close>: block allocation, inodes and the inode cache, file
  contents, directories and path names. The state extends the log's by the superblock copy
  \<open>sb\<close> and the inode cache. A pointer to an inode is its index in \<open>icache.inode\<close>.

  The device switch \<open>devsw\<close> is a table of function pointers; it is an argument of the
  functions that call through it.
\<close>

section \<open>Definitions\<close>

record inode =
  idev :: u32
  inum :: u32
  iref :: int
  ilk :: sleeplock
  ivalid :: bool
  itype :: u16
  major :: u16
  minor :: u16
  inlink :: u16
  isize :: u32
  addrs :: "u32 list"

record fsst = logst +
  fsb :: superblock
  icache :: "nat \<Rightarrow> inode"

record stat =
  st_type :: u16
  st_dev :: u32
  st_ino :: u32
  st_nlink :: u16
  st_size :: u32

abbreviation (input) NDIRECT :: nat where "NDIRECT \<equiv> 12"
abbreviation (input) NINDIRECT :: nat where "NINDIRECT \<equiv> 128"
abbreviation (input) MAXFILE :: nat where "MAXFILE \<equiv> 140"
abbreviation (input) IPB :: nat where "IPB \<equiv> 8"
abbreviation (input) BPB :: nat where "BPB \<equiv> 4096"
abbreviation (input) DIRSIZ :: nat where "DIRSIZ \<equiv> 14"
abbreviation (input) ROOTINO :: u32 where "ROOTINO \<equiv> 1"
abbreviation (input) T_DIR :: u16 where "T_DIR \<equiv> 1"
abbreviation (input) T_FILE :: u16 where "T_FILE \<equiv> 2"
abbreviation (input) T_DEV :: u16 where "T_DEV \<equiv> 3"

text \<open>
  An entry of \<open>devsw\<close>. A read returns the result and the bytes stored at \<open>dst\<close>; a write gets
  the \<open>n\<close> bytes at \<open>src\<close>.
\<close>

record 's devops =
  dev_read :: "(nat \<Rightarrow> u32 \<Rightarrow> u32 \<Rightarrow> 's \<Rightarrow> (int \<times> bytes \<times> 's) outcome) option"
  dev_write :: "(nat \<Rightarrow> bytes \<Rightarrow> u32 \<Rightarrow> 's \<Rightarrow> (int \<times> 's) outcome) option"

type_synonym 's devsw = "nat \<Rightarrow> 's devops"

definition IBLOCK :: "u32 \<Rightarrow> superblock \<Rightarrow> u32" where
  "IBLOCK i sb = i div of_nat IPB + sb_inodestart sb"

definition BBLOCK :: "u32 \<Rightarrow> superblock \<Rightarrow> u32" where
  "BBLOCK b sb = b div of_nat BPB + sb_bmapstart sb"

subsection \<open>Blocks\<close>

definition bzero :: "u32 \<Rightarrow> u32 \<Rightarrow> 'a logst_scheme \<Rightarrow> 'a logst_scheme outcome" where
  "bzero d b s =
     and_then (bread d b s) (\<lambda>(bp, s).
     and_then (log_write bp (set_data bp (replicate BSIZE 0) s)) (brelse bp))"

text \<open>The bit of a block in its block of the free map.\<close>

definition map_bit :: "nat \<Rightarrow> bytes \<Rightarrow> bool" where
  "map_bit bi d \<longleftrightarrow> d ! (bi div 8) AND push_bit (bi mod 8) 1 \<noteq> 0"

definition map_set :: "nat \<Rightarrow> bytes \<Rightarrow> bytes" where
  "map_set bi d = d[bi div 8 := d ! (bi div 8) OR push_bit (bi mod 8) 1]"

definition map_clear :: "nat \<Rightarrow> bytes \<Rightarrow> bytes" where
  "map_clear bi d = d[bi div 8 := d ! (bi div 8) AND NOT (push_bit (bi mod 8) 1)]"

text \<open>The loop over the map blocks, given the values of \<open>b\<close> it takes.\<close>

fun balloc_loop :: "u32 \<Rightarrow> nat list \<Rightarrow> 'a fsst_scheme \<Rightarrow> (u32 \<times> 'a fsst_scheme) outcome" where
  "balloc_loop d [] s = Panic ''balloc: out of blocks''"
| "balloc_loop d (b # bs) s =
     and_then (bread d (BBLOCK (of_nat b) (fsb s)) s) (\<lambda>(bp, s).
     case find (\<lambda>bi. \<not> map_bit bi (data_of bp s)) [0..<min BPB (unat (sb_size (fsb s)) - b)] of
       Some bi \<Rightarrow>
         and_then (log_write bp (set_data bp (map_set bi (data_of bp s)) s)) (\<lambda>s.
         and_then (brelse bp s) (\<lambda>s.
         and_then (bzero d (of_nat (b + bi)) s) (\<lambda>s.
         Ret (of_nat (b + bi), s))))
     | None \<Rightarrow> and_then (brelse bp s) (balloc_loop d bs))"

definition balloc :: "u32 \<Rightarrow> 'a fsst_scheme \<Rightarrow> (u32 \<times> 'a fsst_scheme) outcome" where
  "balloc d s =
     balloc_loop d (map (\<lambda>k. BPB * k) [0..<(unat (sb_size (fsb s)) + BPB - 1) div BPB]) s"

definition bfree :: "u32 \<Rightarrow> u32 \<Rightarrow> 'a fsst_scheme \<Rightarrow> 'a fsst_scheme outcome" where
  "bfree d b s =
     and_then (bread d (BBLOCK b (fsb s)) s) (\<lambda>(bp, s).
     let bi = unat (b mod of_nat BPB) in
     if \<not> map_bit bi (data_of bp s) then Panic ''freeing free block''
     else and_then (log_write bp (set_data bp (map_clear bi (data_of bp s)) s)) (brelse bp))"

subsection \<open>Inodes\<close>

definition upd_inode :: "nat \<Rightarrow> (inode \<Rightarrow> inode) \<Rightarrow> 'a fsst_scheme \<Rightarrow> 'a fsst_scheme" where
  "upd_inode ip f s = s\<lparr>icache := (icache s)(ip := f (icache s ip))\<rparr>"

definition iinit :: "u32 \<Rightarrow> 'a fsst_scheme \<Rightarrow> 'a fsst_scheme outcome" where
  "iinit d s =
     (let s = fold (\<lambda>i. upd_inode i (\<lambda>ip. ip\<lparr>ilk := initsleeplock\<rparr>)) [0..<NINODE] s
      in and_then (readsb d s) (\<lambda>(sb, s). Ret (s\<lparr>fsb := sb\<rparr>)))"

text \<open>The fields of \<open>struct dinode\<close> at offset \<open>off\<close> of an inode block (\<open>dip\<close>).\<close>

definition dip_off :: "u32 \<Rightarrow> nat" where
  "dip_off i = 64 * unat (i mod of_nat IPB)"

definition dip_store :: "nat \<Rightarrow> inode \<Rightarrow> bytes \<Rightarrow> bytes" where
  "dip_store off ip d =
     fold (\<lambda>k. put32 (off + 12 + 4 * k) (addrs ip ! k)) [0..<NDIRECT + 1]
       (put32 (off + 8) (isize ip) (put16 (off + 6) (inlink ip) (put16 (off + 4) (minor ip)
         (put16 (off + 2) (major ip) (put16 off (itype ip) d)))))"

definition dip_load :: "nat \<Rightarrow> bytes \<Rightarrow> inode \<Rightarrow> inode" where
  "dip_load off d ip = ip\<lparr>itype := get16 d off, major := get16 d (off + 2), minor := get16 d (off + 4),
     inlink := get16 d (off + 6), isize := get32 d (off + 8),
     addrs := map (\<lambda>k. get32 d (off + 12 + 4 * k)) [0..<NDIRECT + 1]\<rparr>"

definition iget :: "u32 \<Rightarrow> u32 \<Rightarrow> 'a fsst_scheme \<Rightarrow> (nat \<times> 'a fsst_scheme) outcome" where
  "iget d n s =
     (case find (\<lambda>i. iref (icache s i) > 0 \<and> idev (icache s i) = d \<and> inum (icache s i) = n) [0..<NINODE] of
        Some ip \<Rightarrow> Ret (ip, upd_inode ip (\<lambda>i. i\<lparr>iref := iref i + 1\<rparr>) s)
      | None \<Rightarrow>
          (case find (\<lambda>i. iref (icache s i) = 0) [0..<NINODE] of
             None \<Rightarrow> Panic ''iget: no inodes''
           | Some ip \<Rightarrow>
               Ret (ip, upd_inode ip (\<lambda>i. i\<lparr>idev := d, inum := n, iref := 1, ivalid := False\<rparr>) s)))"

fun ialloc_loop :: "u32 \<Rightarrow> u16 \<Rightarrow> nat list \<Rightarrow> 'a fsst_scheme \<Rightarrow> (nat \<times> 'a fsst_scheme) outcome" where
  "ialloc_loop d t [] s = Panic ''ialloc: no inodes''"
| "ialloc_loop d t (n # ns) s =
     and_then (bread d (IBLOCK (of_nat n) (fsb s)) s) (\<lambda>(bp, s).
     let off = dip_off (of_nat n) in
     if get16 (data_of bp s) off = 0 then
       and_then (log_write bp (set_data bp (put16 off t (overlay off (replicate 64 0) (data_of bp s))) s)) (\<lambda>s.
       and_then (brelse bp s) (iget d (of_nat n)))
     else and_then (brelse bp s) (ialloc_loop d t ns))"

definition ialloc :: "u32 \<Rightarrow> u16 \<Rightarrow> 'a fsst_scheme \<Rightarrow> (nat \<times> 'a fsst_scheme) outcome" where
  "ialloc d t s = ialloc_loop d t [1..<unat (sb_ninodes (fsb s))] s"

definition iupdate :: "nat \<Rightarrow> 'a fsst_scheme \<Rightarrow> 'a fsst_scheme outcome" where
  "iupdate ip s =
     and_then (bread (idev (icache s ip)) (IBLOCK (inum (icache s ip)) (fsb s)) s) (\<lambda>(bp, s).
     and_then (log_write bp (set_data bp
       (dip_store (dip_off (inum (icache s ip))) (icache s ip) (data_of bp s)) s)) (brelse bp))"

definition idup :: "nat \<Rightarrow> 'a fsst_scheme \<Rightarrow> nat \<times> 'a fsst_scheme" where
  "idup ip s = (ip, upd_inode ip (\<lambda>i. i\<lparr>iref := iref i + 1\<rparr>) s)"

definition ilock :: "nat option \<Rightarrow> 'a fsst_scheme \<Rightarrow> 'a fsst_scheme outcome" where
  "ilock ipo s = (case ipo of
      None \<Rightarrow> Panic ''ilock''
    | Some ip \<Rightarrow>
        if iref (icache s ip) < 1 then Panic ''ilock''
        else
          and_then (acquiresleep (curpid s) (ilk (icache s ip))) (\<lambda>lk.
          let s = upd_inode ip (\<lambda>i. i\<lparr>ilk := lk\<rparr>) s in
          if ivalid (icache s ip) then Ret s
          else
            and_then (bread (idev (icache s ip)) (IBLOCK (inum (icache s ip)) (fsb s)) s) (\<lambda>(bp, s).
            let s = upd_inode ip (\<lambda>i. dip_load (dip_off (inum i)) (data_of bp s) i) s in
            and_then (brelse bp s) (\<lambda>s.
            let s = upd_inode ip (\<lambda>i. i\<lparr>ivalid := True\<rparr>) s in
            if itype (icache s ip) = 0 then Panic ''ilock: no type'' else Ret s))))"

definition iunlock :: "nat option \<Rightarrow> 'a fsst_scheme \<Rightarrow> 'a fsst_scheme outcome" where
  "iunlock ipo s = (case ipo of
      None \<Rightarrow> Panic ''iunlock''
    | Some ip \<Rightarrow>
        if \<not> holdingsleep (curpid s) (ilk (icache s ip)) \<or> iref (icache s ip) < 1 then Panic ''iunlock''
        else Ret (upd_inode ip (\<lambda>i. i\<lparr>ilk := releasesleep (ilk i)\<rparr>) s))"

subsection \<open>Inode content\<close>

definition bmap :: "nat \<Rightarrow> u32 \<Rightarrow> 'a fsst_scheme \<Rightarrow> (u32 \<times> 'a fsst_scheme) outcome" where
  "bmap ip bn s =
     (if bn < of_nat NDIRECT then
        (let addr = addrs (icache s ip) ! unat bn in
         if addr = 0 then
           and_then (balloc (idev (icache s ip)) s) (\<lambda>(addr, s).
           Ret (addr, upd_inode ip (\<lambda>i. i\<lparr>addrs := (addrs i)[unat bn := addr]\<rparr>) s))
         else Ret (addr, s))
      else
        (let bn = bn - of_nat NDIRECT in
         if bn < of_nat NINDIRECT then
           and_then
             (let addr = addrs (icache s ip) ! NDIRECT in
              if addr = 0 then
                and_then (balloc (idev (icache s ip)) s) (\<lambda>(addr, s).
                Ret (addr, upd_inode ip (\<lambda>i. i\<lparr>addrs := (addrs i)[NDIRECT := addr]\<rparr>) s))
              else Ret (addr, s)) (\<lambda>(addr, s).
           and_then (bread (idev (icache s ip)) addr s) (\<lambda>(bp, s).
           let addr = get32 (data_of bp s) (4 * unat bn) in
           if addr = 0 then
             and_then (balloc (idev (icache s ip)) s) (\<lambda>(addr, s).
             and_then (log_write bp (set_data bp (put32 (4 * unat bn) addr (data_of bp s)) s)) (\<lambda>s.
             and_then (brelse bp s) (\<lambda>s.
             Ret (addr, s))))
           else and_then (brelse bp s) (\<lambda>s. Ret (addr, s))))
         else Panic ''bmap: out of range''))"

definition itrunc_direct :: "nat \<Rightarrow> nat \<Rightarrow> 'a fsst_scheme \<Rightarrow> 'a fsst_scheme outcome" where
  "itrunc_direct ip i s =
     (if addrs (icache s ip) ! i \<noteq> 0 then
        and_then (bfree (idev (icache s ip)) (addrs (icache s ip) ! i) s) (\<lambda>s.
        Ret (upd_inode ip (\<lambda>n. n\<lparr>addrs := (addrs n)[i := 0]\<rparr>) s))
      else Ret s)"

definition itrunc_indirect :: "nat \<Rightarrow> nat \<Rightarrow> nat \<Rightarrow> 'a fsst_scheme \<Rightarrow> 'a fsst_scheme outcome" where
  "itrunc_indirect ip bp j s =
     (let a = get32 (data_of bp s) (4 * j) in
      if a \<noteq> 0 then bfree (idev (icache s ip)) a s else Ret s)"

definition itrunc :: "nat \<Rightarrow> 'a fsst_scheme \<Rightarrow> 'a fsst_scheme outcome" where
  "itrunc ip s =
     and_then (foldo (itrunc_direct ip) [0..<NDIRECT] s) (\<lambda>s.
     and_then
       (if addrs (icache s ip) ! NDIRECT \<noteq> 0 then
          and_then (bread (idev (icache s ip)) (addrs (icache s ip) ! NDIRECT) s) (\<lambda>(bp, s).
          and_then (foldo (itrunc_indirect ip bp) [0..<NINDIRECT] s) (\<lambda>s.
          and_then (brelse bp s) (\<lambda>s.
          and_then (bfree (idev (icache s ip)) (addrs (icache s ip) ! NDIRECT) s) (\<lambda>s.
          Ret (upd_inode ip (\<lambda>n. n\<lparr>addrs := (addrs n)[NDIRECT := 0]\<rparr>) s)))))
        else Ret s) (\<lambda>s.
     iupdate ip (upd_inode ip (\<lambda>n. n\<lparr>isize := 0\<rparr>) s)))"

definition iput :: "nat \<Rightarrow> 'a fsst_scheme \<Rightarrow> 'a fsst_scheme outcome" where
  "iput ip s =
     and_then (acquiresleep (curpid s) (ilk (icache s ip))) (\<lambda>lk.
     let s = upd_inode ip (\<lambda>i. i\<lparr>ilk := lk\<rparr>) s in
     and_then
       (if ivalid (icache s ip) \<and> inlink (icache s ip) = 0 \<and> iref (icache s ip) = 1 then
          and_then (itrunc ip s) (\<lambda>s.
          and_then (iupdate ip (upd_inode ip (\<lambda>i. i\<lparr>itype := 0\<rparr>) s)) (\<lambda>s.
          Ret (upd_inode ip (\<lambda>i. i\<lparr>ivalid := False\<rparr>) s)))
        else Ret s) (\<lambda>s.
     Ret (upd_inode ip (\<lambda>i. i\<lparr>ilk := releasesleep (ilk i), iref := iref i - 1\<rparr>) s)))"

definition iunlockput :: "nat \<Rightarrow> 'a fsst_scheme \<Rightarrow> 'a fsst_scheme outcome" where
  "iunlockput ip s = and_then (iunlock (Some ip) s) (iput ip)"

definition stati :: "nat \<Rightarrow> 'a fsst_scheme \<Rightarrow> stat" where
  "stati ip s = (let i = icache s ip in
     \<lparr>st_type = itype i, st_dev = idev i, st_ino = inum i, st_nlink = inlink i, st_size = isize i\<rparr>)"

text \<open>
  The copying loops of \<open>readi\<close> and \<open>writei\<close>: \<open>n\<close> is what is left (\<open>n - tot\<close>). The first
  returns the bytes stored at \<open>dst\<close>.
\<close>

definition chunk :: "u32 \<Rightarrow> u32 \<Rightarrow> u32" where
  "chunk off n = min n (of_nat BSIZE - off mod of_nat BSIZE)"

lemma chunk_pos:
  assumes "0 < n"
  shows "0 < chunk off n" "chunk off n \<le> n"
proof -
  have "off mod 512 < (512 :: u32)" by (simp add: word_mod_less_divisor)
  then have "0 < 512 - off mod (512 :: u32)" by unat_arith
  then show "0 < chunk off n" using assms by (simp add: chunk_def min_def)
  show "chunk off n \<le> n" by (simp add: chunk_def)
qed

lemma chunk_decreases:
  assumes "n \<noteq> 0"
  shows "unat (n - chunk off n) < unat n"
proof -
  have "0 < n" using assms by (simp add: word_greater_zero_iff)
  from chunk_pos [OF this, of off] show ?thesis by unat_arith
qed

function readi_loop :: "nat \<Rightarrow> u32 \<Rightarrow> u32 \<Rightarrow> bytes \<Rightarrow> 'a fsst_scheme \<Rightarrow> (bytes \<times> 'a fsst_scheme) outcome" where
  "readi_loop ip off n dst s =
     (if n = 0 then Ret (dst, s)
      else
        and_then (bmap ip (off div of_nat BSIZE) s) (\<lambda>(addr, s).
        and_then (bread (idev (icache s ip)) addr s) (\<lambda>(bp, s).
        let m = chunk off n;
            got = subbytes (unat (off mod of_nat BSIZE)) (unat m) (data_of bp s)
        in and_then (brelse bp s) (readi_loop ip (off + m) (n - m) (dst @ got)))))"
  by pat_completeness auto

termination
  by (relation "measure (\<lambda>(ip, off, n, dst, s). unat n)") (simp_all add: chunk_decreases)

declare readi_loop.simps [simp del]

definition readi :: "'a fsst_scheme devsw \<Rightarrow> nat \<Rightarrow> u32 \<Rightarrow> u32 \<Rightarrow> 'a fsst_scheme \<Rightarrow>
    (int \<times> bytes \<times> 'a fsst_scheme) outcome" where
  "readi devsw ip off n s =
     (let i = icache s ip in
      if itype i = T_DEV then
        if sint (major i) < 0 \<or> sint (major i) \<ge> int NDEV then Ret (- 1, [], s)
        else (case dev_read (devsw (unat (major i))) of
                None \<Rightarrow> Ret (- 1, [], s)
              | Some rd \<Rightarrow> rd ip n off s)
      else if off > isize i \<or> off + n < off then Ret (- 1, [], s)
      else
        (let n = (if off + n > isize i then isize i - off else n) in
         and_then (readi_loop ip off n [] s) (\<lambda>(dst, s). Ret (sint n, dst, s))))"

function writei_loop :: "nat \<Rightarrow> u32 \<Rightarrow> u32 \<Rightarrow> bytes \<Rightarrow> 'a fsst_scheme \<Rightarrow> (u32 \<times> 'a fsst_scheme) outcome" where
  "writei_loop ip off n src s =
     (if n = 0 then Ret (off, s)
      else
        and_then (bmap ip (off div of_nat BSIZE) s) (\<lambda>(addr, s).
        and_then (bread (idev (icache s ip)) addr s) (\<lambda>(bp, s).
        let m = chunk off n;
            d = overlay (unat (off mod of_nat BSIZE)) (take (unat m) src) (data_of bp s)
        in and_then (log_write bp (set_data bp d s)) (\<lambda>s.
           and_then (brelse bp s) (writei_loop ip (off + m) (n - m) (drop (unat m) src))))))"
  by pat_completeness auto

termination
  by (relation "measure (\<lambda>(ip, off, n, src, s). unat n)") (simp_all add: chunk_decreases)

declare writei_loop.simps [simp del]

definition writei :: "'a fsst_scheme devsw \<Rightarrow> nat \<Rightarrow> bytes \<Rightarrow> u32 \<Rightarrow> u32 \<Rightarrow> 'a fsst_scheme \<Rightarrow>
    (int \<times> 'a fsst_scheme) outcome" where
  "writei devsw ip src off n s =
     (let i = icache s ip in
      if itype i = T_DEV then
        if sint (major i) < 0 \<or> sint (major i) \<ge> int NDEV then Ret (- 1, s)
        else (case dev_write (devsw (unat (major i))) of
                None \<Rightarrow> Ret (- 1, s)
              | Some wr \<Rightarrow> wr ip (take (unat n) src) off s)
      else if off > isize i \<or> off + n < off then Ret (- 1, s)
      else if off + n > of_nat (MAXFILE * BSIZE) then Ret (- 1, s)
      else
        and_then (writei_loop ip off n src s) (\<lambda>(off, s).
        if n > 0 \<and> off > isize (icache s ip) then
          and_then (iupdate ip (upd_inode ip (\<lambda>i. i\<lparr>isize := off\<rparr>) s)) (\<lambda>s. Ret (sint n, s))
        else Ret (sint n, s)))"

subsection \<open>Directories\<close>

text \<open>A C string or character array held in a list; past its end it reads as NUL.\<close>

definition cp :: "bytes \<Rightarrow> cptr" where
  "cp bs = (\<lambda>i. if i < length bs then bs ! i else 0)"

definition namecmp :: "bytes \<Rightarrow> bytes \<Rightarrow> int" where
  "namecmp s t = strncmp (cp s) (cp t) DIRSIZ"

text \<open>\<open>struct dirent\<close>: a 16-bit inode number and 14 characters.\<close>

definition de_inum :: "bytes \<Rightarrow> u16" where
  "de_inum de = get16 de 0"

definition de_name :: "bytes \<Rightarrow> bytes" where
  "de_name de = subbytes 2 DIRSIZ de"

definition mk_dirent :: "bytes \<Rightarrow> u16 \<Rightarrow> bytes" where
  "mk_dirent name n = put16 0 n (replicate 2 0 @ strncpy (cp name) DIRSIZ)"

text \<open>
  The values of \<open>off\<close> in the loops over a directory. A directory longer than a file can be
  makes \<open>bmap\<close> panic before \<open>off\<close> could wrap around.
\<close>

definition dir_offs :: "u32 \<Rightarrow> u32 list" where
  "dir_offs sz = map (\<lambda>k. of_nat (16 * k)) [0..<(unat sz + 15) div 16]"

fun dirlookup_loop :: "'a fsst_scheme devsw \<Rightarrow> nat \<Rightarrow> bytes \<Rightarrow> u32 list \<Rightarrow> 'a fsst_scheme \<Rightarrow>
    ((nat \<times> u32) option \<times> 'a fsst_scheme) outcome" where
  "dirlookup_loop devsw dp name [] s = Ret (None, s)"
| "dirlookup_loop devsw dp name (off # offs) s =
     and_then (readi devsw dp off 16 s) (\<lambda>(r, de, s).
     if r \<noteq> 16 then Panic ''dirlookup read''
     else if de_inum de = 0 then dirlookup_loop devsw dp name offs s
     else if namecmp name (de_name de) = 0 then
       and_then (iget (idev (icache s dp)) (ucast (de_inum de)) s) (\<lambda>(ip, s). Ret (Some (ip, off), s))
     else dirlookup_loop devsw dp name offs s)"

text \<open>The inode found and the offset stored at \<open>*poff\<close>.\<close>

definition dirlookup :: "'a fsst_scheme devsw \<Rightarrow> nat \<Rightarrow> bytes \<Rightarrow> 'a fsst_scheme \<Rightarrow>
    ((nat \<times> u32) option \<times> 'a fsst_scheme) outcome" where
  "dirlookup devsw dp name s =
     (if itype (icache s dp) \<noteq> T_DIR then Panic ''dirlookup not DIR''
      else dirlookup_loop devsw dp name (dir_offs (isize (icache s dp))) s)"

fun dirlink_loop :: "'a fsst_scheme devsw \<Rightarrow> nat \<Rightarrow> u32 list \<Rightarrow> u32 \<Rightarrow> 'a fsst_scheme \<Rightarrow>
    (u32 \<times> 'a fsst_scheme) outcome" where
  "dirlink_loop devsw dp [] off s = Ret (off, s)"
| "dirlink_loop devsw dp (off # offs) _ s =
     and_then (readi devsw dp off 16 s) (\<lambda>(r, de, s).
     if r \<noteq> 16 then Panic ''dirlink read''
     else if de_inum de = 0 then Ret (off, s)
     else dirlink_loop devsw dp offs (off + 16) s)"

definition dirlink :: "'a fsst_scheme devsw \<Rightarrow> nat \<Rightarrow> bytes \<Rightarrow> u32 \<Rightarrow> 'a fsst_scheme \<Rightarrow>
    (int \<times> 'a fsst_scheme) outcome" where
  "dirlink devsw dp name n s =
     and_then (dirlookup devsw dp name s) (\<lambda>(found, s).
     case found of
       Some (ip, _) \<Rightarrow> and_then (iput ip s) (\<lambda>s. Ret (- 1, s))
     | None \<Rightarrow>
         and_then (dirlink_loop devsw dp (dir_offs (isize (icache s dp))) 0 s) (\<lambda>(off, s).
         and_then (writei devsw dp (mk_dirent name (ucast n)) off 16 s) (\<lambda>(r, s).
         if r \<noteq> 16 then Panic ''dirlink'' else Ret (0, s))))"

subsection \<open>Paths\<close>

text \<open>
  A path is the string up to its NUL. \<open>skipelem\<close> returns the element (cut to \<open>DIRSIZ\<close>) and
  the rest, \<open>None\<close> when there is no element.
\<close>

definition SLASH :: u8 where "SLASH = 47"

definition skipelem :: "bytes \<Rightarrow> (bytes \<times> bytes) option" where
  "skipelem path =
     (let path = dropWhile (\<lambda>c. c = SLASH) path in
      if path = [] then None
      else
        (let s = takeWhile (\<lambda>c. c \<noteq> SLASH) path;
             path = dropWhile (\<lambda>c. c \<noteq> SLASH) path;
             name = (if length s \<ge> DIRSIZ then take DIRSIZ s else s)
         in Some (name, dropWhile (\<lambda>c. c = SLASH) path)))"

lemma skipelem_shorter:
  assumes "skipelem path = Some (name, rest)"
  shows "length rest < length path"
proof -
  let ?p = "dropWhile (\<lambda>c. c = SLASH) path"
  have p: "?p \<noteq> []" "rest = dropWhile (\<lambda>c. c = SLASH) (dropWhile (\<lambda>c. c \<noteq> SLASH) ?p)"
    using assms by (auto simp: skipelem_def Let_def split: if_splits)
  have "hd ?p \<noteq> SLASH" using hd_dropWhile p(1) by blast
  then have "length (dropWhile (\<lambda>c. c \<noteq> SLASH) ?p) < length ?p"
    using p(1) by (cases ?p) (auto simp: less_Suc_eq_le length_dropWhile_le)
  moreover have "length rest \<le> length (dropWhile (\<lambda>c. c \<noteq> SLASH) ?p)"
    unfolding p(2) by (rule length_dropWhile_le)
  moreover have "length ?p \<le> length path" by (rule length_dropWhile_le)
  ultimately show ?thesis by simp
qed

text \<open>The loop of \<open>namex\<close>; \<open>elem\<close> is what the buffer \<open>name\<close> holds.\<close>

function namex_loop :: "'a fsst_scheme devsw \<Rightarrow> bool \<Rightarrow> bytes \<Rightarrow> bytes \<Rightarrow> nat \<Rightarrow> 'a fsst_scheme \<Rightarrow>
    ((nat \<times> bytes) option \<times> 'a fsst_scheme) outcome" where
  "namex_loop devsw parent path elem ip s = (case skipelem path of
      None \<Rightarrow>
        if parent then and_then (iput ip s) (\<lambda>s. Ret (None, s))
        else Ret (Some (ip, elem), s)
    | Some (name, path) \<Rightarrow>
        and_then (ilock (Some ip) s) (\<lambda>s.
        if itype (icache s ip) \<noteq> T_DIR then and_then (iunlockput ip s) (\<lambda>s. Ret (None, s))
        else if parent \<and> path = [] then and_then (iunlock (Some ip) s) (\<lambda>s. Ret (Some (ip, name), s))
        else
          and_then (dirlookup devsw ip name s) (\<lambda>(found, s).
          case found of
            None \<Rightarrow> and_then (iunlockput ip s) (\<lambda>s. Ret (None, s))
          | Some (nxt, _) \<Rightarrow> and_then (iunlockput ip s) (namex_loop devsw parent path name nxt))))"
  by pat_completeness auto

termination
  by (relation "measure (\<lambda>(devsw, parent, path, elem, ip, s). length path)")
    (auto intro: skipelem_shorter)

declare namex_loop.simps [simp del]

text \<open>\<open>cwd\<close> is \<open>myproc()->cwd\<close>.\<close>

definition namex :: "'a fsst_scheme devsw \<Rightarrow> nat \<Rightarrow> bytes \<Rightarrow> bool \<Rightarrow> 'a fsst_scheme \<Rightarrow>
    ((nat \<times> bytes) option \<times> 'a fsst_scheme) outcome" where
  "namex devsw cwd path parent s =
     and_then (if path \<noteq> [] \<and> hd path = SLASH then iget ROOTDEV ROOTINO s else Ret (idup cwd s)) (\<lambda>(ip, s).
     namex_loop devsw parent path [] ip s)"

definition namei :: "'a fsst_scheme devsw \<Rightarrow> nat \<Rightarrow> bytes \<Rightarrow> 'a fsst_scheme \<Rightarrow>
    (nat option \<times> 'a fsst_scheme) outcome" where
  "namei devsw cwd path s =
     and_then (namex devsw cwd path False s) (\<lambda>(r, s). Ret (map_option fst r, s))"

definition nameiparent :: "'a fsst_scheme devsw \<Rightarrow> nat \<Rightarrow> bytes \<Rightarrow> 'a fsst_scheme \<Rightarrow>
    ((nat \<times> bytes) option \<times> 'a fsst_scheme) outcome" where
  "nameiparent devsw cwd path s = namex devsw cwd path True s"

end
