(* ===== verification/Fs_Blocks.thy ===== *)
theory Fs_Blocks
  imports Fs
begin

text \<open>
  Block allocation and file contents over the log: \<open>balloc\<close> and \<open>bfree\<close> against the free
  map, \<open>bmap\<close>, \<open>readi\<close> and \<open>writei\<close> against a file seen as a sequence of blocks. Everything
  here goes through the contract of the log (\<open>jn\<close>).
\<close>

section \<open>Layout\<close>

lemma fsst_of_more:
  fixes s s' :: "'a fsst_scheme"
  assumes "logst.more s' = logst.more s"
  shows "fsb s' = fsb s" "icache s' = icache s" "fsst.more s' = fsst.more s"
  using assms by (cases s; cases s'; simp)+

lemma log_absD:
  fixes s s' :: "'a fsst_scheme"
  assumes "log_abs s' = X" and "jrest X = jrest (log_abs s)"
  shows "bview s' = jview X" "platter s' 1 = jdisk X" "bdirty s' = jlog X" "bheld s' = jheld X"
    "curpid s' = curpid s" "lstart s' = lstart s" "lsize s' = lsize s" "outstanding s' = outstanding s"
    "committing s' = committing s" "fsb s' = fsb s" "icache s' = icache s" "fsst.more s' = fsst.more s"
proof -
  have r: "jrest (log_abs s') = jrest (log_abs s)" using assms by simp
  then have "logst.more s' = logst.more s" by simp
  then show "fsb s' = fsb s" "icache s' = icache s" "fsst.more s' = fsst.more s"
    by (rule fsst_of_more)+
  show "bview s' = jview X" "platter s' 1 = jdisk X" "bdirty s' = jlog X" "bheld s' = jheld X"
    using assms(1) by auto
  show "curpid s' = curpid s" "lstart s' = lstart s" "lsize s' = lsize s" "outstanding s' = outstanding s"
    "committing s' = committing s"
    using r by auto
qed

text \<open>
  The layout of a disk of \<^verbatim>\<open>mkfs\<close>: boot block, superblock, log, inodes, one block of free
  map, data. \<open>data_start\<close> is the first data block.
\<close>

definition data_start :: "superblock \<Rightarrow> nat" where
  "data_start sb = unat (sb_bmapstart sb) + 1"

definition fs_geom :: "'a fsst_scheme \<Rightarrow> bool" where
  "fs_geom s \<longleftrightarrow> (let sb = fsb s in
     unat (sb_size sb) \<le> 1000 \<and> log_geom (lstart s) (lsize s) \<and>
     unat (lstart s) + nat (lsize s) \<le> unat (sb_inodestart sb) \<and>
     unat (sb_inodestart sb) + unat (sb_ninodes sb) div IPB < unat (sb_bmapstart sb) \<and>
     data_start sb < unat (sb_size sb))"

text \<open>The free map, and what it must say for the allocator to hand out data blocks only.\<close>

definition used :: "'a fsst_scheme \<Rightarrow> nat \<Rightarrow> bool" where
  "used s b = map_bit b (bview s (sb_bmapstart (fsb s)))"

definition meta_used :: "'a fsst_scheme \<Rightarrow> bool" where
  "meta_used s \<longleftrightarrow> (\<forall>b < data_start (fsb s). used s b)"

text \<open>Room for \<open>k\<close> more blocks in the transaction, with a buffer to spare.\<close>

definition room :: "'a fsst_scheme \<Rightarrow> nat \<Rightarrow> bool" where
  "room s k \<longleftrightarrow> card (bdirty s) + k \<le> 28 \<and> int (card (bdirty s) + k) \<le> lsize s - 2"

lemma map_bit_iff: "map_bit bi d \<longleftrightarrow> bit (d ! (bi div 8)) (bi mod 8)"
  by (simp add: map_bit_def push_bit_eq_mult and_exp_eq_0_iff_not_bit)

lemma length_map_set [simp]: "length (map_set bi d) = length d"
  by (simp add: map_set_def)

lemma length_map_clear [simp]: "length (map_clear bi d) = length d"
  by (simp add: map_clear_def)

lemma div8_eq_iff: "i div 8 = j div 8 \<Longrightarrow> i mod 8 = j mod 8 \<longleftrightarrow> i = (j :: nat)"
  by (metis div_mult_mod_eq)

lemma bit_single: "bit (push_bit (j mod 8) 1 :: u8) (i mod 8) \<longleftrightarrow> i mod 8 = j mod 8"
  by (auto simp: bit_exp_iff)

lemma map_bit_set:
  assumes "j < 8 * length d"
  shows "map_bit i (map_set j d) \<longleftrightarrow> i = j \<or> map_bit i d"
proof (cases "i div 8 = j div 8")
  case True
  have "j div 8 < length d" using assms by auto
  moreover have "bit (push_bit (j mod 8) 1 :: u8) (i mod 8) \<longleftrightarrow> i mod 8 = j mod 8"
    by (rule bit_single)
  ultimately show ?thesis
    using True by (simp add: map_bit_iff map_set_def bit_or_iff div8_eq_iff) auto
next
  case False
  then show ?thesis by (auto simp: map_bit_iff map_set_def)
qed

lemma map_bit_clear:
  assumes "j < 8 * length d"
  shows "map_bit i (map_clear j d) \<longleftrightarrow> i \<noteq> j \<and> map_bit i d"
proof (cases "i div 8 = j div 8")
  case True
  have "j div 8 < length d" using assms by auto
  moreover have "bit (push_bit (j mod 8) 1 :: u8) (i mod 8) \<longleftrightarrow> i mod 8 = j mod 8"
    by (rule bit_single)
  moreover have "i mod 8 < 8" by simp
  ultimately show ?thesis
    using True by (simp add: map_bit_iff map_clear_def bit_and_iff bit_not_iff div8_eq_iff) auto
next
  case False
  then show ?thesis by (auto simp: map_bit_iff map_clear_def)
qed

section \<open>Allocation\<close>

lemma finite_bdirty [simp]: "finite (bdirty s)"
  by (simp add: bdirty_def)

lemma card_insert_bdirty: "card (insert b (bdirty s)) \<le> Suc (card (bdirty s))"
  by (simp add: card_insert_if)

text \<open>When a block may be read, and when it may be recorded.\<close>

definition can_write :: "'a fsst_scheme \<Rightarrow> u32 \<Rightarrow> bool" where
  "can_write s b \<longleftrightarrow> b < FSSIZE \<and> b \<notin> log_area (lstart s) (lsize s) \<and> 1 \<le> outstanding s"

text \<open>The update of a block as the file system does it.\<close>

lemma fs_update:
  fixes s :: "'a fsst_scheme"
  assumes "log_inv s" and "can_write s b" and "b \<notin> ran (bheld s)" and "card (dom (bheld s)) \<le> 1" and "room s 0"
  shows "\<exists>i s1. bread 1 b s = Ret (i, s1) \<and> log_inv s1 \<and> data_of i s1 = bview s b \<and> bheld s i = None \<and>
    log_abs s1 = (log_abs s)\<lparr>jheld := (bheld s)(i \<mapsto> b)\<rparr> \<and>
    (\<forall>d. length d = BSIZE \<longrightarrow> (\<exists>s2 s3. log_write i (set_data i d s1) = Ret s2 \<and> brelse i s2 = Ret s3 \<and> log_inv s3 \<and>
      log_abs s3 = (log_abs s)\<lparr>jview := (bview s)(b := d), jlog := insert b (bdirty s)\<rparr>))"
proof -
  have "log_writable (jrest (log_abs s)) b" "card (bdirty s) < log_cap (jrest (log_abs s))"
    using assms(2,5) by (auto simp: log_writable_def log_cap_def can_write_def room_def)
  moreover have "card (dom (bheld s)) + card (bdirty s) < NBUF" using assms(4,5) by (simp add: room_def)
  ultimately show ?thesis
    using jn.update_block [OF assms(1), of b] assms(2,3) by (simp add: can_write_def)
qed

lemma fs_peek:
  fixes s :: "'a fsst_scheme"
  assumes "log_inv s" and "b < FSSIZE" and "b \<notin> ran (bheld s)" and "card (dom (bheld s)) \<le> 1" and "room s 0"
  shows "\<exists>i s1 s2. bread 1 b s = Ret (i, s1) \<and> log_inv s1 \<and> bheld s i = None \<and> data_of i s1 = bview s b \<and>
    log_abs s1 = (log_abs s)\<lparr>jheld := (bheld s)(i \<mapsto> b)\<rparr> \<and>
    brelse i s1 = Ret s2 \<and> log_inv s2 \<and> log_abs s2 = log_abs s"
proof -
  have "card (dom (bheld s)) + card (bdirty s) < NBUF" using assms(4,5) by (simp add: room_def)
  then show ?thesis using jn.peek [OF assms(1), of b] assms(2,3) by simp
qed

lemma bzero_spec:
  fixes s :: "'a fsst_scheme"
  assumes "log_inv s" and "can_write s b" and "b \<notin> ran (bheld s)" and "card (dom (bheld s)) \<le> 1" and "room s 0"
  shows "\<exists>s'. bzero 1 b s = Ret s' \<and> log_inv s' \<and>
    log_abs s' = (log_abs s)\<lparr>jview := (bview s)(b := replicate BSIZE 0), jlog := insert b (bdirty s)\<rparr>"
proof -
  obtain i s1 where 1: "bread 1 b s = Ret (i, s1)" and
      2: "\<forall>d. length d = BSIZE \<longrightarrow> (\<exists>s2 s3. log_write i (set_data i d s1) = Ret s2 \<and> brelse i s2 = Ret s3 \<and> log_inv s3 \<and>
      log_abs s3 = (log_abs s)\<lparr>jview := (bview s)(b := d), jlog := insert b (bdirty s)\<rparr>)"
    using fs_update [OF assms] by blast
  then obtain s2 s3 where "log_write i (set_data i (replicate BSIZE 0) s1) = Ret s2" "brelse i s2 = Ret s3"
      "log_inv s3" "log_abs s3 = (log_abs s)\<lparr>jview := (bview s)(b := replicate BSIZE 0), jlog := insert b (bdirty s)\<rparr>"
    by (metis length_replicate)
  then show ?thesis using 1 by (simp add: bzero_def)
qed

lemma fs_geomD:
  assumes "fs_geom s"
  shows "unat (sb_size (fsb s)) \<le> 1000" "data_start (fsb s) < unat (sb_size (fsb s))"
    "log_geom (lstart s) (lsize s)"
    "unat b \<ge> unat (sb_inodestart (fsb s)) \<Longrightarrow> b \<notin> log_area (lstart s) (lsize s)"
    "unat (sb_bmapstart (fsb s)) \<ge> unat (sb_inodestart (fsb s))"
    "sb_bmapstart (fsb s) < FSSIZE"
  using assms by (auto simp: fs_geom_def Let_def log_area_def data_start_def word_less_nat_alt)

lemma bmap_nonzero: "fs_geom s \<Longrightarrow> sb_bmapstart (fsb s) \<noteq> 0"
  by (auto simp: fs_geom_def Let_def)

lemma can_write_from:
  assumes "fs_geom s" and "1 \<le> outstanding s" and "unat b < unat (sb_size (fsb s))"
    and "unat (sb_inodestart (fsb s)) \<le> unat b"
  shows "can_write s b"
  using fs_geomD(1) [OF assms(1)] fs_geomD(4) [OF assms(1), of b] assms by (auto simp: can_write_def word_less_nat_alt)

lemma can_write_bmap:
  assumes "fs_geom s" and "1 \<le> outstanding s"
  shows "can_write s (sb_bmapstart (fsb s))"
  using fs_geomD [OF assms(1)] assms by (intro can_write_from) (auto simp: data_start_def)

lemma BBLOCK_0: "unat b < 4096 \<Longrightarrow> BBLOCK b sb = sb_bmapstart sb"
proof -
  assume "unat b < 4096"
  then have "b div 4096 = 0" by (simp add: word_unat_eq_iff unat_div)
  then show ?thesis by (simp add: BBLOCK_def)
qed

lemma balloc_one:
  assumes "fs_geom s"
  shows "balloc d s = balloc_loop d [0] s"
proof -
  have n: "(unat (sb_size (fsb s)) + 4096 - 1) div 4096 = 1" using fs_geomD(1,2) [OF assms] by auto
  show ?thesis unfolding balloc_def n by simp
qed

text \<open>\<open>balloc\<close> takes a block that the map calls free, marks it, and zeroes it.\<close>

lemma balloc_spec:
  fixes s :: "'a fsst_scheme"
  assumes inv: "log_inv s" and g: "fs_geom s" and m: "meta_used s" and out: "1 \<le> outstanding s"
    and h: "card (dom (bheld s)) \<le> 1" "\<forall>b \<in> ran (bheld s). data_start (fsb s) \<le> unat b \<and> used s (unat b)"
    and rm: "room s 2" and free: "\<exists>b < unat (sb_size (fsb s)). \<not> used s b"
  shows "\<exists>b s'. balloc 1 s = Ret (b, s') \<and> log_inv s' \<and> data_start (fsb s) \<le> unat b \<and>
    unat b < unat (sb_size (fsb s)) \<and> \<not> used s (unat b) \<and>
    log_abs s' = (let m = sb_bmapstart (fsb s) in (log_abs s)\<lparr>
      jview := (bview s)(m := map_set (unat b) (bview s m), b := replicate BSIZE 0),
      jlog := insert b (insert m (bdirty s))\<rparr>)"
proof -
  let ?m = "sb_bmapstart (fsb s)" and ?sz = "unat (sb_size (fsb s))"
  note gd = fs_geomD [OF g]
  have "?m \<notin> ran (bheld s)" using h(2) by (auto simp: data_start_def)
  moreover have "room s 0" using rm by (simp add: room_def)
  ultimately obtain i s1 where 1: "bread 1 ?m s = Ret (i, s1)" "data_of i s1 = bview s ?m"
      "log_abs s1 = (log_abs s)\<lparr>jheld := (bheld s)(i \<mapsto> ?m)\<rparr>"
      "\<forall>d. length d = BSIZE \<longrightarrow> (\<exists>s2 s3. log_write i (set_data i d s1) = Ret s2 \<and> brelse i s2 = Ret s3 \<and> log_inv s3 \<and>
        log_abs s3 = (log_abs s)\<lparr>jview := (bview s)(?m := d), jlog := insert ?m (bdirty s)\<rparr>)"
    using fs_update [OF inv can_write_bmap [OF g out] _ h(1)] by blast
  have fsb1: "fsb s1 = fsb s" using log_absD(10) [OF 1(3), of s] by simp
  let ?P = "\<lambda>bi. \<not> map_bit bi (bview s ?m)"
  have "find ?P [0..<min BPB ?sz] \<noteq> None"
    using free gd(1) by (auto simp: find_None_iff used_def)
  then obtain bi where bi: "find ?P [0..<min BPB ?sz] = Some bi" by blast
  then have free_bi: "\<not> used s bi" "bi < ?sz" by (auto simp: find_Some_iff used_def)
  have ds: "data_start (fsb s) \<le> bi" using m free_bi(1) by (auto simp: meta_used_def not_less [symmetric])
  define b where "b = (of_nat bi :: u32)"
  have ub: "unat b = bi" unfolding b_def using free_bi(2) gd(1) by (intro unat_of_nat_u32) simp
  let ?d = "map_set bi (bview s ?m)"
  have len: "length (bview s x) = BSIZE" for x using bio_length [OF log_invD(1) [OF inv]] .
  obtain s2 s3 where 2: "log_write i (set_data i ?d s1) = Ret s2" "brelse i s2 = Ret s3" "log_inv s3"
      "log_abs s3 = (log_abs s)\<lparr>jview := (bview s)(?m := ?d), jlog := insert ?m (bdirty s)\<rparr>"
    using 1(4) len by (metis length_map_set)
  note d3 = log_absD [OF 2(4), of s, simplified]
  have cw: "can_write s3 b"
    using can_write_from [OF g out, of b] ub free_bi(2) ds gd(5) d3 by (simp add: can_write_def data_start_def)
  have nb: "b \<notin> ran (bheld s3)" using h(2) free_bi(1) ub d3(4) by auto
  have rm3: "room s3 0" using rm d3 card_insert_bdirty [of ?m s] by (simp add: room_def)
  obtain s4 where 4: "bzero 1 b s3 = Ret s4" "log_inv s4"
      "log_abs s4 = (log_abs s3)\<lparr>jview := (bview s3)(b := replicate BSIZE 0), jlog := insert b (bdirty s3)\<rparr>"
    using bzero_spec [OF 2(3) cw nb _ rm3] h(1) d3(4) by auto
  have "BBLOCK 0 (fsb s) = ?m" by (rule BBLOCK_0) simp
  then have "balloc 1 s = Ret (b, s4)"
    unfolding balloc_one [OF g] using 1(1,2) bi 2(1,2) 4(1) by (simp add: fsb1 b_def)
  moreover have "log_abs s4 = (log_abs s)\<lparr>jview := (bview s)(?m := ?d, b := replicate BSIZE 0),
      jlog := insert b (insert ?m (bdirty s))\<rparr>"
    unfolding 4(3) using d3 2(4) by simp
  ultimately show ?thesis using 4(2) ds free_bi ub by (auto simp: Let_def)
qed

lemma bfree_spec:
  fixes s :: "'a fsst_scheme"
  assumes inv: "log_inv s" and g: "fs_geom s" and out: "1 \<le> outstanding s"
    and h: "card (dom (bheld s)) \<le> 1" "sb_bmapstart (fsb s) \<notin> ran (bheld s)"
    and rm: "room s 1" and b: "unat b < unat (sb_size (fsb s))" "used s (unat b)"
  shows "\<exists>s'. bfree 1 b s = Ret s' \<and> log_inv s' \<and>
    log_abs s' = (let m = sb_bmapstart (fsb s) in (log_abs s)\<lparr>
      jview := (bview s)(m := map_clear (unat b) (bview s m)), jlog := insert m (bdirty s)\<rparr>)"
proof -
  let ?m = "sb_bmapstart (fsb s)"
  have "room s 0" using rm by (simp add: room_def)
  then obtain i s1 where 1: "bread 1 ?m s = Ret (i, s1)" "data_of i s1 = bview s ?m"
      "\<forall>d. length d = BSIZE \<longrightarrow> (\<exists>s2 s3. log_write i (set_data i d s1) = Ret s2 \<and> brelse i s2 = Ret s3 \<and> log_inv s3 \<and>
        log_abs s3 = (log_abs s)\<lparr>jview := (bview s)(?m := d), jlog := insert ?m (bdirty s)\<rparr>)"
    using fs_update [OF inv can_write_bmap [OF g out] h(2) h(1)] by blast
  have ub: "unat b < 4096" using b(1) fs_geomD(1) [OF g] by simp
  have len: "length (bview s ?m) = BSIZE" using bio_length [OF log_invD(1) [OF inv]] .
  obtain s2 s3 where 2: "log_write i (set_data i (map_clear (unat b) (bview s ?m)) s1) = Ret s2" "brelse i s2 = Ret s3"
      "log_inv s3" "log_abs s3 = (log_abs s)\<lparr>jview := (bview s)(?m := map_clear (unat b) (bview s ?m)),
        jlog := insert ?m (bdirty s)\<rparr>"
    using 1(3) len by (metis length_map_clear)
  have "unat (b mod 4096) = unat b" using ub by (simp add: unat_mod)
  then have "bfree 1 b s = Ret s3"
    using 1(1,2) 2(1,2) b(2) BBLOCK_0 [OF ub] by (simp add: bfree_def used_def)
  then show ?thesis using 2(3,4) by (simp add: Let_def)
qed

section \<open>Files as sequences of blocks\<close>

lemma icache_cache [simp]:
  "bio_inv (upd_inode ip f s) = bio_inv s" "bview (upd_inode ip f s) = bview s"
  "bdirty (upd_inode ip f s) = bdirty s" "bheld (upd_inode ip f s) = bheld s"
  unfolding upd_inode_def by (rule bio_inv_cong bview_cong bdirty_cong bheld_cong; simp)+

lemma icache_fields [simp]:
  "platter (upd_inode ip f s) = platter s" "lstart (upd_inode ip f s) = lstart s"
  "lsize (upd_inode ip f s) = lsize s" "outstanding (upd_inode ip f s) = outstanding s"
  "committing (upd_inode ip f s) = committing s" "fsb (upd_inode ip f s) = fsb s"
  "curpid (upd_inode ip f s) = curpid s" "fsst.more (upd_inode ip f s) = fsst.more s"
  "icache (upd_inode ip f s) = (icache s)(ip := f (icache s ip))"
  by (simp_all add: upd_inode_def)

lemma log_inv_icache [simp]: "log_inv (upd_inode ip f s) = log_inv s"
  by (simp add: log_inv_def) (simp add: upd_inode_def)

lemma fs_geom_icache [simp]: "fs_geom (upd_inode ip f s) = fs_geom s"
  by (simp add: fs_geom_def)

lemma used_icache [simp]: "used (upd_inode ip f s) = used s"
  by (simp add: used_def fun_eq_iff)

lemma meta_used_icache [simp]: "meta_used (upd_inode ip f s) = meta_used s"
  by (simp add: meta_used_def)

lemma room_icache [simp]: "room (upd_inode ip f s) k = room s k"
  by (simp add: room_def)

text \<open>The block that holds block \<open>bn\<close> of a file, 0 for none, and the contents of that block.\<close>

definition ind_entry :: "(u32 \<Rightarrow> bytes) \<Rightarrow> inode \<Rightarrow> nat \<Rightarrow> u32" where
  "ind_entry v i k = (if addrs i ! NDIRECT = 0 then 0 else get32 (v (addrs i ! NDIRECT)) (4 * k))"

definition baddr :: "(u32 \<Rightarrow> bytes) \<Rightarrow> inode \<Rightarrow> nat \<Rightarrow> u32" where
  "baddr v i bn = (if bn < NDIRECT then addrs i ! bn else ind_entry v i (bn - NDIRECT))"

definition fblock :: "(u32 \<Rightarrow> bytes) \<Rightarrow> inode \<Rightarrow> nat \<Rightarrow> bytes" where
  "fblock v i bn = (if baddr v i bn = 0 then replicate BSIZE 0 else v (baddr v i bn))"

text \<open>
  A file whose blocks are data blocks in use, no two of them the same, the indirect block
  included.
\<close>

definition block_ok :: "'a fsst_scheme \<Rightarrow> u32 \<Rightarrow> bool" where
  "block_ok s b \<longleftrightarrow> data_start (fsb s) \<le> unat b \<and> unat b < unat (sb_size (fsb s)) \<and> used s (unat b)"

definition file_ok :: "'a fsst_scheme \<Rightarrow> nat \<Rightarrow> bool" where
  "file_ok s ip \<longleftrightarrow> (let i = icache s ip; a = baddr (bview s) i; x = addrs i ! NDIRECT in
     length (addrs i) = NDIRECT + 1 \<and> idev i = 1 \<and>
     (\<forall>bn < MAXFILE. a bn \<noteq> 0 \<longrightarrow> block_ok s (a bn) \<and> a bn \<noteq> x) \<and>
     (x \<noteq> 0 \<longrightarrow> block_ok s x) \<and>
     (\<forall>bn < MAXFILE. \<forall>bn' < MAXFILE. bn \<noteq> bn' \<and> a bn \<noteq> 0 \<longrightarrow> a bn \<noteq> a bn'))"

text \<open>Everything the allocator needs, for the file with inode \<open>ip\<close>.\<close>

definition fs_ok :: "'a fsst_scheme \<Rightarrow> nat \<Rightarrow> bool" where
  "fs_ok s ip \<longleftrightarrow> log_inv s \<and> fs_geom s \<and> meta_used s \<and> 1 \<le> outstanding s \<and> bheld s = Map.empty \<and>
     file_ok s ip"

definition free_blocks :: "'a fsst_scheme \<Rightarrow> nat set" where
  "free_blocks s = {b. b < unat (sb_size (fsb s)) \<and> \<not> used s b}"

text \<open>
  What an operation on one file leaves alone: every block in use that is neither a block of
  the file nor the free map.
\<close>

definition own_blocks :: "(u32 \<Rightarrow> bytes) \<Rightarrow> inode \<Rightarrow> u32 set" where
  "own_blocks v i = {a. a \<noteq> 0 \<and> (a = addrs i ! NDIRECT \<or> (\<exists>bn < MAXFILE. a = baddr v i bn))}"

lemma file_okD:
  assumes "file_ok s ip"
  shows "length (addrs (icache s ip)) = NDIRECT + 1" "idev (icache s ip) = 1"
    "bn < MAXFILE \<Longrightarrow> baddr (bview s) (icache s ip) bn \<noteq> 0 \<Longrightarrow> block_ok s (baddr (bview s) (icache s ip) bn)"
    "bn < MAXFILE \<Longrightarrow> baddr (bview s) (icache s ip) bn \<noteq> 0 \<Longrightarrow>
       baddr (bview s) (icache s ip) bn \<noteq> addrs (icache s ip) ! NDIRECT"
    "addrs (icache s ip) ! NDIRECT \<noteq> 0 \<Longrightarrow> block_ok s (addrs (icache s ip) ! NDIRECT)"
    "bn < MAXFILE \<Longrightarrow> bn' < MAXFILE \<Longrightarrow> bn \<noteq> bn' \<Longrightarrow> baddr (bview s) (icache s ip) bn \<noteq> 0 \<Longrightarrow>
       baddr (bview s) (icache s ip) bn \<noteq> baddr (bview s) (icache s ip) bn'"
  using assms by (auto simp: file_ok_def Let_def)

lemma fs_okD:
  assumes "fs_ok s ip"
  shows "log_inv s" "fs_geom s" "meta_used s" "1 \<le> outstanding s" "bheld s = Map.empty" "file_ok s ip"
  using assms by (auto simp: fs_ok_def)

lemma block_ok_less: "fs_geom s \<Longrightarrow> block_ok s b \<Longrightarrow> b < FSSIZE"
  using fs_geomD(1) [of s] by (auto simp: block_ok_def word_less_nat_alt)

lemma block_ok_nonzero: "block_ok s b \<Longrightarrow> b \<noteq> 0"
  by (auto simp: block_ok_def data_start_def)

lemma block_ok_not_bmap: "block_ok s b \<Longrightarrow> b \<noteq> sb_bmapstart (fsb s)"
  by (auto simp: block_ok_def data_start_def)

section \<open>Giving a file another block\<close>

text \<open>The indirect block of a file stays, or is one that was free.\<close>

definition ind_kept :: "nat \<Rightarrow> 'a fsst_scheme \<Rightarrow> 'a fsst_scheme \<Rightarrow> bool" where
  "ind_kept ip s s' \<longleftrightarrow>
     addrs (icache s' ip) ! NDIRECT = addrs (icache s ip) ! NDIRECT \<or>
     addrs (icache s ip) ! NDIRECT = 0 \<and> \<not> used s (unat (addrs (icache s' ip) ! NDIRECT))"

text \<open>
  \<open>file_step ip k s s'\<close>: from \<open>s\<close> to \<open>s'\<close> only the file with inode \<open>ip\<close> changed. It got
  at most \<open>k\<close> new blocks, which were free, and kept the ones it had; every other block in
  use, the free map apart, and every other inode is as before.
\<close>

definition file_step :: "nat \<Rightarrow> nat \<Rightarrow> 'a fsst_scheme \<Rightarrow> 'a fsst_scheme \<Rightarrow> bool" where
  "file_step ip k s s' \<longleftrightarrow>
     log_inv s' \<and> curpid s' = curpid s \<and> lstart s' = lstart s \<and> lsize s' = lsize s \<and>
     outstanding s' = outstanding s \<and> committing s' = committing s \<and> fsb s' = fsb s \<and>
     fsst.more s' = fsst.more s \<and> bheld s' = bheld s \<and> platter s' 1 = platter s 1 \<and>
     (\<exists>as. icache s' = (icache s)(ip := (icache s ip)\<lparr>addrs := as\<rparr>)) \<and> file_ok s' ip \<and>
     (\<forall>bn < MAXFILE. baddr (bview s) (icache s ip) bn \<noteq> 0 \<longrightarrow>
        baddr (bview s') (icache s' ip) bn = baddr (bview s) (icache s ip) bn) \<and>
     ind_kept ip s s' \<and> (\<forall>b. used s b \<longrightarrow> used s' b) \<and>
     own_blocks (bview s') (icache s' ip) \<subseteq> own_blocks (bview s) (icache s ip) \<union> {b. \<not> used s (unat b)} \<and>
     (\<forall>b. used s (unat b) \<and> b \<noteq> sb_bmapstart (fsb s) \<and> b \<notin> own_blocks (bview s) (icache s ip) \<longrightarrow>
        bview s' b = bview s b) \<and>
     card (free_blocks s) \<le> card (free_blocks s') + k"

text \<open>
  \<open>grow ip B k s s'\<close>: such a step that also keeps the contents of the file, new blocks
  reading as zeroes, and records at most the blocks \<open>B\<close>.
\<close>

definition grow :: "nat \<Rightarrow> u32 set \<Rightarrow> nat \<Rightarrow> 'a fsst_scheme \<Rightarrow> 'a fsst_scheme \<Rightarrow> bool" where
  "grow ip B k s s' \<longleftrightarrow> file_step ip k s s' \<and>
     (\<forall>bn < MAXFILE. fblock (bview s') (icache s' ip) bn = fblock (bview s) (icache s ip) bn) \<and>
     bdirty s' \<subseteq> bdirty s \<union> B"

lemma finite_free_blocks [simp]: "finite (free_blocks s)"
  by (simp add: free_blocks_def)

lemma free_blocks_set:
  assumes "\<And>c. used s' c \<longleftrightarrow> c = b \<or> used s c" and "fsb s' = fsb s"
  shows "card (free_blocks s) \<le> card (free_blocks s') + 1"
proof -
  have "free_blocks s \<subseteq> insert b (free_blocks s')" using assms by (auto simp: free_blocks_def)
  then have "card (free_blocks s) \<le> card (insert b (free_blocks s'))" by (intro card_mono) simp_all
  also have "\<dots> \<le> card (free_blocks s') + 1" by (simp add: card_insert_if)
  finally show ?thesis .
qed

lemma used_after_balloc:
  assumes "bview s' (sb_bmapstart (fsb s)) = map_set b (bview s (sb_bmapstart (fsb s)))"
    and "fsb s' = fsb s" and "b < 4096" and "log_inv s"
  shows "used s' c \<longleftrightarrow> c = b \<or> used s c"
  using assms bio_length [OF log_invD(1) [OF assms(4)]] by (simp add: used_def map_bit_set)

lemma get32_zeros: "i + 4 \<le> BSIZE \<Longrightarrow> get32 (replicate BSIZE 0) i = 0"
  by (rule get32_replicate_0) simp

lemma attach_addr:
  fixes s s1 :: "'a fsst_scheme"
  assumes inv: "log_inv s" and g: "fs_geom s" and ok: "file_ok s ip"
    and b: "data_start (fsb s) \<le> unat b" "unat b < unat (sb_size (fsb s))" "\<not> used s (unat b)"
    and k: "k \<le> NDIRECT" "addrs (icache s ip) ! k = 0"
    and s1: "log_inv s1" "log_abs s1 = (let m = sb_bmapstart (fsb s) in (log_abs s)\<lparr>
      jview := (bview s)(m := map_set (unat b) (bview s m), b := replicate BSIZE 0),
      jlog := insert b (insert m (bdirty s))\<rparr>)"
  defines "s' \<equiv> upd_inode ip (\<lambda>i. i\<lparr>addrs := (addrs i)[k := b]\<rparr>) s1"
  shows "grow ip {sb_bmapstart (fsb s), b} 1 s s' \<and> addrs (icache s' ip) ! k = b"
proof -
  let ?m = "sb_bmapstart (fsb s)" and ?v = "bview s" and ?i = "icache s ip"
  let ?v' = "(bview s)(?m := map_set (unat b) (bview s ?m), b := replicate BSIZE 0)"
  let ?j = "?i\<lparr>addrs := (addrs ?i)[k := b]\<rparr>"
  note d1 = log_absD [OF s1(2), of s, simplified Let_def, simplified]
  note f = file_okD [OF ok]
  have bm: "b \<noteq> ?m" using b(1) by (auto simp: data_start_def)
  have b4: "unat b < 4096" using b(2) fs_geomD(1) [OF g] by simp
  have us: "used s' c \<longleftrightarrow> c = unat b \<or> used s c" for c
    using used_after_balloc [of s1 s "unat b" c] d1 bm b4 inv by (simp add: s'_def)
  have bok: "block_ok s' b" using us b d1 by (simp add: block_ok_def s'_def)
  have same: "?v' a = ?v a" "a \<noteq> b" if "block_ok s a" for a
    using that b(3) block_ok_not_bmap [OF that] by (auto simp: block_ok_def)
  have ok': "block_ok s' a" if "block_ok s a" for a
    using that us d1 by (simp add: block_ok_def s'_def)
  have x': "addrs ?j ! NDIRECT = (if k = NDIRECT then b else addrs ?i ! NDIRECT)"
    using f(1) k(1) by auto
  have ind: "ind_entry ?v' ?j n = ind_entry ?v ?i n" if "n < NINDIRECT" for n
  proof (cases "k = NDIRECT")
    case True
    then show ?thesis using k(2) x' that get32_zeros [of "4 * n"] by (simp add: ind_entry_def)
  next
    case False
    then show ?thesis using x' same(1) f(5) by (auto simp: ind_entry_def)
  qed
  have ba: "baddr ?v' ?j bn = (if bn = k \<and> k < NDIRECT then b else baddr ?v ?i bn)" if "bn < MAXFILE" for bn
    using ind [of "bn - NDIRECT"] that f(1) by (auto simp: baddr_def)
  have b0: "b \<noteq> 0" using bok block_ok_nonzero by blast
  have new: "baddr ?v ?i k = 0" if "k < NDIRECT" using that k(2) by (simp add: baddr_def)
  have fb: "fblock ?v' ?j bn = fblock ?v ?i bn" if "bn < MAXFILE" for bn
    using ba [OF that] new f(3) [OF that] same(1) b0 by (auto simp: fblock_def)
  have vs: "bview s' = ?v'" "icache s' = (icache s)(ip := ?j)" using d1 by (simp_all add: s'_def)
  have fok: "file_ok s' ip"
    unfolding file_ok_def Let_def vs fun_upd_same
  proof (intro conjI allI impI)
    show "length (addrs ?j) = NDIRECT + 1" "idev ?j = 1" using f(1,2) by simp_all
    fix bn assume bn: "bn < MAXFILE" "baddr ?v' ?j bn \<noteq> 0"
    show "block_ok s' (baddr ?v' ?j bn)" using ba [OF bn(1)] bn bok f(3) [OF bn(1)] ok' by auto
    show "baddr ?v' ?j bn \<noteq> addrs ?j ! NDIRECT"
      using ba [OF bn(1)] x' bn f(3,4) [OF bn(1)] f(5) same(2) b0 by (auto split: if_splits)
  next
    assume "addrs ?j ! NDIRECT \<noteq> 0"
    then show "block_ok s' (addrs ?j ! NDIRECT)" using x' bok f(5) ok' by auto
  next
    fix bn bn' assume bn: "bn < MAXFILE" "bn' < MAXFILE" "bn \<noteq> bn' \<and> baddr ?v' ?j bn \<noteq> 0"
    show "baddr ?v' ?j bn \<noteq> baddr ?v' ?j bn'"
      using ba [OF bn(1)] ba [OF bn(2)] bn f(3) [OF bn(1)] f(3) [OF bn(2)] f(6) [OF bn(1,2)] same(2) b0
      by (auto split: if_splits)
  qed
  have "?v' c = ?v c" if "used s (unat c)" "c \<noteq> ?m" for c using that b(3) by auto
  moreover have "baddr ?v' ?j bn = baddr ?v ?i bn" if "bn < MAXFILE" "baddr ?v ?i bn \<noteq> 0" for bn
    using ba [OF that(1)] that(2) new by auto
  moreover have "card (free_blocks s) \<le> card (free_blocks s') + 1"
    using free_blocks_set [OF us] d1 by (simp add: s'_def)
  moreover have "addrs ?j ! k = b" using f(1) k(1) by simp
  moreover have "ind_kept ip s s'" using x' k(2) b(3) by (auto simp: ind_kept_def vs)
  moreover have "own_blocks ?v' ?j \<subseteq> own_blocks ?v ?i \<union> {c. \<not> used s (unat c)}"
    using ba x' b(3) by (auto simp: own_blocks_def split: if_splits)
  ultimately show ?thesis
    using s1(1) d1 fok fb us unfolding grow_def file_step_def vs fun_upd_same by (auto simp: s'_def)
qed

lemma icache_same: "\<exists>as. f = f(ip := (f ip)\<lparr>addrs := as\<rparr>)"
  by (rule exI [of _ "addrs (f ip)"]) simp

lemma attach_entry:
  fixes s s' :: "'a fsst_scheme"
  assumes inv: "log_inv s" and g: "fs_geom s" and ok: "file_ok s ip"
    and b: "data_start (fsb s) \<le> unat b" "unat b < unat (sb_size (fsb s))" "\<not> used s (unat b)"
    and k: "k < NINDIRECT" "addrs (icache s ip) ! NDIRECT = x" "x \<noteq> 0" "get32 (bview s x) (4 * k) = 0"
    and s': "log_inv s'" "log_abs s' = (let m = sb_bmapstart (fsb s) in (log_abs s)\<lparr>
      jview := (bview s)(m := map_set (unat b) (bview s m), b := replicate BSIZE 0,
        x := put32 (4 * k) b (bview s x)),
      jlog := insert x (insert b (insert m (bdirty s)))\<rparr>)"
  shows "grow ip {sb_bmapstart (fsb s), b, x} 1 s s' \<and> baddr (bview s') (icache s' ip) (NDIRECT + k) = b"
proof -
  let ?m = "sb_bmapstart (fsb s)" and ?v = "bview s" and ?i = "icache s ip"
  let ?v' = "(bview s)(?m := map_set (unat b) (bview s ?m), b := replicate BSIZE 0, x := put32 (4 * k) b (bview s x))"
  note d1 = log_absD [OF s'(2), of s, simplified Let_def, simplified]
  note f = file_okD [OF ok]
  have xok: "block_ok s x" using f(5) k by simp
  have bm: "b \<noteq> ?m" "x \<noteq> ?m" "b \<noteq> x"
    using b(1,3) block_ok_not_bmap [OF xok] xok by (auto simp: data_start_def block_ok_def)
  have b4: "unat b < 4096" using b(2) fs_geomD(1) [OF g] by simp
  have us: "used s' c \<longleftrightarrow> c = unat b \<or> used s c" for c
    using used_after_balloc [of s' s "unat b" c] d1 bm b4 inv by simp
  have bok: "block_ok s' b" using us b d1 by (simp add: block_ok_def)
  have same: "?v' a = ?v a" "a \<noteq> b" if "block_ok s a" "a \<noteq> x" for a
    using that b(3) block_ok_not_bmap [OF that(1)] by (auto simp: block_ok_def)
  have ok': "block_ok s' a" if "block_ok s a" for a
    using that us d1 by (simp add: block_ok_def)
  have len: "length (?v x) = BSIZE" using bio_length [OF log_invD(1) [OF inv]] .
  have ind: "ind_entry ?v' ?i n = (if n = k then b else ind_entry ?v ?i n)" if "n < NINDIRECT" for n
  proof -
    have "4 * n + 3 < 4 * k \<or> 4 * k + 3 < 4 * n" if "n \<noteq> k" using that by arith
    then show ?thesis using that k len bm by (auto simp: ind_entry_def get32_put32_other)
  qed
  have ba: "baddr ?v' ?i bn = (if bn = NDIRECT + k then b else baddr ?v ?i bn)" if "bn < MAXFILE" for bn
    using ind [of "bn - NDIRECT"] that by (auto simp: baddr_def)
  have b0: "b \<noteq> 0" using bok block_ok_nonzero by blast
  have new: "baddr ?v ?i (NDIRECT + k) = 0" using k by (simp add: baddr_def ind_entry_def)
  have fb: "fblock ?v' ?i bn = fblock ?v ?i bn" if "bn < MAXFILE" for bn
    using ba [OF that] new f(3,4) [OF that] same(1) b0 k(2) bm by (auto simp: fblock_def)
  have vs: "bview s' = ?v'" "icache s' = icache s" using d1 by simp_all
  have fok: "file_ok s' ip"
    unfolding file_ok_def Let_def vs
  proof (intro conjI allI impI)
    show "length (addrs ?i) = NDIRECT + 1" "idev ?i = 1" using f(1,2) by simp_all
    fix bn assume bn: "bn < MAXFILE" "baddr ?v' ?i bn \<noteq> 0"
    show "block_ok s' (baddr ?v' ?i bn)" using ba [OF bn(1)] bn bok f(3) [OF bn(1)] ok' by auto
    show "baddr ?v' ?i bn \<noteq> addrs ?i ! NDIRECT"
      using ba [OF bn(1)] bn f(4) [OF bn(1)] k(2) bm by (auto split: if_splits)
  next
    show "block_ok s' (addrs ?i ! NDIRECT)" using xok ok' k(2) by auto
  next
    fix bn bn' assume bn: "bn < MAXFILE" "bn' < MAXFILE" "bn \<noteq> bn' \<and> baddr ?v' ?i bn \<noteq> 0"
    show "baddr ?v' ?i bn \<noteq> baddr ?v' ?i bn'"
      using ba [OF bn(1)] ba [OF bn(2)] bn f(3,4) [OF bn(1)] f(3,4) [OF bn(2)] f(6) [OF bn(1,2)] same(2) b0 k(2)
      by (auto split: if_splits)
  qed
  have "x \<in> own_blocks ?v ?i" using k by (simp add: own_blocks_def)
  then have "?v' c = ?v c" if "used s (unat c)" "c \<noteq> ?m" "c \<notin> own_blocks ?v ?i" for c using that b(3) by auto
  moreover have "baddr ?v' ?i bn = baddr ?v ?i bn" if "bn < MAXFILE" "baddr ?v ?i bn \<noteq> 0" for bn
    using ba [OF that(1)] that(2) new by auto
  moreover have "card (free_blocks s) \<le> card (free_blocks s') + 1"
    using free_blocks_set [OF us] d1 by simp
  moreover have "baddr ?v' ?i (NDIRECT + k) = b" using ba [of "NDIRECT + k"] k(1) by simp
  moreover have "ind_kept ip s s'" by (simp add: ind_kept_def vs)
  moreover have "own_blocks ?v' ?i \<subseteq> own_blocks ?v ?i \<union> {c. \<not> used s (unat c)}"
    using ba b(3) by (auto simp: own_blocks_def split: if_splits)
  ultimately show ?thesis
    using s'(1) d1 fok fb us k(2) icache_same [of "icache s" ip] unfolding grow_def file_step_def vs by auto
qed

lemma grow_same:
  assumes "log_inv s'" and "log_abs s' = log_abs s" and "file_ok s ip"
  shows "grow ip {} 0 s s'"
proof -
  note d = log_absD [OF assms(2) refl, simplified]
  have u: "used s' = used s" by (rule ext) (simp add: used_def d)
  have "block_ok s' = block_ok s" by (rule ext) (simp add: block_ok_def u d)
  then have "file_ok s' ip" using assms(3) d by (simp add: file_ok_def)
  moreover have "free_blocks s' = free_blocks s" by (simp add: free_blocks_def u d)
  moreover have "ind_kept ip s s'" by (simp add: ind_kept_def d)
  ultimately show ?thesis
    using assms(1) d u icache_same [of "icache s" ip] unfolding grow_def file_step_def by simp
qed

lemma grow_refl: "log_inv s \<Longrightarrow> file_ok s ip \<Longrightarrow> grow ip {} 0 s s"
  using grow_same by blast

lemma file_step_icache:
  "file_step ip k s s' \<Longrightarrow> \<exists>as. icache s' = (icache s)(ip := (icache s ip)\<lparr>addrs := as\<rparr>)"
  by (simp only: file_step_def)

lemma file_stepD:
  assumes "file_step ip k s s'"
  shows "log_inv s'" "curpid s' = curpid s" "lstart s' = lstart s" "lsize s' = lsize s"
    "outstanding s' = outstanding s" "committing s' = committing s" "fsb s' = fsb s"
    "fsst.more s' = fsst.more s" "bheld s' = bheld s" "platter s' 1 = platter s 1"
    "file_ok s' ip" "\<And>j. j \<noteq> ip \<Longrightarrow> icache s' j = icache s j"
    "isize (icache s' ip) = isize (icache s ip)" "itype (icache s' ip) = itype (icache s ip)"
    "idev (icache s' ip) = idev (icache s ip)" "inum (icache s' ip) = inum (icache s ip)"
    "\<And>bn. bn < MAXFILE \<Longrightarrow> baddr (bview s) (icache s ip) bn \<noteq> 0 \<Longrightarrow>
        baddr (bview s') (icache s' ip) bn = baddr (bview s) (icache s ip) bn"
    "ind_kept ip s s'" "\<And>b. used s b \<Longrightarrow> used s' b"
    "own_blocks (bview s') (icache s' ip) \<subseteq> own_blocks (bview s) (icache s ip) \<union> {b. \<not> used s (unat b)}"
    "\<And>b. used s (unat b) \<Longrightarrow> b \<noteq> sb_bmapstart (fsb s) \<Longrightarrow> b \<notin> own_blocks (bview s) (icache s ip) \<Longrightarrow>
        bview s' b = bview s b"
    "card (free_blocks s) \<le> card (free_blocks s') + k"
proof -
  obtain as where "icache s' = (icache s)(ip := (icache s ip)\<lparr>addrs := as\<rparr>)"
    using file_step_icache [OF assms] by blast
  then show "\<And>j. j \<noteq> ip \<Longrightarrow> icache s' j = icache s j"
    "isize (icache s' ip) = isize (icache s ip)" "itype (icache s' ip) = itype (icache s ip)"
    "idev (icache s' ip) = idev (icache s ip)" "inum (icache s' ip) = inum (icache s ip)"
    by simp_all
qed (use assms in \<open>unfold file_step_def, blast\<close>)+

lemma growD:
  assumes "grow ip B k s s'"
  shows "file_step ip k s s'" "bdirty s' \<subseteq> bdirty s \<union> B"
    "\<And>bn. bn < MAXFILE \<Longrightarrow> fblock (bview s') (icache s' ip) bn = fblock (bview s) (icache s ip) bn"
  using assms by (simp_all add: grow_def)

lemma file_step_trans:
  assumes "file_step ip k s t" and "file_step ip l t u"
  shows "file_step ip (k + l) s u"
proof -
  note a = file_stepD [OF assms(1)] and c = file_stepD [OF assms(2)]
  obtain as1 as2 where as: "icache t = (icache s)(ip := (icache s ip)\<lparr>addrs := as1\<rparr>)"
      "icache u = (icache t)(ip := (icache t ip)\<lparr>addrs := as2\<rparr>)"
    using assms [THEN file_step_icache] by blast
  have "icache u = (icache s)(ip := (icache s ip)\<lparr>addrs := as2\<rparr>)" using as by simp
  moreover have "bview u b = bview s b"
    if "used s (unat b)" "b \<noteq> sb_bmapstart (fsb s)" "b \<notin> own_blocks (bview s) (icache s ip)" for b
  proof -
    have "b \<notin> own_blocks (bview t) (icache t ip)" using a(20) that by auto
    then show ?thesis using c(21) [of b] a(19) [OF that(1)] a(21) [OF that] that(2) a(7) by simp
  qed
  moreover have "baddr (bview u) (icache u ip) bn = baddr (bview s) (icache s ip) bn"
    if "bn < MAXFILE" "baddr (bview s) (icache s ip) bn \<noteq> 0" for bn
    using a(17) [OF that] c(17) [OF that(1)] that(2) by simp
  moreover have "used u b" if "used s b" for b using a(19) c(19) that by blast
  moreover have "ind_kept ip s u" using a(18,19) c(18) by (auto simp: ind_kept_def)
  moreover have "own_blocks (bview u) (icache u ip) \<subseteq> own_blocks (bview s) (icache s ip) \<union> {b. \<not> used s (unat b)}"
    using a(19,20) c(20) by blast
  ultimately show ?thesis
    using a(2-10,22) c(1-11,22) unfolding file_step_def by (intro conjI exI [of _ as2]) (simp_all | blast)+
qed

lemma grow_trans:
  assumes "grow ip B k s t" and "grow ip C l t u"
  shows "grow ip (B \<union> C) (k + l) s u"
  using growD [OF assms(1)] growD [OF assms(2)] file_step_trans [of ip k s t l u] unfolding grow_def by auto

lemma file_step_mono: "file_step ip k s s' \<Longrightarrow> k \<le> l \<Longrightarrow> file_step ip l s s'"
  unfolding file_step_def by (elim conjE, intro conjI) simp_all

lemma grow_mono: "grow ip B k s s' \<Longrightarrow> k \<le> l \<Longrightarrow> grow ip B l s s'"
  using file_step_mono unfolding grow_def by blast

text \<open>What growing keeps for the next allocation.\<close>

lemma file_step_fs_ok:
  assumes "fs_ok s ip" and "file_step ip k s s'"
  shows "fs_ok s' ip"
proof -
  note o = fs_okD [OF assms(1)] and g = file_stepD [OF assms(2)]
  have "fs_geom s'" using o(2) g(3,4,7) by (simp add: fs_geom_def)
  moreover have "meta_used s'" using o(3) g(7,19) by (simp add: meta_used_def)
  ultimately show ?thesis using o g by (simp add: fs_ok_def)
qed

lemma grow_room:
  assumes "grow ip B k s s'" and "room s (n + m)" and "finite B" and "card B \<le> n"
  shows "room s' m"
proof -
  have "card (bdirty s') \<le> card (bdirty s \<union> B)"
    using growD(2) [OF assms(1)] assms(3) by (intro card_mono) simp_all
  also have "\<dots> \<le> card (bdirty s) + card B" by (rule card_Un_le)
  finally have "card (bdirty s') \<le> card (bdirty s) + n" using assms(4) by simp
  then show ?thesis using assms(2) file_stepD(4) [OF growD(1) [OF assms(1)]] by (simp add: room_def)
qed

lemma free_exists: "0 < card (free_blocks s) \<Longrightarrow> \<exists>b < unat (sb_size (fsb s)). \<not> used s b"
  by (auto simp: free_blocks_def card_gt_0_iff)

section \<open>bmap\<close>

text \<open>An address of the inode, allocated if there is none.\<close>

lemma alloc_addr:
  fixes s :: "'a fsst_scheme"
  assumes ok: "fs_ok s ip" and k: "k \<le> NDIRECT" and rm: "room s 2" and free: "0 < card (free_blocks s)"
  shows "\<exists>a s' B. (let addr = addrs (icache s ip) ! k in
      if addr = 0 then and_then (balloc (idev (icache s ip)) s) (\<lambda>(addr, s).
        Ret (addr, upd_inode ip (\<lambda>i. i\<lparr>addrs := (addrs i)[k := addr]\<rparr>) s))
      else Ret (addr, s)) = Ret (a, s') \<and>
    grow ip B 1 s s' \<and> B \<subseteq> {sb_bmapstart (fsb s), a} \<and> a \<noteq> 0 \<and> addrs (icache s' ip) ! k = a \<and>
    (addrs (icache s ip) ! k \<noteq> 0 \<longrightarrow> s' = s)"
proof (cases "addrs (icache s ip) ! k = 0")
  case False
  have "grow ip {} 1 s s" using grow_mono [OF grow_refl [OF fs_okD(1,6) [OF ok]]] by simp
  with False show ?thesis by auto
next
  case True
  note o = fs_okD [OF ok] and f = file_okD [OF fs_okD(6) [OF ok]]
  obtain b s1 where 1: "balloc 1 s = Ret (b, s1)" "log_inv s1" "data_start (fsb s) \<le> unat b"
      "unat b < unat (sb_size (fsb s))" "\<not> used s (unat b)"
      "log_abs s1 = (let m = sb_bmapstart (fsb s) in (log_abs s)\<lparr>
        jview := (bview s)(m := map_set (unat b) (bview s m), b := replicate BSIZE 0),
        jlog := insert b (insert m (bdirty s))\<rparr>)"
    using balloc_spec [OF o(1-4) _ _ rm free_exists [OF free]] o(5) by auto
  have "b \<noteq> 0" using 1(3) by (auto simp: data_start_def)
  then show ?thesis
    using attach_addr [OF o(1,2,6) 1(3-5) k True 1(2,6)] 1(1) f(2) True by auto
qed

text \<open>An entry of the indirect block, allocated if there is none.\<close>

lemma alloc_entry:
  fixes s :: "'a fsst_scheme"
  assumes ok: "fs_ok s ip" and k: "k < NINDIRECT" "addrs (icache s ip) ! NDIRECT = x" "x \<noteq> 0"
    and rm: "room s 3" and free: "0 < card (free_blocks s)"
  shows "\<exists>a s' B. and_then (bread (idev (icache s ip)) x s) (\<lambda>(bp, s).
      let addr = get32 (data_of bp s) (4 * k) in
      if addr = 0 then
        and_then (balloc (idev (icache s ip)) s) (\<lambda>(addr, s).
        and_then (log_write bp (set_data bp (put32 (4 * k) addr (data_of bp s)) s)) (\<lambda>s.
        and_then (brelse bp s) (\<lambda>s. Ret (addr, s))))
      else and_then (brelse bp s) (\<lambda>s. Ret (addr, s))) = Ret (a, s') \<and>
    grow ip B 1 s s' \<and> B \<subseteq> {sb_bmapstart (fsb s), x, a} \<and> a \<noteq> 0 \<and>
    baddr (bview s') (icache s' ip) (NDIRECT + k) = a \<and>
    (baddr (bview s) (icache s ip) (NDIRECT + k) \<noteq> 0 \<longrightarrow> log_abs s' = log_abs s)"
proof -
  note o = fs_okD [OF ok] and f = file_okD [OF fs_okD(6) [OF ok]]
  let ?m = "sb_bmapstart (fsb s)"
  have xok: "block_ok s x" using f(5) k by simp
  have r0: "room s 0" using rm by (simp add: room_def)
  obtain i s1 s2 where 1: "bread 1 x s = Ret (i, s1)" "log_inv s1" "data_of i s1 = bview s x"
      "log_abs s1 = (log_abs s)\<lparr>jheld := (bheld s)(i \<mapsto> x)\<rparr>"
      "brelse i s1 = Ret s2" "log_inv s2" "log_abs s2 = log_abs s"
    using fs_peek [OF o(1) block_ok_less [OF o(2) xok] _ _ r0] o(5) by auto
  note d1 = log_absD [OF 1(4), of s, simplified]
  have dv: "idev (icache s ip) = 1" "idev (icache s1 ip) = 1" using f(2) d1 by simp_all
  show ?thesis
  proof (cases "get32 (bview s x) (4 * k) = 0")
    case False
    note d2 = log_absD [OF 1(7) refl, simplified]
    have "grow ip {} 1 s s2" using grow_mono [OF grow_same [OF 1(6,7) o(6)]] by simp
    then show ?thesis using False 1 dv k d2 by (auto simp: baddr_def ind_entry_def)
  next
    case True
    have u1: "used s1 = used s" by (rule ext) (simp add: used_def d1)
    have g1: "fs_geom s1" "meta_used s1" "room s1 2"
      using o(2,3) rm by (simp_all add: fs_geom_def meta_used_def room_def u1 d1)
    have h1: "card (dom (bheld s1)) \<le> 1" "\<forall>b \<in> ran (bheld s1). data_start (fsb s1) \<le> unat b \<and> used s1 (unat b)"
      using o(5) d1 xok u1 by (auto simp: block_ok_def)
    have fr: "\<exists>b < unat (sb_size (fsb s1)). \<not> used s1 b" using free_exists [OF free] u1 d1 by simp
    have out1: "1 \<le> outstanding s1" using o(4) d1 by simp
    obtain b s3 where 3: "balloc 1 s1 = Ret (b, s3)" "log_inv s3" "data_start (fsb s) \<le> unat b"
        "unat b < unat (sb_size (fsb s))" "\<not> used s (unat b)"
        "log_abs s3 = (log_abs s1)\<lparr>jview := (bview s)(?m := map_set (unat b) (bview s ?m), b := replicate BSIZE 0),
          jlog := insert b (insert ?m (bdirty s))\<rparr>"
      using balloc_spec [OF 1(2) g1(1,2) out1 h1 g1(3) fr] u1 d1 by (auto simp: Let_def)
    have ne: "x \<noteq> b" "x \<noteq> ?m" using 3(5) xok block_ok_not_bmap by (auto simp: block_ok_def)
    have h3: "jheld (log_abs s3) i = Some x" using 3(6) d1 by simp
    have dx: "data_of i s3 = bview s x" using jn.get_law [OF 3(2) h3] 3(6) ne by simp
    let ?d = "put32 (4 * k) b (bview s x)"
    have len: "length ?d = BSIZE" using bio_length [OF log_invD(1) [OF o(1)]] by simp
    have cw: "can_write s x"
      using can_write_from [OF o(2,4)] xok fs_geomD(5) [OF o(2)] by (auto simp: block_ok_def data_start_def)
    have "card (insert b (insert ?m (bdirty s))) \<le> card (bdirty s) + 2"
      using card_insert_bdirty [of ?m s] by (simp add: card_insert_if)
    then have lc: "log_writable (jrest (log_abs s3)) x" "card (jlog (log_abs s3)) < log_cap (jrest (log_abs s3))"
      using cw rm 3(6) 1(4) by (auto simp: log_writable_def log_cap_def can_write_def room_def)
    obtain s4 s5 where 4: "log_write i (set_data i ?d s3) = Ret s4" "brelse i s4 = Ret s5" "log_inv s5"
        "log_abs s5 = (log_abs s3)\<lparr>jview := (jview (log_abs s3))(x := ?d), jlog := insert x (jlog (log_abs s3)),
          jheld := (jheld (log_abs s3))(i := None)\<rparr>"
      using jn.record_block [OF 3(2) h3 len lc] by blast
    have "log_abs s5 = (let m = ?m in (log_abs s)\<lparr>
        jview := (bview s)(m := map_set (unat b) (bview s m), b := replicate BSIZE 0, x := ?d),
        jlog := insert x (insert b (insert m (bdirty s)))\<rparr>)"
      using 4(4) 3(6) 1(4) o(5) by (simp add: Let_def fun_upd_idem)
    note at = attach_entry [OF o(1,2,6) 3(3-5) k True 4(3) this]
    have "b \<noteq> 0" using 3(3) by (auto simp: data_start_def)
    moreover have "baddr (bview s) (icache s ip) (NDIRECT + k) = 0"
      using True k by (simp add: baddr_def ind_entry_def)
    ultimately show ?thesis using at 1(1,3) 3(1) 4(1,2) dv dx True
      by (intro exI [of _ b] exI [of _ s5] exI [of _ "{?m, b, x}"]) auto
  qed
qed

lemma bmap_spec:
  fixes s :: "'a fsst_scheme"
  assumes ok: "fs_ok s ip" and bn: "unat bn < MAXFILE" and rm: "room s 5" and free: "2 \<le> card (free_blocks s)"
  shows "\<exists>a s' B. bmap ip bn s = Ret (a, s') \<and> grow ip B 2 s s' \<and>
    B \<subseteq> {sb_bmapstart (fsb s), addrs (icache s' ip) ! NDIRECT, a} - {0} \<and> a \<noteq> 0 \<and>
    baddr (bview s') (icache s' ip) (unat bn) = a \<and>
    (baddr (bview s) (icache s ip) (unat bn) \<noteq> 0 \<longrightarrow> log_abs s' = log_abs s)"
proof (cases "unat bn < NDIRECT")
  case True
  have r: "room s 2" "0 < card (free_blocks s)" using rm free by (auto simp: room_def)
  obtain a s' B where "(let addr = addrs (icache s ip) ! unat bn in
      if addr = 0 then and_then (balloc (idev (icache s ip)) s) (\<lambda>(addr, s).
        Ret (addr, upd_inode ip (\<lambda>i. i\<lparr>addrs := (addrs i)[unat bn := addr]\<rparr>) s))
      else Ret (addr, s)) = Ret (a, s')" and g: "grow ip B 1 s s'" and
      rest: "B \<subseteq> {sb_bmapstart (fsb s), a}" "a \<noteq> 0" "addrs (icache s' ip) ! unat bn = a"
      "addrs (icache s ip) ! unat bn \<noteq> 0 \<longrightarrow> s' = s"
    using alloc_addr [OF ok less_imp_le [OF True] r] by blast
  moreover have "bn < of_nat NDIRECT" using True by (simp add: word_less_nat_alt)
  ultimately have "bmap ip bn s = Ret (a, s')" by (simp add: bmap_def)
  moreover have "grow ip B 2 s s'" using grow_mono [OF g] by simp
  moreover have "B \<subseteq> {sb_bmapstart (fsb s), addrs (icache s' ip) ! NDIRECT, a} - {0}"
    using rest(1,2) bmap_nonzero [OF fs_okD(2) [OF ok]] by auto
  ultimately show ?thesis using rest(2-4) True by (auto simp: baddr_def)
next
  case False
  define k where "k = unat bn - NDIRECT"
  have nd: "\<not> bn < of_nat NDIRECT" using False by (simp add: word_less_nat_alt)
  have uk: "unat (bn - of_nat NDIRECT) = k" using nd by (simp add: k_def unat_sub not_less)
  have k: "k < NINDIRECT" "unat bn = NDIRECT + k" using bn False by (auto simp: k_def)
  have ki: "bn - of_nat NDIRECT < of_nat NINDIRECT" using k(1) uk by (simp add: word_less_nat_alt)
  have r: "room s 2" "0 < card (free_blocks s)" using rm free by (auto simp: room_def)
  obtain x t B where 1: "(let addr = addrs (icache s ip) ! NDIRECT in
      if addr = 0 then and_then (balloc (idev (icache s ip)) s) (\<lambda>(addr, s).
        Ret (addr, upd_inode ip (\<lambda>i. i\<lparr>addrs := (addrs i)[NDIRECT := addr]\<rparr>) s))
      else Ret (addr, s)) = Ret (x, t)" and g1: "grow ip B 1 s t" and
      x: "B \<subseteq> {sb_bmapstart (fsb s), x}" "x \<noteq> 0" "addrs (icache t ip) ! NDIRECT = x"
      "addrs (icache s ip) ! NDIRECT \<noteq> 0 \<longrightarrow> t = s"
    using alloc_addr [OF ok order_refl r] by blast
  have "card B \<le> 2" using card_mono [OF _ x(1)] by (auto simp: card_insert_if split: if_splits)
  then have rt: "room t 3" using grow_room [OF g1, of 2 3] rm finite_subset [OF x(1)] by simp
  have ft: "0 < card (free_blocks t)" using file_stepD(22) [OF growD(1) [OF g1]] free by simp
  obtain a u C where 2: "and_then (bread (idev (icache t ip)) x t) (\<lambda>(bp, s).
      let addr = get32 (data_of bp s) (4 * k) in
      if addr = 0 then
        and_then (balloc (idev (icache s ip)) s) (\<lambda>(addr, s).
        and_then (log_write bp (set_data bp (put32 (4 * k) addr (data_of bp s)) s)) (\<lambda>s.
        and_then (brelse bp s) (\<lambda>s. Ret (addr, s))))
      else and_then (brelse bp s) (\<lambda>s. Ret (addr, s))) = Ret (a, u)" and g2: "grow ip C 1 t u" and
      a: "C \<subseteq> {sb_bmapstart (fsb t), x, a}" "a \<noteq> 0" "baddr (bview u) (icache u ip) (NDIRECT + k) = a"
      "baddr (bview t) (icache t ip) (NDIRECT + k) \<noteq> 0 \<longrightarrow> log_abs u = log_abs t"
    using alloc_entry [OF file_step_fs_ok [OF ok growD(1) [OF g1]] k(1) x(3,2) rt ft] by blast
  have "bmap ip bn s = Ret (a, u)" using nd ki 1 2 unfolding bmap_def Let_def uk by simp
  moreover have "grow ip (B \<union> C) 2 s u" using grow_trans [OF g1 g2] by (simp add: numeral_2_eq_2)
  moreover have "addrs (icache u ip) ! NDIRECT = x"
    using file_stepD(18) [OF growD(1) [OF g2]] x(2,3) by (simp add: ind_kept_def)
  moreover have "log_abs u = log_abs s" if "baddr (bview s) (icache s ip) (unat bn) \<noteq> 0"
  proof -
    have "t = s" using that x(4) k by (auto simp: baddr_def ind_entry_def split: if_splits)
    then show ?thesis using a(4) that k by simp
  qed
  moreover have "fsb t = fsb s" using file_stepD(7) [OF growD(1) [OF g1]] .
  ultimately show ?thesis using x(1,2) a k(2) bmap_nonzero [OF fs_okD(2) [OF ok]] by (intro exI [of _ a] exI [of _ u] exI [of _ "B \<union> C"]) auto
qed

text \<open>A block number past the end of the largest file is refused.\<close>

lemma bmap_out_of_range:
  assumes "MAXFILE \<le> unat bn"
  shows "bmap ip bn s = Panic ''bmap: out of range''"
proof -
  have "\<not> bn < of_nat NDIRECT" using assms by (simp add: word_less_nat_alt)
  moreover then have "unat (bn - of_nat NDIRECT) = unat bn - NDIRECT" by (simp add: unat_sub not_less)
  then have "\<not> bn - of_nat NDIRECT < of_nat NINDIRECT" using assms by (simp add: word_less_nat_alt)
  ultimately show ?thesis by (simp add: bmap_def)
qed

end
