(* ===== verification/Fs_Files.thy ===== *)
theory Fs_Files
  imports Fs_Blocks
begin

text \<open>
  Reading and writing files: \<open>readi\<close> and \<open>writei\<close> against a file seen as a sequence of
  bytes. A file has no holes below its size; \<open>readi\<close> returns the bytes and changes nothing,
  \<open>writei\<close> replaces the bytes of its range, keeps every other byte of the file and every
  block of every other file, and fits the reservation \<^verbatim>\<open>filewrite\<close> makes for it.
\<close>

section \<open>Bytes of a file\<close>

definition fbyte :: "(u32 \<Rightarrow> bytes) \<Rightarrow> inode \<Rightarrow> nat \<Rightarrow> u8" where
  "fbyte v i p = fblock v i (p div BSIZE) ! (p mod BSIZE)"

lemma in_block:
  assumes "off \<le> p" and "p < off + (512 - off mod 512)"
  shows "p div 512 = off div (512 :: nat)" "p mod 512 = off mod 512 + (p - off)"
proof -
  define r where "r = off mod 512 + (p - off)"
  have p: "p = off div 512 * 512 + r" using assms(1) div_mult_mod_eq [of off 512] by (simp add: r_def)
  have r: "r < 512" using assms by (simp add: r_def)
  show "p div 512 = off div 512" using r by (subst p) simp
  show "p mod 512 = off mod 512 + (p - off)" unfolding r_def [symmetric] using r by (subst p) simp
qed

lemma block_less: "p < 71680 \<Longrightarrow> p div 512 < (140 :: nat)"
  by (simp add: div_less_iff_less_mult)

lemma unat_chunk: "unat (chunk off n) = min (unat n) (512 - unat off mod 512)"
proof -
  have "off mod 512 < (512 :: u32)" by (simp add: word_mod_less_divisor)
  then have "off mod 512 \<le> (512 :: u32)" by simp
  then have "unat (512 - off mod (512 :: u32)) = 512 - unat off mod 512"
    by (simp add: unat_sub unat_mod)
  then show ?thesis by (simp add: chunk_def min_def word_le_nat_alt)
qed

text \<open>One turn of the copying loops, in numbers.\<close>

lemma chunk_nums:
  assumes "unat off + unat n \<le> MAXFILE * BSIZE" and "n \<noteq> 0"
  defines "m \<equiv> unat (chunk off n)"
  shows "unat (off + chunk off n) = unat off + m" "unat (n - chunk off n) = unat n - m"
    "0 < m" "m \<le> unat n" "unat off mod 512 + m \<le> 512" "unat (off div 512) = unat off div 512"
    "unat (off mod 512) = unat off mod 512" "unat off div 512 < 140"
proof -
  have "0 < n" using assms(2) by (simp add: word_greater_zero_iff)
  note c = chunk_pos [OF this, of off]
  show n0: "0 < m" using c(1) by (simp add: m_def word_less_nat_alt)
  show mn: "m \<le> unat n" using c(2) by (simp add: m_def word_le_nat_alt)
  show "unat (n - chunk off n) = unat n - m" using c(2) by (simp add: m_def unat_sub)
  have "unat off + m < 2 ^ 32" using assms(1) mn by simp
  then show "unat (off + chunk off n) = unat off + m" unfolding m_def by (intro unat_add_lem [THEN iffD1]) simp
  have "m \<le> 512 - unat off mod 512" unfolding m_def unat_chunk by simp
  then show "unat off mod 512 + m \<le> 512" using mod_less_divisor [of 512 "unat off"] by linarith
  show "unat (off div 512) = unat off div 512" "unat (off mod 512) = unat off mod 512"
    by (simp_all add: unat_div unat_mod)
  show "unat off div 512 < 140" using assms(1) n0 mn by (intro block_less) simp
qed

lemma length_fblock: "log_inv s \<Longrightarrow> length (fblock (bview s) i bn) = BSIZE"
  by (simp add: fblock_def bio_length [OF log_invD(1)])

lemma read_in_block:
  assumes "m \<le> 512 - off mod 512" and "length (fblock v i (off div 512)) = 512"
  shows "subbytes (off mod 512) m (fblock v i (off div 512)) = map (fbyte v i) [off..<off + m]"
proof (rule nth_equalityI)
  have le: "off mod 512 + m \<le> 512" using assms(1) mod_less_divisor [of 512 off] by linarith
  show "length (subbytes (off mod 512) m (fblock v i (off div 512))) = length (map (fbyte v i) [off..<off + m])"
    using le assms(2) by simp
  fix j assume "j < length (subbytes (off mod 512) m (fblock v i (off div 512)))"
  then have j: "j < m" using le assms(2) by simp
  have q: "(off + j) div 512 = off div 512" "(off + j) mod 512 = off mod 512 + j"
    using in_block [of off "off + j"] j assms(1) by auto
  have "fbyte v i (off + j) = fblock v i (off div 512) ! (off mod 512 + j)"
    unfolding fbyte_def q ..
  then show "subbytes (off mod 512) m (fblock v i (off div 512)) ! j = map (fbyte v i) [off..<off + m] ! j"
    using j nth_subbytes [of "off mod 512" m "fblock v i (off div 512)" j] le assms(2) by simp
qed

section \<open>Reading\<close>

text \<open>What reading needs: no transaction, and no buffer held.\<close>

definition fs_rd :: "'a fsst_scheme \<Rightarrow> nat \<Rightarrow> bool" where
  "fs_rd s ip \<longleftrightarrow> log_inv s \<and> fs_geom s \<and> bheld s = Map.empty \<and> file_ok s ip \<and> room s 0"

lemma fs_rdD:
  assumes "fs_rd s ip"
  shows "log_inv s" "fs_geom s" "bheld s = Map.empty" "file_ok s ip" "room s 0"
  using assms by (auto simp: fs_rd_def)

lemma fs_rd_same:
  assumes "fs_rd s ip" and "log_inv s'" and "log_abs s' = log_abs s"
  shows "fs_rd s' ip"
proof -
  note d = log_absD [OF assms(3) refl, simplified]
  have "fs_geom s'" "room s' 0" using fs_rdD(2,5) [OF assms(1)] d by (simp_all add: fs_geom_def room_def)
  moreover have "file_ok s' ip"
    using file_stepD(11) [OF growD(1) [OF grow_same [OF assms(2,3) fs_rdD(4) [OF assms(1)]]]] .
  ultimately show ?thesis using assms(2) fs_rdD(3) [OF assms(1)] d by (simp add: fs_rd_def)
qed

lemma rd_peek:
  fixes s :: "'a fsst_scheme"
  assumes "fs_rd s ip" and "block_ok s b"
  shows "\<exists>i s1 s2. bread 1 b s = Ret (i, s1) \<and> data_of i s1 = bview s b \<and>
    brelse i s1 = Ret s2 \<and> log_inv s2 \<and> log_abs s2 = log_abs s"
proof -
  note r = fs_rdD [OF assms(1)]
  have "b \<notin> ran (bheld s)" "card (dom (bheld s)) \<le> 1" using r(3) by auto
  from fs_peek [OF r(1) block_ok_less [OF r(2) assms(2)] this r(5)] show ?thesis by blast
qed

lemma bmap_present:
  fixes s :: "'a fsst_scheme"
  assumes "fs_rd s ip" and "unat bn < MAXFILE" and "baddr (bview s) (icache s ip) (unat bn) \<noteq> 0"
  shows "\<exists>s'. bmap ip bn s = Ret (baddr (bview s) (icache s ip) (unat bn), s') \<and> log_inv s' \<and> log_abs s' = log_abs s"
proof (cases "unat bn < NDIRECT")
  case True
  then have "bn < of_nat NDIRECT" by (simp add: word_less_nat_alt)
  then show ?thesis using True assms(3) fs_rdD(1) [OF assms(1)] by (simp add: bmap_def baddr_def)
next
  case False
  note f = file_okD [OF fs_rdD(4) [OF assms(1)]]
  let ?x = "addrs (icache s ip) ! NDIRECT"
  have nd: "\<not> bn < of_nat NDIRECT" using False by (simp add: word_less_nat_alt)
  have uk: "unat (bn - of_nat NDIRECT) = unat bn - NDIRECT" using nd by (simp add: unat_sub not_less)
  have ki: "bn - of_nat NDIRECT < of_nat NINDIRECT" using assms(2) uk by (simp add: word_less_nat_alt)
  have x: "?x \<noteq> 0" "get32 (bview s ?x) (4 * (unat bn - NDIRECT)) \<noteq> 0"
    using assms(3) False by (auto simp: baddr_def ind_entry_def split: if_splits)
  obtain i s1 s2 where "bread 1 ?x s = Ret (i, s1)" "data_of i s1 = bview s ?x"
      "brelse i s1 = Ret s2" "log_inv s2" "log_abs s2 = log_abs s"
    using rd_peek [OF assms(1) f(5) [OF x(1)]] by blast
  then show ?thesis using nd ki x f(2) False unfolding bmap_def Let_def uk
    by (auto simp: baddr_def ind_entry_def)
qed

lemma readi_loop_spec:
  fixes s :: "'a fsst_scheme"
  assumes "fs_rd s ip" and "unat off + unat n \<le> MAXFILE * BSIZE"
    and "\<And>bn. bn * BSIZE < unat off + unat n \<Longrightarrow> baddr (bview s) (icache s ip) bn \<noteq> 0"
  shows "\<exists>s'. readi_loop ip off n dst s =
      Ret (dst @ map (fbyte (bview s) (icache s ip)) [unat off..<unat off + unat n], s') \<and>
    log_inv s' \<and> log_abs s' = log_abs s"
  using assms
proof (induction "unat n" arbitrary: n off dst s rule: less_induct)
  case less
  note rd = fs_rdD [OF less.prems(1)]
  show ?case
  proof (cases "n = 0")
    case True
    then show ?thesis using rd(1) by (simp add: readi_loop.simps)
  next
    case False
    note c = chunk_nums [OF less.prems(2) False]
    let ?m = "unat (chunk off n)" and ?bn = "unat off div 512" and ?v = "bview s" and ?i = "icache s ip"
    let ?a = "baddr ?v ?i ?bn"
    have "?bn * 512 \<le> unat off" by simp
    then have "?bn * BSIZE < unat off + unat n" using c(3,4) by simp
    then have nz: "?a \<noteq> 0" using less.prems(3) by blast
    obtain s1 where 1: "bmap ip (off div 512) s = Ret (?a, s1)" "log_inv s1" "log_abs s1 = log_abs s"
      using bmap_present [OF less.prems(1), of "off div 512"] c(6,8) nz by auto
    note d1 = log_absD [OF 1(3) refl, simplified]
    note r1 = fs_rd_same [OF less.prems(1) 1(2,3)]
    have aok: "block_ok s1 ?a" using file_okD(3) [OF fs_rdD(4) [OF r1], of ?bn] c(8) nz d1 by simp
    obtain i s2 s3 where 2: "bread 1 ?a s1 = Ret (i, s2)" "data_of i s2 = ?v ?a"
        "brelse i s2 = Ret s3" "log_inv s3" "log_abs s3 = log_abs s1"
      using rd_peek [OF r1 aok] unfolding d1 by blast
    note r3 = fs_rd_same [OF r1 2(4,5)]
    note d3 = log_absD [OF trans [OF 2(5) 1(3)] refl, simplified]
    have fb: "?v ?a = fblock ?v ?i ?bn" using nz by (simp add: fblock_def)
    have got: "subbytes (unat (off mod 512)) ?m (?v ?a) = map (fbyte ?v ?i) [unat off..<unat off + ?m]"
      unfolding fb c(7) using c(5) length_fblock [OF rd(1), of ?i ?bn] by (intro read_in_block) simp_all
    have dv: "idev (icache s1 ip) = 1" using file_okD(2) [OF fs_rdD(4) [OF r1]] .
    let ?off = "off + chunk off n" and ?n = "n - chunk off n"
    let ?dst = "dst @ map (fbyte ?v ?i) [unat off..<unat off + ?m]"
    have dec: "unat ?n < unat n" "unat off + ?m + unat ?n = unat off + unat n" using c(1-4) by simp_all
    obtain s' where 3: "readi_loop ip ?off ?n ?dst s3 =
        Ret (?dst @ map (fbyte ?v ?i) [unat off + ?m..<unat off + unat n], s')" "log_inv s'" "log_abs s' = log_abs s3"
      using less.hyps [OF dec(1) r3, of ?off ?dst] less.prems(2,3) unfolding c(1) dec(2) d3 by blast
    have e: "unat off + ?m + (unat n - ?m) = unat off + unat n" using c(4) by simp
    have "[unat off..<unat off + ?m + (unat n - ?m)] =
        [unat off..<unat off + ?m] @ [unat off + ?m..<unat off + ?m + (unat n - ?m)]"
      by (rule upt_add_eq_append) simp
    then have "?dst @ map (fbyte ?v ?i) [unat off + ?m..<unat off + unat n] =
      dst @ map (fbyte ?v ?i) [unat off..<unat off + unat n]" unfolding e by simp
    then have "readi_loop ip off n dst s = Ret (dst @ map (fbyte ?v ?i) [unat off..<unat off + unat n], s')"
      using False 1(1) 2(1-3) dv got 3(1) by (subst readi_loop.simps) simp
    then show ?thesis using 3(2,3) 2(5) 1(3) by simp
  qed
qed

section \<open>Writing\<close>

text \<open>Storing into one block of a file that it has.\<close>

lemma data_step:
  fixes s s' :: "'a fsst_scheme"
  assumes ok: "file_ok s ip" and bn: "bn < MAXFILE" "baddr (bview s) (icache s ip) bn = a" "a \<noteq> 0"
    and s': "log_inv s'" "log_abs s' = (log_abs s)\<lparr>jview := (bview s)(a := d), jlog := insert a (bdirty s)\<rparr>"
  shows "file_step ip 0 s s' \<and> icache s' = icache s \<and>
    baddr (bview s') (icache s ip) k = baddr (bview s) (icache s ip) k \<and>
    (k < MAXFILE \<longrightarrow> fblock (bview s') (icache s ip) k = (if k = bn then d else fblock (bview s) (icache s ip) k))"
proof -
  let ?v = "bview s" and ?v' = "(bview s)(a := d)" and ?i = "icache s ip"
  note d1 = log_absD [OF s'(2), of s, simplified] and f = file_okD [OF ok]
  have ax: "a \<noteq> addrs ?i ! NDIRECT" and aok: "block_ok s a" using f(3,4) [OF bn(1)] bn(2,3) by auto
  have ba: "baddr ?v' ?i = baddr ?v ?i" using ax by (intro ext) (simp add: baddr_def ind_entry_def)
  have us: "used s' = used s"
    using block_ok_not_bmap [OF aok] by (intro ext) (simp add: used_def d1)
  have bo: "block_ok s' = block_ok s" by (intro ext) (simp add: block_ok_def us d1)
  have fok: "file_ok s' ip" using ok by (simp add: file_ok_def bo d1 ba)
  have "a \<in> own_blocks ?v ?i" using bn by (auto simp: own_blocks_def)
  moreover have "own_blocks ?v' ?i = own_blocks ?v ?i" by (simp add: own_blocks_def ba)
  moreover have "free_blocks s' = free_blocks s" by (simp add: free_blocks_def us d1)
  moreover have "ind_kept ip s s'" by (simp add: ind_kept_def d1)
  ultimately have "file_step ip 0 s s'"
    using s'(1) fok us d1 ba icache_same [of "icache s" ip] unfolding file_step_def by auto
  moreover have "fblock ?v' ?i k = (if k = bn then d else fblock ?v ?i k)" if "k < MAXFILE"
    using f(6) [OF bn(1) that] bn by (auto simp: fblock_def ba)
  ultimately show ?thesis using d1 ba by simp
qed

text \<open>How many blocks a range of bytes touches.\<close>

definition nblk :: "nat \<Rightarrow> nat \<Rightarrow> nat" where
  "nblk off n = (if n = 0 then 0 else (off + n - 1) div BSIZE - off div BSIZE + 1)"

lemma nblk_step:
  assumes "0 < n" and "m = min n (512 - off mod 512)"
  shows "nblk off n = Suc (nblk (off + m) (n - m))"
proof (cases "n \<le> 512 - off mod 512")
  case True
  then have "(off + n - 1) div 512 = off div 512" using assms(1) by (intro in_block(1)) simp_all
  then show ?thesis using True assms by (simp add: nblk_def)
next
  case False
  have lt: "off mod 512 < 512" by simp
  have "off + m = off div 512 * 512 + 512"
    using False assms(2) lt div_mult_mod_eq [of off 512] by linarith
  then have d: "(off + m) div 512 = off div 512 + 1" by simp
  have e: "off + m + (n - m) - 1 = off + n - 1" "0 < n - m" "off + m \<le> off + n - 1" using False assms lt by simp_all
  then have "off div 512 + 1 \<le> (off + n - 1) div 512" using d div_le_mono [of "off + m" "off + n - 1" 512] by simp
  then have "(off + n - 1) div 512 - off div 512 + 1 = Suc ((off + n - 1) div 512 - (off div 512 + 1) + 1)" by linarith
  then show ?thesis using assms(1) e d by (simp add: nblk_def)
qed

lemma nblk_bound: "n \<le> 3 * BSIZE \<Longrightarrow> nblk off n \<le> 4"
proof -
  assume "n \<le> 3 * BSIZE"
  then have "off + n - 1 \<le> off + 3 * 512" by simp
  then have "(off + n - 1) div 512 \<le> (off + 3 * 512) div 512" by (rule div_le_mono)
  then show ?thesis by (auto simp: nblk_def)
qed

text \<open>The bytes after a store into one block.\<close>

lemma fbyte_overlay:
  assumes fb: "\<And>k. k < MAXFILE \<Longrightarrow> fblock v' i' k =
      (if k = off div 512 then overlay (off mod 512) src (fblock v i (off div 512)) else fblock v i k)"
    and len: "length (fblock v i (off div 512)) = 512" and m: "off mod 512 + length src \<le> 512" and p: "p < MAXFILE * BSIZE"
  shows "fbyte v' i' p = (if off \<le> p \<and> p < off + length src then src ! (p - off) else fbyte v i p)"
proof -
  have pb: "p div 512 < MAXFILE" using block_less p by simp
  have p512: "p mod 512 < 512" by simp
  have dp: "p div 512 * 512 + p mod 512 = p" "off div 512 * 512 + off mod 512 = off" by simp_all
  show ?thesis
  proof (cases "p div 512 = off div 512")
    case True
    then have "off \<le> p \<and> p < off + length src \<longleftrightarrow> off mod 512 \<le> p mod 512 \<and> p mod 512 < off mod 512 + length src"
      and "p - off = p mod 512 - off mod 512"
      using dp by linarith+
    then show ?thesis
      using fb [OF pb] True nth_overlay [of "off mod 512" src "fblock v i (off div 512)" "p mod 512"] len m p512
      by (simp add: fbyte_def)
  next
    case False
    have "\<not> (off \<le> p \<and> p < off + length src)"
    proof
      assume "off \<le> p \<and> p < off + length src"
      then have "p div 512 = off div 512" using m by (intro in_block(1)) linarith+
      with False show False ..
    qed
    then show ?thesis using fb [OF pb] False by (auto simp: fbyte_def)
  qed
qed

text \<open>One turn of the loop: the block is there, and its part of the range is stored.\<close>

lemma write_chunk:
  fixes s :: "'a fsst_scheme"
  assumes ok: "fs_ok s ip" and bn: "unat bn < MAXFILE" and rm: "room s 5" and free: "2 \<le> card (free_blocks s)"
    and m: "p + length src \<le> BSIZE"
  shows "\<exists>a bp s1 s2 s3 s4. bmap ip bn s = Ret (a, s1) \<and> bread (idev (icache s1 ip)) a s1 = Ret (bp, s2) \<and>
    log_write bp (set_data bp (overlay p src (data_of bp s2)) s2) = Ret s3 \<and> brelse bp s3 = Ret s4 \<and>
    file_step ip 2 s s4 \<and>
    bdirty s4 \<subseteq> bdirty s \<union> ({sb_bmapstart (fsb s), addrs (icache s4 ip) ! NDIRECT, a} - {0}) \<and>
    baddr (bview s4) (icache s4 ip) (unat bn) = a \<and> a \<noteq> 0 \<and>
    (\<forall>k < MAXFILE. fblock (bview s4) (icache s4 ip) k =
      (if k = unat bn then overlay p src (fblock (bview s) (icache s ip) (unat bn)) else fblock (bview s) (icache s ip) k))"
proof -
  obtain a s1 B where 1: "bmap ip bn s = Ret (a, s1)" and g: "grow ip B 2 s s1" and
      B: "B \<subseteq> {sb_bmapstart (fsb s), addrs (icache s1 ip) ! NDIRECT, a} - {0}" "a \<noteq> 0"
      "baddr (bview s1) (icache s1 ip) (unat bn) = a"
    using bmap_spec [OF ok bn rm free] by blast
  note st = growD(1) [OF g]
  note o1 = fs_okD [OF file_step_fs_ok [OF ok st]] and f1 = file_okD [OF file_stepD(11) [OF st]]
  have aok: "block_ok s1 a" using f1(3) [OF bn] B by simp
  have cw: "can_write s1 a"
    using can_write_from [OF o1(2,4)] aok fs_geomD(5) [OF o1(2)] by (auto simp: block_ok_def data_start_def)
  have "card B \<le> card {sb_bmapstart (fsb s), addrs (icache s1 ip) ! NDIRECT, a}"
    using B(1) by (intro card_mono) auto
  also have "\<dots> \<le> 3" by (auto simp: card_insert_if)
  finally have "room s1 2" using grow_room [OF g, of 3 2] rm finite_subset [OF B(1)] by simp
  then have r1: "room s1 0" by (simp add: room_def)
  have h: "a \<notin> ran (bheld s1)" "card (dom (bheld s1)) \<le> 1" using o1(5) by auto
  obtain bp s2 where 2: "bread 1 a s1 = Ret (bp, s2)" "data_of bp s2 = bview s1 a" and
      w: "\<forall>d. length d = BSIZE \<longrightarrow> (\<exists>s3 s4. log_write bp (set_data bp d s2) = Ret s3 \<and> brelse bp s3 = Ret s4 \<and>
        log_inv s4 \<and> log_abs s4 = (log_abs s1)\<lparr>jview := (bview s1)(a := d), jlog := insert a (bdirty s1)\<rparr>)"
    using fs_update [OF o1(1) cw h r1] by blast
  have va: "bview s1 a = fblock (bview s) (icache s ip) (unat bn)"
    using growD(3) [OF g bn] B(2,3) by (simp add: fblock_def)
  let ?d = "overlay p src (bview s1 a)"
  have len: "length ?d = BSIZE" using m bio_length [OF log_invD(1) [OF o1(1)]] by simp
  obtain s3 s4 where 4: "log_write bp (set_data bp ?d s2) = Ret s3" "brelse bp s3 = Ret s4" "log_inv s4"
      "log_abs s4 = (log_abs s1)\<lparr>jview := (bview s1)(a := ?d), jlog := insert a (bdirty s1)\<rparr>"
    using w len by blast
  note ds = data_step [OF o1(6) bn B(3,2) 4(3,4)]
  have "file_step ip 2 s s4" using file_step_trans [OF st, of 0 s4] ds by simp
  moreover have "bdirty s4 = insert a (bdirty s1)" using log_absD(3) [OF 4(4), of s1] by simp
  then have "bdirty s4 \<subseteq> bdirty s \<union> ({sb_bmapstart (fsb s), addrs (icache s4 ip) ! NDIRECT, a} - {0})"
    using growD(2) [OF g] B(1,2) ds by auto
  moreover have "baddr (bview s4) (icache s4 ip) (unat bn) = a" using ds B(3) by simp
  moreover have "fblock (bview s4) (icache s4 ip) k =
      (if k = unat bn then overlay p src (fblock (bview s) (icache s ip) (unat bn)) else fblock (bview s) (icache s ip) k)"
    if "k < MAXFILE" for k using ds growD(3) [OF g that] va that by simp
  moreover have "bread (idev (icache s1 ip)) a s1 = Ret (bp, s2)" using 2(1) f1(2) by simp
  ultimately show ?thesis using 1 2(2) 4(1,2) B(2) by (intro exI) auto
qed

text \<open>
  The blocks recorded: those of \<open>D\<close>, the free map and the indirect block of the file.
\<close>

definition dirty_in :: "u32 set \<Rightarrow> 'a fsst_scheme \<Rightarrow> nat \<Rightarrow> bool" where
  "dirty_in D s ip \<longleftrightarrow> finite D \<and> bdirty s \<subseteq> D \<union> ({sb_bmapstart (fsb s), addrs (icache s ip) ! NDIRECT} - {0})"

lemma dirty_in_room:
  assumes "dirty_in D s ip" and "card D + k + 2 \<le> 28" and "int (card D + k + 2) \<le> lsize s - 2"
  shows "room s k"
proof -
  let ?M = "{sb_bmapstart (fsb s), addrs (icache s ip) ! NDIRECT}"
  have "card (bdirty s) \<le> card (D \<union> (?M - {0}))" using assms(1) by (intro card_mono) (auto simp: dirty_in_def)
  also have "\<dots> \<le> card D + card (?M - {0})" by (rule card_Un_le)
  also have "card (?M - {0}) \<le> card ?M" by (rule card_mono) auto
  also have "card ?M \<le> 2" by (simp add: card_insert_if)
  finally show ?thesis using assms(2,3) by (simp add: room_def)
qed

lemma dirty_in_step:
  assumes "dirty_in D s ip" and "file_step ip k s s'"
    and "bdirty s' \<subseteq> bdirty s \<union> ({sb_bmapstart (fsb s), addrs (icache s' ip) ! NDIRECT, a} - {0})"
  shows "dirty_in (insert a D) s' ip"
  using assms(1,3) file_stepD(7,18) [OF assms(2)] by (auto simp: dirty_in_def ind_kept_def)

definition stored :: "'a fsst_scheme \<Rightarrow> nat \<Rightarrow> nat \<Rightarrow> bytes \<Rightarrow> 'a fsst_scheme \<Rightarrow> bool" where
  "stored s ip off bs s' \<longleftrightarrow>
     (\<forall>p < MAXFILE * BSIZE. fbyte (bview s') (icache s' ip) p =
        (if off \<le> p \<and> p < off + length bs then bs ! (p - off) else fbyte (bview s) (icache s ip) p)) \<and>
     (\<forall>bn < MAXFILE. bn * BSIZE < off + length bs \<and> off < bn * BSIZE + BSIZE \<and> bs \<noteq> [] \<longrightarrow>
        baddr (bview s') (icache s' ip) bn \<noteq> 0)"

lemma stored_append:
  assumes "stored s ip off bs t" and "stored t ip (off + length bs) cs u" and st: "file_step ip k t u"
    and "bs \<noteq> []"
  shows "stored s ip off (bs @ cs) u"
  unfolding stored_def
proof (intro conjI allI impI)
  fix p :: nat assume "p < MAXFILE * BSIZE"
  then show "fbyte (bview u) (icache u ip) p =
      (if off \<le> p \<and> p < off + length (bs @ cs) then (bs @ cs) ! (p - off) else fbyte (bview s) (icache s ip) p)"
    using assms(1,2) by (auto simp: stored_def nth_append)
next
  fix bn assume bn: "bn < MAXFILE" "bn * BSIZE < off + length (bs @ cs) \<and> off < bn * BSIZE + BSIZE \<and> bs @ cs \<noteq> []"
  show "baddr (bview u) (icache u ip) bn \<noteq> 0"
  proof (cases "bn * BSIZE < off + length bs")
    case True
    then have "baddr (bview t) (icache t ip) bn \<noteq> 0" using assms(1,4) bn by (simp add: stored_def)
    then show ?thesis using file_stepD(17) [OF st bn(1)] by simp
  next
    case False
    then have "cs \<noteq> []" "off + length bs < bn * BSIZE + BSIZE" using bn(2) by auto
    then show ?thesis using assms(2) bn by (simp add: stored_def)
  qed
qed

lemma only_block:
  assumes "off = q * 512 + r" and "r + m \<le> 512" and "bn * 512 < off + m" and "off < bn * 512 + (512 :: nat)"
  shows "bn = q"
proof -
  have "bn * 512 < Suc q * 512" "q * 512 < Suc bn * 512" using assms by simp_all
  then show ?thesis by (simp del: mult_Suc)
qed

lemma writei_loop_spec:
  fixes s :: "'a fsst_scheme"
  assumes "fs_ok s ip" and "unat off + unat n \<le> MAXFILE * BSIZE" and "unat n \<le> length src" and "dirty_in D s ip"
    and "card D + nblk (unat off) (unat n) + 6 \<le> 28" "int (card D + nblk (unat off) (unat n) + 6) \<le> lsize s - 2"
    and "2 * nblk (unat off) (unat n) \<le> card (free_blocks s)"
  shows "\<exists>s' E. writei_loop ip off n src s = Ret (off + n, s') \<and>
    file_step ip (2 * nblk (unat off) (unat n)) s s' \<and> stored s ip (unat off) (take (unat n) src) s' \<and>
    dirty_in E s' ip \<and> card E \<le> card D + nblk (unat off) (unat n)"
  using assms
proof (induction "unat n" arbitrary: n off src s D rule: less_induct)
  case less
  note ok = less.prems(1)
  show ?case
  proof (cases "n = 0")
    case True
    have "file_step ip 0 s s" using growD(1) [OF grow_refl [OF fs_okD(1,6) [OF ok]]] .
    then show ?thesis using True less.prems(4) by (auto simp: writei_loop.simps nblk_def stored_def)
  next
    case False
    note c = chunk_nums [OF less.prems(2) False]
    let ?m = "unat (chunk off n)" and ?off = "off + chunk off n" and ?n = "n - chunk off n"
    let ?ts = "take ?m src" and ?q = "unat off mod 512" and ?b = "nblk (unat off) (unat n)"
    have nb: "?b = Suc (nblk (unat off + ?m) (unat n - ?m))"
      using nblk_step [of "unat n" ?m "unat off"] c(3,4) by (simp add: unat_chunk)
    have lts: "length ?ts = ?m" using c(4) less.prems(3) by simp
    have rm: "room s 5" using dirty_in_room [OF less.prems(4), of 5] less.prems(5,6) nb by simp
    have fr: "2 \<le> card (free_blocks s)" using less.prems(7) nb by simp
    have qm: "?q + length ?ts \<le> BSIZE" using c(5) lts by simp
    have bnl: "unat (off div 512) < MAXFILE" using c(6,8) by simp
    obtain a bp s1 s2 s3 s4 where 1: "bmap ip (off div 512) s = Ret (a, s1)"
        "bread (idev (icache s1 ip)) a s1 = Ret (bp, s2)"
        "log_write bp (set_data bp (overlay ?q ?ts (data_of bp s2)) s2) = Ret s3" "brelse bp s3 = Ret s4"
      and st: "file_step ip 2 s s4"
      and dt: "bdirty s4 \<subseteq> bdirty s \<union> ({sb_bmapstart (fsb s), addrs (icache s4 ip) ! NDIRECT, a} - {0})"
      and ad: "baddr (bview s4) (icache s4 ip) (unat off div 512) = a" "a \<noteq> 0"
      and fb: "\<forall>k < MAXFILE. fblock (bview s4) (icache s4 ip) k = (if k = unat off div 512
        then overlay ?q ?ts (fblock (bview s) (icache s ip) (unat off div 512)) else fblock (bview s) (icache s ip) k)"
      using write_chunk [OF ok bnl rm fr qm] unfolding c(6) by blast
    have sto: "stored s ip (unat off) ?ts s4"
      unfolding stored_def
    proof (intro conjI allI impI)
      fix p :: nat assume p: "p < MAXFILE * BSIZE"
      show "fbyte (bview s4) (icache s4 ip) p = (if unat off \<le> p \<and> p < unat off + length ?ts
          then ?ts ! (p - unat off) else fbyte (bview s) (icache s ip) p)"
        using fbyte_overlay [of "bview s4" "icache s4 ip" "unat off" ?ts "bview s" "icache s ip" p]
          fb length_fblock [OF fs_okD(1) [OF ok]] qm p by simp
    next
      fix bn assume bn: "bn < MAXFILE"
        "bn * BSIZE < unat off + length ?ts \<and> unat off < bn * BSIZE + BSIZE \<and> ?ts \<noteq> []"
      have b: "bn * 512 < unat off + ?m" "unat off < bn * 512 + 512" using bn(2) lts by simp_all
      have "bn = unat off div 512" using only_block [OF _ c(5) b] by simp
      then show "baddr (bview s4) (icache s4 ip) bn \<noteq> 0" using ad by simp
    qed
    have dn: "dirty_in (insert a D) s4 ip" by (rule dirty_in_step [OF less.prems(4) st dt])
    have cD: "card (insert a D) \<le> Suc (card D)" by (rule card_insert_le_m1 | simp add: card_insert_if)+
    have dec: "unat ?n < unat n" using c(1-4) by simp
    have pr: "unat ?off + unat ?n \<le> MAXFILE * BSIZE" "unat ?n \<le> length (drop ?m src)"
        "card (insert a D) + nblk (unat ?off) (unat ?n) + 6 \<le> 28"
        "int (card (insert a D) + nblk (unat ?off) (unat ?n) + 6) \<le> lsize s4 - 2"
        "2 * nblk (unat ?off) (unat ?n) \<le> card (free_blocks s4)"
      using less.prems c(1-4) nb cD file_stepD(4,22) [OF st] by simp_all
    obtain s' E where 2: "writei_loop ip ?off ?n (drop ?m src) s4 = Ret (?off + ?n, s')"
      and st2: "file_step ip (2 * nblk (unat ?off) (unat ?n)) s4 s'"
      and sto2: "stored s4 ip (unat ?off) (take (unat ?n) (drop ?m src)) s'"
      and dn2: "dirty_in E s' ip" "card E \<le> card (insert a D) + nblk (unat ?off) (unat ?n)"
      using less.hyps [OF dec file_step_fs_ok [OF ok st] pr(1,2) dn pr(3-5)] by blast
    have "writei_loop ip off n src s = Ret (off + n, s')"
      using False 1 2 c(7) by (subst writei_loop.simps) simp
    moreover have "file_step ip (2 * ?b) s s'"
      using file_step_trans [OF st st2] nb c(1,2) by simp
    moreover have "stored s ip (unat off) (take (unat n) src) s'"
    proof -
      have "take (unat n) src = ?ts @ take (unat ?n) (drop ?m src)"
        using c(2,4) by (metis le_add_diff_inverse take_add)
      moreover have "?ts \<noteq> []" using lts c(3) by auto
      ultimately show ?thesis using stored_append [OF sto _ st2] sto2 lts c(1) by simp
    qed
    moreover have "card E \<le> card D + ?b" using dn2(2) cD nb c(1,2) by simp
    ultimately show ?thesis using dn2(1) by blast
  qed
qed

section \<open>The inode on disk\<close>

lemma length_fold: "(\<And>k x. length (h k x) = length x) \<Longrightarrow> length (fold h ks e) = length e"
  by (induction ks arbitrary: e) simp_all

lemma length_dip_store [simp]: "length (dip_store off i d) = length d"
  unfolding dip_store_def by (subst length_fold) simp_all

lemma unat_IBLOCK:
  assumes "fs_geom s" and "unat n < unat (sb_ninodes (fsb s))"
  shows "unat (IBLOCK n (fsb s)) = unat n div IPB + unat (sb_inodestart (fsb s))"
    "unat (IBLOCK n (fsb s)) < unat (sb_bmapstart (fsb s))"
proof -
  have "unat n div 8 \<le> unat (sb_ninodes (fsb s)) div 8" using assms(2) by (intro div_le_mono) simp
  then have b: "unat n div 8 + unat (sb_inodestart (fsb s)) < unat (sb_bmapstart (fsb s))"
    using assms(1) by (auto simp: fs_geom_def Let_def)
  moreover have "unat (sb_bmapstart (fsb s)) < 2 ^ 32" using unsigned_less [of "sb_bmapstart (fsb s)"] by simp
  ultimately have "unat (n div 8) + unat (sb_inodestart (fsb s)) < 2 ^ 32" by (simp add: unat_div)
  then have "unat (n div 8 + sb_inodestart (fsb s)) = unat (n div 8) + unat (sb_inodestart (fsb s))"
    by (intro unat_add_lem [THEN iffD1]) simp
  then show "unat (IBLOCK n (fsb s)) = unat n div IPB + unat (sb_inodestart (fsb s))"
    "unat (IBLOCK n (fsb s)) < unat (sb_bmapstart (fsb s))"
    using b by (simp_all add: IBLOCK_def unat_div)
qed

lemma iupdate_spec:
  fixes s :: "'a fsst_scheme"
  assumes inv: "log_inv s" and g: "fs_geom s" and out: "1 \<le> outstanding s" and h: "bheld s = Map.empty"
    and rm: "room s 0" and dv: "idev (icache s ip) = 1"
    and ino: "unat (inum (icache s ip)) < unat (sb_ninodes (fsb s))"
  defines "ib \<equiv> IBLOCK (inum (icache s ip)) (fsb s)"
  shows "\<exists>s'. iupdate ip s = Ret s' \<and> log_inv s' \<and> log_abs s' = (log_abs s)\<lparr>
    jview := (bview s)(ib := dip_store (dip_off (inum (icache s ip))) (icache s ip) (bview s ib)),
    jlog := insert ib (bdirty s)\<rparr>"
proof -
  let ?n = "inum (icache s ip)"
  note ub = unat_IBLOCK [OF g ino]
  have cw: "can_write s ib"
    unfolding ib_def using can_write_from [OF g out] ub fs_geomD(2) [OF g] by (simp add: data_start_def)
  have "ib \<notin> ran (bheld s)" "card (dom (bheld s)) \<le> 1" using h by auto
  from fs_update [OF inv cw this rm] obtain bp s1 where 1: "bread 1 ib s = Ret (bp, s1)" "data_of bp s1 = bview s ib"
      "log_abs s1 = (log_abs s)\<lparr>jheld := (bheld s)(bp \<mapsto> ib)\<rparr>"
      "\<forall>d. length d = BSIZE \<longrightarrow> (\<exists>s2 s3. log_write bp (set_data bp d s1) = Ret s2 \<and> brelse bp s2 = Ret s3 \<and> log_inv s3 \<and>
        log_abs s3 = (log_abs s)\<lparr>jview := (bview s)(ib := d), jlog := insert ib (bdirty s)\<rparr>)"
    by blast
  have ic: "icache s1 = icache s" using log_absD(11) [OF 1(3), of s] by simp
  let ?d = "dip_store (dip_off ?n) (icache s ip) (bview s ib)"
  have "length ?d = BSIZE" using bio_length [OF log_invD(1) [OF inv]] by simp
  then obtain s2 s3 where "log_write bp (set_data bp ?d s1) = Ret s2" "brelse bp s2 = Ret s3" "log_inv s3"
      "log_abs s3 = (log_abs s)\<lparr>jview := (bview s)(ib := ?d), jlog := insert ib (bdirty s)\<rparr>"
    using 1(4) by blast
  then show ?thesis using 1(1,2) dv ic by (simp add: iupdate_def ib_def)
qed

text \<open>Changing a block outside the data area that is not the free map changes no file.\<close>

lemma meta_step:
  fixes s s' :: "'a fsst_scheme"
  assumes ok: "fs_ok s ip" and b: "unat b < unat (sb_bmapstart (fsb s))"
    and s': "log_inv s'" "log_abs s' = (log_abs s)\<lparr>jview := (bview s)(b := d), jlog := insert b (bdirty s)\<rparr>"
  shows "fs_ok s' ip \<and> used s' = used s \<and>
    (\<forall>k < MAXFILE. fblock (bview s') (icache s ip) k = fblock (bview s) (icache s ip) k \<and>
      baddr (bview s') (icache s ip) k = baddr (bview s) (icache s ip) k)"
proof -
  let ?i = "icache s ip"
  note d1 = log_absD [OF s'(2), of s, simplified] and o = fs_okD [OF ok]
  note f = file_okD [OF o(6)]
  have nb: "b \<noteq> a" if "block_ok s a" for a using that b by (auto simp: block_ok_def data_start_def)
  have bm: "b \<noteq> sb_bmapstart (fsb s)" using b by auto
  have us: "used s' = used s" using bm by (intro ext) (simp add: used_def d1)
  have bo: "block_ok s' = block_ok s" by (intro ext) (simp add: block_ok_def us d1)
  have ba: "baddr (bview s') ?i = baddr (bview s) ?i"
    using nb f(5) by (intro ext) (auto simp: baddr_def ind_entry_def d1)
  have "fs_geom s'" "meta_used s'" using o(2,3) by (simp_all add: fs_geom_def meta_used_def us d1)
  moreover have "file_ok s' ip" using o(6) ba by (simp add: file_ok_def bo d1)
  ultimately have "fs_ok s' ip" using s'(1) o d1 by (simp add: fs_ok_def)
  moreover have "fblock (bview s') ?i k = fblock (bview s) ?i k" if "k < MAXFILE" for k
    using f(3) [OF that] nb unfolding fblock_def ba by (auto simp: d1)
  ultimately show ?thesis using us ba by simp
qed

section \<open>Files without holes\<close>

definition no_holes :: "'a fsst_scheme \<Rightarrow> nat \<Rightarrow> bool" where
  "no_holes s ip \<longleftrightarrow> unat (isize (icache s ip)) \<le> MAXFILE * BSIZE \<and>
     (\<forall>bn. bn * BSIZE < unat (isize (icache s ip)) \<longrightarrow> baddr (bview s) (icache s ip) bn \<noteq> 0)"

lemma baddr_isize [simp]: "baddr v (i\<lparr>isize := x\<rparr>) = baddr v i"
  by (intro ext) (simp add: baddr_def ind_entry_def)

lemma fblock_isize [simp]: "fblock v (i\<lparr>isize := x\<rparr>) = fblock v i"
  by (intro ext) (simp add: fblock_def)

lemma file_ok_isize:
  "file_ok s ip \<Longrightarrow> file_ok (upd_inode ip (\<lambda>i. i\<lparr>isize := x\<rparr>) s) ip"
  by (simp add: file_ok_def block_ok_def Let_def)

lemma fs_ok_isize: "fs_ok s ip \<Longrightarrow> fs_ok (upd_inode ip (\<lambda>i. i\<lparr>isize := x\<rparr>) s) ip"
  by (simp add: fs_ok_def file_ok_isize)

lemma fbyte_cong:
  assumes "\<forall>k < MAXFILE. fblock v i k = fblock w j k" and "p < MAXFILE * BSIZE"
  shows "fbyte v i p = fbyte w j p"
  using assms block_less [of p] by (simp add: fbyte_def)

text \<open>The bytes written lie below the new size, and every block below it is there.\<close>

lemma stored_no_holes:
  assumes nh: "no_holes s ip" and st: "file_step ip k s t" and sto: "stored s ip off bs t"
    and off: "off \<le> unat (isize (icache s ip))" and len: "off + length bs \<le> MAXFILE * BSIZE"
    and bn: "bn * BSIZE < max (unat (isize (icache s ip))) (off + length bs)"
  shows "baddr (bview t) (icache t ip) bn \<noteq> 0"
proof -
  have b: "bn < MAXFILE" using bn nh len by (auto simp: no_holes_def)
  show ?thesis
  proof (cases "bn * BSIZE < unat (isize (icache s ip))")
    case True
    then have "baddr (bview s) (icache s ip) bn \<noteq> 0" using nh by (simp add: no_holes_def)
    then show ?thesis using file_stepD(17) [OF st b] by simp
  next
    case False
    then have "bn * BSIZE < off + length bs" "off \<le> bn * BSIZE" using bn off by auto
    then have "off < bn * BSIZE + BSIZE" "bs \<noteq> []" "bn * BSIZE < off + length bs" by auto
    then show ?thesis using sto b by (simp add: stored_def)
  qed
qed

section \<open>The inode after a write\<close>

text \<open>The parts of the state that reading and writing a file never change.\<close>

definition same_frame :: "'a fsst_scheme \<Rightarrow> 'a fsst_scheme \<Rightarrow> bool" where
  "same_frame s s' \<longleftrightarrow> curpid s' = curpid s \<and> lstart s' = lstart s \<and> lsize s' = lsize s \<and>
     outstanding s' = outstanding s \<and> committing s' = committing s \<and> fsb s' = fsb s \<and>
     platter s' 1 = platter s 1 \<and> fsst.more s' = fsst.more s"

lemma same_frame_step: "file_step ip k s s' \<Longrightarrow> same_frame s s'"
  by (simp add: same_frame_def file_stepD)

lemma same_frame_trans: "same_frame s t \<Longrightarrow> same_frame t u \<Longrightarrow> same_frame s u"
  by (simp add: same_frame_def)

text \<open>What \<open>writei\<close> does after its loop: a longer file gets its new size.\<close>

lemma writei_size:
  fixes t :: "'a fsst_scheme"
  assumes ok: "fs_ok t ip" and rm: "room t 1" and ino: "unat (inum (icache t ip)) < unat (sb_ninodes (fsb t))"
  shows "\<exists>s'. iupdate ip (upd_inode ip (\<lambda>i. i\<lparr>isize := x\<rparr>) t) = Ret s' \<and> fs_ok s' ip \<and>
    icache s' = (icache t)(ip := (icache t ip)\<lparr>isize := x\<rparr>) \<and>
    (\<forall>k < MAXFILE. fblock (bview s') (icache s' ip) k = fblock (bview t) (icache t ip) k \<and>
      baddr (bview s') (icache s' ip) k = baddr (bview t) (icache t ip) k) \<and>
    used s' = used t \<and> bdirty s' = insert (IBLOCK (inum (icache t ip)) (fsb t)) (bdirty t) \<and>
    (\<forall>b. b \<noteq> IBLOCK (inum (icache t ip)) (fsb t) \<longrightarrow> bview s' b = bview t b) \<and>
    bview s' (IBLOCK (inum (icache t ip)) (fsb t)) = dip_store (dip_off (inum (icache t ip)))
      ((icache t ip)\<lparr>isize := x\<rparr>) (bview t (IBLOCK (inum (icache t ip)) (fsb t))) \<and>
    same_frame t s'"
proof -
  let ?t = "upd_inode ip (\<lambda>i. i\<lparr>isize := x\<rparr>) t" and ?ib = "IBLOCK (inum (icache t ip)) (fsb t)"
  note ok' = fs_ok_isize [OF ok, of x]
  note o = fs_okD [OF ok']
  have r: "room ?t 0" "idev (icache ?t ip) = 1" using rm file_okD(2) [OF o(6)] by (simp_all add: room_def)
  have n: "unat (inum (icache ?t ip)) < unat (sb_ninodes (fsb ?t))" using ino by simp
  obtain s' where 1: "iupdate ip ?t = Ret s'" "log_inv s'" "log_abs s' = (log_abs ?t)\<lparr>
      jview := (bview ?t)(?ib := dip_store (dip_off (inum (icache t ip))) ((icache t ip)\<lparr>isize := x\<rparr>) (bview t ?ib)),
      jlog := insert ?ib (bdirty ?t)\<rparr>"
    using iupdate_spec [OF o(1,2,4,5) r n] by auto
  have "unat ?ib < unat (sb_bmapstart (fsb t))" using unat_IBLOCK(2) [OF fs_okD(2) [OF ok] ino] .
  note m = meta_step [OF ok' _ 1(2,3), simplified, OF this] and d = log_absD [OF 1(3), of ?t, simplified]
  show ?thesis using 1(1) m d by (intro exI [of _ s']) (simp add: same_frame_def)
qed

lemma writei_spec:
  fixes s :: "'a fsst_scheme"
  assumes ok: "fs_ok s ip" and nh: "no_holes s ip" and ty: "itype (icache s ip) \<noteq> T_DEV"
    and ino: "unat (inum (icache s ip)) < unat (sb_ninodes (fsb s))"
    and off: "off \<le> isize (icache s ip)" "unat off + unat n \<le> MAXFILE * BSIZE"
    and n: "unat n \<le> 3 * BSIZE" "unat n \<le> length src"
    and rm: "room s MAXOPBLOCKS" and free: "8 \<le> card (free_blocks s)"
  shows "\<exists>s'. writei devsw ip src off n s = Ret (int (unat n), s') \<and> fs_ok s' ip \<and> no_holes s' ip \<and>
    unat (isize (icache s' ip)) = max (unat (isize (icache s ip))) (unat off + unat n) \<and>
    (\<forall>p < MAXFILE * BSIZE. fbyte (bview s') (icache s' ip) p =
      (if unat off \<le> p \<and> p < unat off + unat n then src ! (p - unat off) else fbyte (bview s) (icache s ip) p)) \<and>
    (\<forall>b. used s (unat b) \<and> b \<noteq> sb_bmapstart (fsb s) \<and> b \<noteq> IBLOCK (inum (icache s ip)) (fsb s) \<and>
      b \<notin> own_blocks (bview s) (icache s ip) \<longrightarrow> bview s' b = bview s b) \<and>
    (\<forall>j. j \<noteq> ip \<longrightarrow> icache s' j = icache s j) \<and> (\<forall>b. used s b \<longrightarrow> used s' b) \<and> card (bdirty s') \<le> card (bdirty s) + 7 \<and>
    (\<exists>as z. icache s' ip = (icache s ip)\<lparr>addrs := as, isize := z\<rparr>) \<and>
    card (free_blocks s) \<le> card (free_blocks s') + 8 \<and> same_frame s s'"
proof -
  let ?b = "nblk (unat off) (unat n)" and ?ib = "IBLOCK (inum (icache s ip)) (fsb s)"
  have nb: "?b \<le> 4" using nblk_bound n(1) by simp
  have dn: "dirty_in (bdirty s) s ip" by (simp add: dirty_in_def)
  obtain t E where 1: "writei_loop ip off n src s = Ret (off + n, t)" and st: "file_step ip (2 * ?b) s t"
      and sto: "stored s ip (unat off) (take (unat n) src) t" and E: "dirty_in E t ip" "card E \<le> card (bdirty s) + ?b"
    using writei_loop_spec [OF ok off(2) n(2) dn] rm free nb by (auto simp: room_def)
  note st' = file_stepD [OF st] and okt = file_step_fs_ok [OF ok st]
  have un: "unat (off + n) = unat off + unat n" using off(2) by (intro unat_add_lem [THEN iffD1]) simp
  have le: "\<not> isize (icache s ip) < off" "\<not> off + n < off" "\<not> of_nat (MAXFILE * BSIZE) < off + n"
    using off un by (simp_all add: word_less_nat_alt word_le_nat_alt not_less)
  have sn: "sint n = int (unat n)" using n(1) by (intro sint_small) simp
  have rt: "room t 1" using dirty_in_room [OF E(1), of 1] E(2) nb rm st'(4) by (simp add: room_def)
  have ct: "card (bdirty t) \<le> card (bdirty s) + 6"
  proof -
    have "card (bdirty t) \<le> card (E \<union> {sb_bmapstart (fsb t), addrs (icache t ip) ! NDIRECT})"
      using E(1) by (intro card_mono) (auto simp: dirty_in_def)
    also have "\<dots> \<le> card E + card {sb_bmapstart (fsb t), addrs (icache t ip) ! NDIRECT}" by (rule card_Un_le)
    also have "card {sb_bmapstart (fsb t), addrs (icache t ip) ! NDIRECT} \<le> 2" by (simp add: card_insert_if)
    finally show ?thesis using E(2) nb by simp
  qed
  have len: "length (take (unat n) src) = unat n" using n(2) by simp
  have byt: "fbyte (bview t) (icache t ip) p =
      (if unat off \<le> p \<and> p < unat off + unat n then src ! (p - unat off) else fbyte (bview s) (icache s ip) p)"
    if "p < MAXFILE * BSIZE" for p
    using sto that len unfolding stored_def by auto
  have bn: "baddr (bview t) (icache t ip) k \<noteq> 0"
    if "k * BSIZE < max (unat (isize (icache s ip))) (unat off + unat n)" for k
    using stored_no_holes [OF nh st sto, of k] that off len by (simp add: word_le_nat_alt)
  obtain as where ics: "icache t = (icache s)(ip := (icache s ip)\<lparr>addrs := as\<rparr>)"
    using file_step_icache [OF st] by blast
  have free_t: "card (free_blocks s) \<le> card (free_blocks t) + 8" using st'(22) nb by simp
  have fr: "\<forall>b. used s (unat b) \<and> b \<noteq> sb_bmapstart (fsb s) \<and> b \<noteq> ?ib \<and>
      b \<notin> own_blocks (bview s) (icache s ip) \<longrightarrow> bview t b = bview s b" using st'(21) by blast
  show ?thesis
  proof (cases "isize (icache s ip) < off + n")
    case False
    then have mx: "max (unat (isize (icache s ip))) (unat off + unat n) = unat (isize (icache s ip))"
      using un by (simp add: word_less_nat_alt)
    have "no_holes t ip" using bn nh st'(13) mx by (simp add: no_holes_def)
    moreover have "writei devsw ip src off n s = Ret (int (unat n), t)"
      using 1 ty le False st'(13) sn by (simp add: writei_def)
    moreover have "\<exists>as z. icache t ip = (icache s ip)\<lparr>addrs := as, isize := z\<rparr>"
      using ics by (intro exI [of _ as] exI [of _ "isize (icache s ip)"]) simp
    moreover have "\<forall>j. j \<noteq> ip \<longrightarrow> icache t j = icache s j" "\<forall>b. used s b \<longrightarrow> used t b" using st'(12,19) by blast+
    moreover have "unat (isize (icache t ip)) = max (unat (isize (icache s ip))) (unat off + unat n)"
      using mx st'(13) by simp
    moreover have "card (bdirty t) \<le> card (bdirty s) + 7" using ct by simp
    ultimately show ?thesis using okt byt fr free_t same_frame_step [OF st] by blast
  next
    case True
    then have mx: "max (unat (isize (icache s ip))) (unat off + unat n) = unat (off + n)" "0 < n"
      using un off(1) by (auto simp: word_less_nat_alt word_le_nat_alt)
    obtain s' where 2: "iupdate ip (upd_inode ip (\<lambda>i. i\<lparr>isize := off + n\<rparr>) t) = Ret s'" "fs_ok s' ip"
        "icache s' = (icache t)(ip := (icache t ip)\<lparr>isize := off + n\<rparr>)"
        "\<forall>k < MAXFILE. fblock (bview s') (icache s' ip) k = fblock (bview t) (icache t ip) k \<and>
          baddr (bview s') (icache s' ip) k = baddr (bview t) (icache t ip) k"
        "used s' = used t" "bdirty s' = insert ?ib (bdirty t)" "\<forall>b. b \<noteq> ?ib \<longrightarrow> bview s' b = bview t b" "same_frame t s'"
      using writei_size [OF okt rt, of "off + n"] ino unfolding st'(7,16) by blast
    have "no_holes s' ip"
      using bn 2(3,4) mx(1) un off(2) unfolding no_holes_def by auto
    moreover have "writei devsw ip src off n s = Ret (int (unat n), s')"
      using 1 ty le True st'(13) sn 2(1) mx(2) by (simp add: writei_def)
    moreover have "card (bdirty s') \<le> card (bdirty s) + 7" using 2(6) ct by (simp add: card_insert_if)
    moreover have "fbyte (bview s') (icache s' ip) p = fbyte (bview t) (icache t ip) p" if "p < MAXFILE * BSIZE" for p
      using fbyte_cong [of "bview s'" "icache s' ip" "bview t" "icache t ip" p] 2(4) that by blast
    moreover have "\<exists>as z. icache s' ip = (icache s ip)\<lparr>addrs := as, isize := z\<rparr>"
      using ics 2(3) by (intro exI [of _ as] exI [of _ "off + n"]) simp
    moreover have "same_frame s s'" using same_frame_trans [OF same_frame_step [OF st] 2(8)] .
    moreover have "free_blocks s' = free_blocks t"
      using 2(5,8) by (simp add: free_blocks_def same_frame_def)
    then have "card (free_blocks s) \<le> card (free_blocks s') + 8" using free_t by simp
    moreover have "\<forall>j. j \<noteq> ip \<longrightarrow> icache s' j = icache s j" "\<forall>b. used s b \<longrightarrow> used s' b"
      using st'(12,19) 2(3,5) by auto
    moreover have "unat (isize (icache s' ip)) = max (unat (isize (icache s ip))) (unat off + unat n)"
      using mx(1) 2(3) by simp
    moreover have "\<forall>b. used s (unat b) \<and> b \<noteq> sb_bmapstart (fsb s) \<and> b \<noteq> ?ib \<and>
      b \<notin> own_blocks (bview s) (icache s ip) \<longrightarrow> bview s' b = bview s b" using fr 2(7) by simp
    ultimately show ?thesis using 2(2) byt by (intro exI [of _ s'] conjI) (simp_all | blast)+
  qed
qed

lemma readi_spec:
  fixes s :: "'a fsst_scheme"
  assumes rd: "fs_rd s ip" and nh: "no_holes s ip" and ty: "itype (icache s ip) \<noteq> T_DEV"
    and off: "off \<le> isize (icache s ip)" "unat off + unat n < 2 ^ 32"
  defines "k \<equiv> min (unat n) (unat (isize (icache s ip)) - unat off)"
  shows "\<exists>s'. readi devsw ip off n s =
      Ret (int k, map (fbyte (bview s) (icache s ip)) [unat off..<unat off + k], s') \<and>
    log_inv s' \<and> log_abs s' = log_abs s"
proof -
  let ?sz = "isize (icache s ip)"
  define m where "m = (if off + n > ?sz then ?sz - off else n)"
  have un: "unat (off + n) = unat off + unat n" using off(2) by (intro unat_add_lem [THEN iffD1]) simp
  have le: "\<not> ?sz < off" "\<not> off + n < off" using off(1) un by (simp_all add: word_less_nat_alt word_le_nat_alt not_less)
  have m: "unat m = k" using un off(1) by (auto simp: m_def k_def word_less_nat_alt word_le_nat_alt unat_sub)
  have sz: "unat off + k \<le> unat ?sz" "unat ?sz \<le> MAXFILE * BSIZE" using off(1) nh
    by (auto simp: k_def word_le_nat_alt no_holes_def)
  have sm: "sint m = int k" using sint_small [of m] m sz by simp
  obtain s' where "readi_loop ip off m [] s = Ret (map (fbyte (bview s) (icache s ip)) [unat off..<unat off + k], s')"
      "log_inv s'" "log_abs s' = log_abs s"
    using readi_loop_spec [OF rd, of off m "[]"] nh sz unfolding m no_holes_def by fastforce
  then show ?thesis using ty le sm by (simp add: readi_def m_def Let_def)
qed

text \<open>Another file keeps its blocks and its bytes.\<close>

lemma other_file_kept:
  assumes ok: "file_ok s jp" and fok: "fs_geom s" "unat (inum (icache s ip)) < unat (sb_ninodes (fsb s))"
    and dj: "own_blocks (bview s) (icache s jp) \<inter> own_blocks (bview s) (icache s ip) = {}"
    and fr: "\<forall>b. used s (unat b) \<and> b \<noteq> sb_bmapstart (fsb s) \<and> b \<noteq> IBLOCK (inum (icache s ip)) (fsb s) \<and>
      b \<notin> own_blocks (bview s) (icache s ip) \<longrightarrow> bview s' b = bview s b"
    and ic: "icache s' jp = icache s jp"
  shows "baddr (bview s') (icache s' jp) = baddr (bview s) (icache s jp) \<and>
    (\<forall>p < MAXFILE * BSIZE. fbyte (bview s') (icache s' jp) p = fbyte (bview s) (icache s jp) p)"
proof -
  let ?i = "icache s jp"
  note f = file_okD [OF ok]
  have ib: "unat (IBLOCK (inum (icache s ip)) (fsb s)) < data_start (fsb s)"
    using unat_IBLOCK(2) [OF fok] by (simp add: data_start_def)
  have same: "bview s' a = bview s a" if "block_ok s a" "a \<in> own_blocks (bview s) ?i" for a
  proof -
    have "a \<noteq> IBLOCK (inum (icache s ip)) (fsb s)" using ib that(1) by (auto simp: block_ok_def)
    moreover have "a \<notin> own_blocks (bview s) (icache s ip)" using dj that(2) by blast
    ultimately show ?thesis using fr block_ok_not_bmap [OF that(1)] that(1) by (simp add: block_ok_def)
  qed
  have ind: "bview s' (addrs ?i ! NDIRECT) = bview s (addrs ?i ! NDIRECT)" if "addrs ?i ! NDIRECT \<noteq> 0"
    using same [OF f(5) [OF that]] that by (auto simp: own_blocks_def)
  have ba: "baddr (bview s') ?i = baddr (bview s) ?i"
    using ind by (intro ext) (auto simp: baddr_def ind_entry_def)
  have "fblock (bview s') ?i k = fblock (bview s) ?i k" if "k < MAXFILE" for k
    using same [OF f(3) [OF that]] that unfolding fblock_def ba by (auto simp: own_blocks_def)
  then show ?thesis using ba ic fbyte_cong [of "bview s'" ?i "bview s" ?i] by auto
qed

section \<open>A file system for the witnesses\<close>

text \<open>The disk of \<open>demo_disk\<close> with a file of five bytes in block 59 and an empty block 60 of another.\<close>

definition demo_map :: bytes where
  "demo_map = replicate 7 255 @ [31] @ replicate 504 0"

definition demo_fdisk :: disk where
  "demo_fdisk b = (if b = 58 then demo_map else if b = 59 then [104, 101, 108, 108, 111] @ replicate 507 0 else demo_disk b)"

definition demo_inode :: inode where
  "demo_inode = \<lparr>idev = 1, inum = 2, iref = 1, ilk = initsleeplock, ivalid = True, itype = T_FILE, major = 0,
     minor = 0, inlink = 1, isize = 5, addrs = 59 # replicate 12 0\<rparr>"

definition demo_devsw :: "fsst devsw" where
  "demo_devsw k = \<lparr>dev_read = None, dev_write = None\<rparr>"

definition demo_icache :: "nat \<Rightarrow> inode" where
  "demo_icache k = (if k = 0 then demo_inode else demo_inode\<lparr>inum := 3, addrs := 60 # replicate 12 0\<rparr>)"

definition demo_fboot :: "'a \<Rightarrow> 'a fsst_scheme" where
  "demo_fboot z = \<lparr>bufs = \<lambda>_. zero_buf, idequeue = None, havedisk1 = True, ide_select = (0, 0),
     ide_error = False, platter = \<lambda>_. demo_fdisk, disk_writes = [], curpid = 1, lstart = 0,
     lsize = 0, outstanding = 0, committing = False, ldev = 0, lh_n = 0, lh_block = \<lambda>_. 0,
     fsb = sb_of_bytes demo_sb, icache = demo_icache, \<dots> = z\<rparr>"

lemma demo_fdisk_len: "length (demo_fdisk b) = BSIZE"
  by (simp add: demo_fdisk_def demo_map_def demo_disk_len)

lemma demo_map_used: "b < 61 \<Longrightarrow> map_bit b demo_map"
proof -
  have "list_all (\<lambda>b. map_bit b demo_map) [0..<61]" by code_simp
  then show "b < 61 \<Longrightarrow> map_bit b demo_map" by (simp add: list_all_iff)
qed

lemma demo_map_free: "61 \<le> b \<Longrightarrow> b < 85 \<Longrightarrow> \<not> map_bit b demo_map"
proof -
  have "list_all (\<lambda>b. \<not> map_bit b demo_map) [61..<85]" by code_simp
  then show "61 \<le> b \<Longrightarrow> b < 85 \<Longrightarrow> \<not> map_bit b demo_map" unfolding list_all_iff set_upt by simp
qed

lemma demo_sb_all:
  "sb_size (sb_of_bytes demo_sb) = 1000" "sb_ninodes (sb_of_bytes demo_sb) = 200"
  "sb_inodestart (sb_of_bytes demo_sb) = 32" "sb_bmapstart (sb_of_bytes demo_sb) = 58"
  by (simp_all add: demo_sb_def sb_of_bytes_def get32_put32_other)

lemma demo_baddr:
  "bn < MAXFILE \<Longrightarrow> baddr v (demo_icache k) bn = (if bn = 0 then if k = 0 then 59 else 60 else 0)"
  by (auto simp: baddr_def ind_entry_def demo_icache_def demo_inode_def nth_Cons split: nat.split)

lemma demo_own: "own_blocks v (demo_icache 1) \<inter> own_blocks v (demo_icache 0) = {}"
proof -
  have "addrs (demo_icache k) ! NDIRECT = 0" for k by (simp add: demo_icache_def demo_inode_def)
  then show ?thesis by (auto simp: own_blocks_def demo_baddr split: if_splits)
qed

lemma demo_file:
  "\<exists>s :: 'a fsst_scheme. fs_ok s 0 \<and> no_holes s 0 \<and> room s MAXOPBLOCKS \<and> icache s = demo_icache \<and>
     24 \<le> card (free_blocks s) \<and> fsb s = sb_of_bytes demo_sb \<and> bdirty s = {} \<and> file_ok s 1 \<and>
     \<not> committing s \<and> lsize s = 30 \<and> fsst.more s = z \<and>
     (\<forall>b. b \<notin> log_area 2 30 \<longrightarrow> bview s b = demo_fdisk b)"
proof -
  have "booted 2 30 demo_fdisk (demo_fboot z)"
    using demo_fdisk_len
    by (simp add: booted_def fresh_cache_def quiet_def demo_fboot_def demo_sb_fields zero_buf_def)
       (simp add: demo_fdisk_def demo_disk_def demo_sb_fields)
  moreover have dok: "log_disk_ok 2 30 demo_fdisk" "head_n 2 demo_fdisk = 0"
    by (simp_all add: log_disk_ok_def head_n_def demo_fdisk_def demo_disk_def get32_replicate_0)
  ultimately obtain s :: "'a fsst_scheme" where s: "log_inv s" "bheld s = Map.empty" "lh_n s = 0" "lstart s = 2" "lsize s = 30"
      "\<forall>b. b \<notin> log_area 2 30 \<longrightarrow> platter s 1 b = demo_fdisk b" "bview s = platter s 1" "\<not> committing s"
    using initlog_spec [of 2 30 demo_fdisk "demo_fboot z"] demo_geom by (auto simp: logical_def demo_fboot_def)
  define t where "t = fsst.more_update (\<lambda>_. z) (s\<lparr>outstanding := 1, fsb := sb_of_bytes demo_sb, icache := demo_icache\<rparr>)"
  have t: "bview t = bview s" "bheld t = bheld s" "bdirty t = bdirty s" "bio_inv t = bio_inv s"
    unfolding t_def by (rule bio_inv_cong bview_cong bdirty_cong bheld_cong; simp)+
  have ti: "log_inv t" using s(1) t unfolding log_inv_def by (simp add: t_def)
  have d: "bdirty t = {}" using t(3) log_invD(7) [OF s(1)] s(3) by simp
  have tf: "lsize t = 30" "lstart t = 2" "fsb t = sb_of_bytes demo_sb" "icache t = demo_icache" "outstanding t = 1"
      "\<not> committing t" "fsst.more t = z"
    using s by (simp_all add: t_def)
  have v: "bview t b = demo_fdisk b" if "b \<notin> log_area 2 30" for b using s(6,7) t(1) that by simp
  have u: "used t b = map_bit b demo_map" for b
    using v [of 58] by (simp add: used_def tf demo_sb_all demo_fdisk_def log_area_def)
  have g: "fs_geom t" using demo_geom by (simp add: fs_geom_def data_start_def tf demo_sb_all)
  have mu: "meta_used t" using demo_map_used by (simp add: meta_used_def data_start_def tf demo_sb_all u)
  have bo: "block_ok t 59" "block_ok t 60" using demo_map_used [of 59] demo_map_used [of 60] by (simp_all add: block_ok_def data_start_def tf demo_sb_all u)
  have fo: "file_ok t k" for k
    using bo by (simp add: file_ok_def tf demo_baddr Let_def) (simp add: demo_icache_def demo_inode_def)
  then have "fs_ok t 0" using ti g mu s(2) t(2) by (simp add: fs_ok_def tf)
  moreover have "no_holes t 0"
    by (auto simp: no_holes_def tf demo_icache_def demo_inode_def baddr_def nth_Cons split: nat.splits)
  moreover have "card {61..<85 :: nat} \<le> card (free_blocks t)"
    using demo_map_free by (intro card_mono) (auto simp: free_blocks_def u tf demo_sb_all)
  ultimately show ?thesis using d v tf fo by (intro exI [of _ t]) (simp add: room_def)
qed

section \<open>Properties\<close>

text \<open>
  C17. What \<open>writei\<close> stores is what \<open>readi\<close> then returns. Writing \<open>n\<close> bytes, at most three
  blocks' worth, at an offset inside a file without holes returns \<open>n\<close>; reading the same range
  back returns those bytes. Allocation of new blocks on the way, of the indirect block
  included, is part of both calls.
\<close>

theorem write_then_read:
  fixes s :: "'a fsst_scheme"
  assumes "fs_ok s ip" and "no_holes s ip" and "itype (icache s ip) \<noteq> T_DEV"
    and "unat (inum (icache s ip)) < unat (sb_ninodes (fsb s))"
    and "off \<le> isize (icache s ip)" and "unat off + unat n \<le> MAXFILE * BSIZE"
    and "unat n \<le> 3 * BSIZE" and "unat n = length src"
    and "room s MAXOPBLOCKS" and "8 \<le> card (free_blocks s)"
  shows "\<exists>t u. writei devsw ip src off n s = Ret (int (length src), t) \<and>
    readi devsw ip off n t = Ret (int (length src), src, u)"
proof -
  obtain t where 1: "writei devsw ip src off n s = Ret (int (unat n), t)" "fs_ok t ip" "no_holes t ip"
      "unat (isize (icache t ip)) = max (unat (isize (icache s ip))) (unat off + unat n)"
      "\<forall>p < MAXFILE * BSIZE. fbyte (bview t) (icache t ip) p = (if unat off \<le> p \<and> p < unat off + unat n
        then src ! (p - unat off) else fbyte (bview s) (icache s ip) p)"
      "card (bdirty t) \<le> card (bdirty s) + 7" "\<exists>as z. icache t ip = (icache s ip)\<lparr>addrs := as, isize := z\<rparr>"
      "same_frame s t"
    using writei_spec [OF assms(1-7) eq_imp_le [OF assms(8)] assms(9,10), of devsw] by blast
  have ty: "itype (icache t ip) = itype (icache s ip)" using 1(7) by auto
  have "room t 0" using 1(6,8) assms(9) by (simp add: room_def same_frame_def)
  then have rd: "fs_rd t ip" using fs_okD [OF 1(2)] by (simp add: fs_rd_def)
  have off: "off \<le> isize (icache t ip)" using 1(4) assms(5) by (simp add: word_le_nat_alt)
  have "map (fbyte (bview t) (icache t ip)) [unat off..<unat off + unat n] = src"
    using 1(5) assms(6,8) by (intro nth_equalityI) simp_all
  moreover have "min (unat n) (unat (isize (icache t ip)) - unat off) = unat n" using 1(4) by simp
  ultimately obtain u where "readi devsw ip off n t = Ret (int (unat n), src, u)"
    using readi_spec [OF rd 1(3) _ off, of n devsw] ty assms(3,6) by auto
  then show ?thesis using 1(1) assms(8) by auto
qed

theorem write_then_read_witness:
  "\<exists>(s :: fsst) t u. isize (icache s 0) = 5 \<and>
     writei demo_devsw 0 [119, 111, 114, 108, 100] 3 5 s = Ret (5, t) \<and>
     readi demo_devsw 0 3 5 t = Ret (5, [119, 111, 114, 108, 100], u)"
proof -
  obtain s :: fsst where s: "fs_ok s 0" "no_holes s 0" "room s MAXOPBLOCKS" "icache s = demo_icache"
      "24 \<le> card (free_blocks s)" "fsb s = sb_of_bytes demo_sb"
    using demo_file [of "()"] by blast
  have i: "isize (icache s 0) = 5" "itype (icache s 0) = T_FILE" "inum (icache s 0) = 2"
    using s(4) by (simp_all add: demo_icache_def demo_inode_def)
  show ?thesis
    using write_then_read [OF s(1,2), of 3 5 "[119, 111, 114, 108, 100]" demo_devsw] s(3,5,6) i
    by (auto simp: demo_sb_all)
qed

text \<open>
  C18. Writing a file leaves every other file alone. When no block belongs to both files,
  \<open>writei\<close> on one changes neither a byte nor a block address of the other, nor its inode,
  even when it allocates.
\<close>

theorem writei_keeps_other_files:
  fixes s :: "'a fsst_scheme"
  assumes "fs_ok s ip" and "no_holes s ip" and "itype (icache s ip) \<noteq> T_DEV"
    and "unat (inum (icache s ip)) < unat (sb_ninodes (fsb s))"
    and "off \<le> isize (icache s ip)" and "unat off + unat n \<le> MAXFILE * BSIZE"
    and "unat n \<le> 3 * BSIZE" and "unat n \<le> length src"
    and "room s MAXOPBLOCKS" and "8 \<le> card (free_blocks s)"
    and "jp \<noteq> ip" and "file_ok s jp"
    and "own_blocks (bview s) (icache s jp) \<inter> own_blocks (bview s) (icache s ip) = {}"
  shows "\<exists>t. writei devsw ip src off n s = Ret (int (unat n), t) \<and> icache t jp = icache s jp \<and>
    baddr (bview t) (icache t jp) = baddr (bview s) (icache s jp) \<and>
    (\<forall>p < MAXFILE * BSIZE. fbyte (bview t) (icache t jp) p = fbyte (bview s) (icache s jp) p)"
proof -
  obtain t where 1: "writei devsw ip src off n s = Ret (int (unat n), t)"
      "\<forall>b. used s (unat b) \<and> b \<noteq> sb_bmapstart (fsb s) \<and> b \<noteq> IBLOCK (inum (icache s ip)) (fsb s) \<and>
        b \<notin> own_blocks (bview s) (icache s ip) \<longrightarrow> bview t b = bview s b"
      "\<forall>j. j \<noteq> ip \<longrightarrow> icache t j = icache s j"
    using writei_spec [OF assms(1-10), of devsw] by blast
  have ic: "icache t jp = icache s jp" using 1(3) assms(11) by simp
  show ?thesis
    using other_file_kept [OF assms(12) fs_okD(2) [OF assms(1)] assms(4,13) 1(2) ic] 1(1) ic by blast
qed

theorem writei_keeps_other_files_witness:
  "\<exists>(s :: fsst) t. writei demo_devsw 0 [119, 111, 114, 108, 100] 3 5 s = Ret (5, t) \<and>
     baddr (bview t) (icache t 1) 0 = 60 \<and> fbyte (bview t) (icache t 1) 0 = fbyte (bview s) (icache s 1) 0"
proof -
  obtain s :: fsst where s: "fs_ok s 0" "no_holes s 0" "room s MAXOPBLOCKS" "icache s = demo_icache"
      "24 \<le> card (free_blocks s)" "fsb s = sb_of_bytes demo_sb" "file_ok s 1"
    using demo_file [of "()"] by blast
  have i: "isize (icache s 0) = 5" "itype (icache s 0) = T_FILE" "inum (icache s 0) = 2"
    using s(4) by (simp_all add: demo_icache_def demo_inode_def)
  have "own_blocks (bview s) (icache s 1) \<inter> own_blocks (bview s) (icache s 0) = {}"
    using demo_own s(4) by (simp add: demo_icache_def)
  then obtain t where t: "writei demo_devsw 0 [119, 111, 114, 108, 100] 3 5 s = Ret (5, t)"
      "baddr (bview t) (icache t 1) = baddr (bview s) (icache s 1)"
      "\<forall>p < MAXFILE * BSIZE. fbyte (bview t) (icache t 1) p = fbyte (bview s) (icache s 1) p"
    using writei_keeps_other_files [OF s(1,2), of 3 5 "[119, 111, 114, 108, 100]" 1 demo_devsw] s(3,5-7) i
    by (auto simp: demo_sb_all)
  then show ?thesis using s(4) by (intro exI [of _ s] exI [of _ t]) (simp add: demo_icache_def demo_inode_def baddr_def)
qed

text \<open>
  C19. \<open>readi\<close> on a file returns exactly the bytes of the range, cut off at the end of the
  file, and the number of them. It changes no block, records nothing in the log and leaves no
  buffer locked.
\<close>

theorem readi_returns_bytes:
  fixes s :: "'a fsst_scheme"
  assumes "fs_rd s ip" and "no_holes s ip" and "itype (icache s ip) \<noteq> T_DEV"
    and "off \<le> isize (icache s ip)" and "unat off + unat n < 2 ^ 32"
  shows "\<exists>t. readi devsw ip off n s =
      (let k = min (unat n) (unat (isize (icache s ip)) - unat off)
       in Ret (int k, map (fbyte (bview s) (icache s ip)) [unat off..<unat off + k], t)) \<and>
    bview t = bview s \<and> bdirty t = bdirty s \<and> bheld t = bheld s \<and> platter t 1 = platter s 1 \<and> icache t = icache s"
proof -
  let ?k = "min (unat n) (unat (isize (icache s ip)) - unat off)"
  obtain t where t: "readi devsw ip off n s = Ret (int ?k, map (fbyte (bview s) (icache s ip)) [unat off..<unat off + ?k], t)"
      "log_abs t = log_abs s"
    using readi_spec [OF assms, of devsw] by blast
  then show ?thesis using log_absD [OF t(2) refl, simplified] by (auto simp: Let_def)
qed

theorem readi_returns_bytes_witness:
  "\<exists>(s :: fsst) t. readi demo_devsw 0 1 100 s = Ret (4, [101, 108, 108, 111], t) \<and> bdirty t = {}"
proof -
  obtain s :: fsst where s: "fs_ok s 0" "no_holes s 0" "room s MAXOPBLOCKS" "icache s = demo_icache" "bdirty s = {}"
      "\<forall>b. b \<notin> log_area 2 30 \<longrightarrow> bview s b = demo_fdisk b"
    using demo_file [of "()"] by blast
  have i: "isize (icache s 0) = 5" "itype (icache s 0) = T_FILE" "icache s 0 = demo_inode"
    using s(4) by (simp_all add: demo_icache_def demo_inode_def)
  have rd: "fs_rd s 0" using s(3) fs_okD [OF s(1)] by (simp add: fs_rd_def room_def)
  have "bview s 59 = demo_fdisk 59" using s(6) by (simp add: log_area_def)
  then have "fbyte (bview s) (icache s 0) p = demo_fdisk 59 ! p" if "p < 512" for p
    using s(4) that by (simp add: fbyte_def fblock_def demo_baddr)
  then have m: "map (fbyte (bview s) (icache s 0)) [1, 2, 3, 4] = [101, 108, 108, 111]"
    by (simp add: demo_fdisk_def)
  have k: "min (unat (100 :: u32)) (unat (isize (icache s 0)) - unat (1 :: u32)) = 4"
      "[unat (1 :: u32)..<unat (1 :: u32) + 4] = [1, 2, 3, 4 :: nat]"
    using i by simp code_simp
  show ?thesis
    using readi_returns_bytes [OF rd s(2), of 1 100 demo_devsw] i s(5) unfolding Let_def k m by auto
qed




text \<open>
  C21. \<open>balloc\<close> hands out a data block that was free, zeroed, and marks it in the free map,
  changing nothing else; \<open>bfree\<close> of that block puts the map back as it was. Freeing a block
  that is free already stops the kernel.
\<close>

theorem balloc_then_bfree:
  fixes s :: "'a fsst_scheme"
  assumes "log_inv s" and "fs_geom s" and "meta_used s" and "1 \<le> outstanding s" and "bheld s = Map.empty"
    and "room s 3" and "\<exists>b < unat (sb_size (fsb s)). \<not> used s b"
  shows "\<exists>b t u. balloc 1 s = Ret (b, t) \<and> \<not> used s (unat b) \<and> data_start (fsb s) \<le> unat b \<and>
    unat b < unat (sb_size (fsb s)) \<and> used t = (used s)(unat b := True) \<and> bview t b = replicate BSIZE 0 \<and>
    (\<forall>c. c \<noteq> b \<and> c \<noteq> sb_bmapstart (fsb s) \<longrightarrow> bview t c = bview s c) \<and>
    bfree 1 b t = Ret u \<and> used u = used s \<and> bfree 1 b u = Panic ''freeing free block''"
proof -
  let ?m = "sb_bmapstart (fsb s)"
  have h: "card (dom (bheld s)) \<le> 1" "\<forall>b \<in> ran (bheld s). data_start (fsb s) \<le> unat b \<and> used s (unat b)"
    using assms(5) by auto
  have r2: "room s 2" using assms(6) by (simp add: room_def)
  obtain b t where 1: "balloc 1 s = Ret (b, t)" "log_inv t" "data_start (fsb s) \<le> unat b"
      "unat b < unat (sb_size (fsb s))" "\<not> used s (unat b)"
      "log_abs t = (let m = ?m in (log_abs s)\<lparr>
        jview := (bview s)(m := map_set (unat b) (bview s m), b := replicate BSIZE 0),
        jlog := insert b (insert m (bdirty s))\<rparr>)"
    using balloc_spec [OF assms(1-4) h r2 assms(7)] by blast
  note d = log_absD [OF 1(6), of s, simplified Let_def, simplified]
  have bm: "b \<noteq> ?m" using 1(3) by (auto simp: data_start_def)
  have b4: "unat b < 4096" using 1(4) fs_geomD(1) [OF assms(2)] by simp
  have ut: "used t = (used s)(unat b := True)"
    using used_after_balloc [of t s "unat b"] d bm b4 assms(1) by (intro ext) simp
  have "card (insert b (insert ?m (bdirty s))) \<le> card (bdirty s) + 2"
    using card_insert_bdirty [of ?m s] by (simp add: card_insert_if)
  then have rt: "room t 1" using assms(6) d by (simp add: room_def)
  have gt: "fs_geom t" "1 \<le> outstanding t" "card (dom (bheld t)) \<le> 1" "sb_bmapstart (fsb t) \<notin> ran (bheld t)"
    using assms(2,4,5) d by (simp_all add: fs_geom_def)
  obtain u where 2: "bfree 1 b t = Ret u" "log_inv u" "log_abs u = (log_abs t)\<lparr>
      jview := (bview t)(?m := map_clear (unat b) (bview t ?m)), jlog := insert ?m (bdirty t)\<rparr>"
    using bfree_spec [OF 1(2) gt rt, of b] 1(4) d ut by (auto simp: Let_def)
  note e = log_absD [OF 2(3), of t, simplified]
  have len: "length (bview s x) = BSIZE" for x using bio_length [OF log_invD(1) [OF assms(1)]] .
  have uu: "used u = used s"
    using map_bit_clear [of "unat b" "bview t ?m"] map_bit_set [of "unat b" "bview s ?m"] len b4 1(5) bm d e
    by (intro ext) (auto simp: used_def)
  have gu: "fs_geom u" "?m \<notin> ran (bheld u)" "card (dom (bheld u)) \<le> 1" "room u 0"
    using assms(2,5) d e rt by (simp_all add: fs_geom_def room_def insert_absorb)
  obtain i v where "bread 1 ?m u = Ret (i, v)" "data_of i v = bview u ?m"
    using fs_peek [OF 2(2) fs_geomD(6) [OF gu(1)]] gu d e by auto
  moreover have "unat (b mod 4096) = unat b" using b4 by (simp add: unat_mod)
  ultimately have "bfree 1 b u = Panic ''freeing free block''"
    using BBLOCK_0 [OF b4] uu 1(5) d e by (simp add: bfree_def used_def fun_eq_iff)
  then show ?thesis using 1 2(1) ut uu d bm by auto
qed

theorem balloc_then_bfree_witness:
  "\<exists>(s :: fsst) b t u. balloc 1 s = Ret (b, t) \<and> 61 \<le> unat b \<and> used t (unat b) \<and>
     bfree 1 b t = Ret u \<and> \<not> used u (unat b) \<and> bfree 1 b u = Panic ''freeing free block''"
proof -
  obtain s :: fsst where s: "fs_ok s 0" "room s MAXOPBLOCKS" "24 \<le> card (free_blocks s)" "fsb s = sb_of_bytes demo_sb"
      "\<forall>b. b \<notin> log_area 2 30 \<longrightarrow> bview s b = demo_fdisk b"
    using demo_file [of "()"] by blast
  have r: "room s 3" "0 < card (free_blocks s)" using s(2,3) by (simp_all add: room_def)
  obtain b t u where 1: "balloc 1 s = Ret (b, t)" "\<not> used s (unat b)" "used t = (used s)(unat b := True)"
      "bfree 1 b t = Ret u" "used u = used s" "bfree 1 b u = Panic ''freeing free block''"
    using balloc_then_bfree [OF fs_okD(1-5) [OF s(1)] r(1) free_exists [OF r(2)]] by blast
  have "used s c" if "c < 61" for c
    using s(4,5) demo_map_used [OF that] by (simp add: used_def demo_sb_all log_area_def demo_fdisk_def)
  then have "61 \<le> unat b" using 1(2) by (auto simp: not_less [symmetric])
  then show ?thesis
    using 1 by (intro exI [of _ s] exI [of _ b] exI [of _ t] exI [of _ u]) simp
qed

section \<open>Inodes on disk and in memory\<close>

lemma get_fold_put32:
  assumes "off + 4 * length ks \<le> length d"
  shows "k < length ks \<Longrightarrow>
      get32 (fold (\<lambda>k. put32 (off + 4 * k) (f k)) [0..<length ks] d) (off + 4 * k) = f k"
    and "i + 3 < off \<or> off + 4 * length ks \<le> i \<Longrightarrow>
      get32 (fold (\<lambda>k. put32 (off + 4 * k) (f k)) [0..<length ks] d) i = get32 d i"
    and "i + 1 < off \<or> off + 4 * length ks \<le> i \<Longrightarrow>
      get16 (fold (\<lambda>k. put32 (off + 4 * k) (f k)) [0..<length ks] d) i = get16 d i"
  using assms
proof (induction ks arbitrary: k)
  case (Cons a ks)
  case 1
  have "length (fold (\<lambda>k. put32 (off + 4 * k) (f k)) [0..<length ks] d) = length d" by (rule length_fold) simp
  then show ?case using Cons(1) [of k] 1 by (cases "k = length ks") (auto simp: get32_put32_other)
next
  case (Cons a ks)
  case 2
  then show ?case using Cons(2) by (auto simp: get32_put32_other)
next
  case (Cons a ks)
  case 3
  then show ?case using Cons(3) by (auto simp: get16_put32_other)
qed simp_all

lemma dip_load_store:
  assumes "off + 64 \<le> length d" and "length (addrs i) = NDIRECT + 1"
  shows "dip_load off (dip_store off i d) j = j\<lparr>itype := itype i, major := major i, minor := minor i,
    inlink := inlink i, isize := isize i, addrs := addrs i\<rparr>"
proof -
  let ?e = "put32 (off + 8) (isize i) (put16 (off + 6) (inlink i) (put16 (off + 4) (minor i)
         (put16 (off + 2) (major i) (put16 off (itype i) d))))"
  have st: "dip_store off i d = fold (\<lambda>k. put32 (off + 12 + 4 * k) (addrs i ! k)) [0..<length (addrs i)] ?e"
    using assms(2) by (simp add: dip_store_def)
  have le: "off + 12 + 4 * length (addrs i) \<le> length ?e" using assms by simp
  note g = get_fold_put32 [OF le, of _ "(!) (addrs i)"]
  have "map (\<lambda>k. get32 (dip_store off i d) (off + 12 + 4 * k)) [0..<NDIRECT + 1] = addrs i"
    unfolding st using g(1) assms(2) by (intro nth_equalityI) simp_all
  moreover have "get32 (dip_store off i d) (off + 8) = isize i" "get16 (dip_store off i d) (off + 6) = inlink i"
      "get16 (dip_store off i d) (off + 4) = minor i" "get16 (dip_store off i d) (off + 2) = major i"
      "get16 (dip_store off i d) off = itype i"
    unfolding st using g(2,3) assms by (simp_all add: get16_put16_other get16_put32_other)
  ultimately show ?thesis by (simp add: dip_load_def)
qed

lemma dip_load_other:
  assumes "off + 64 \<le> length d" and "length (addrs i) = NDIRECT + 1" and "off' + 64 \<le> off \<or> off + 64 \<le> off'"
  shows "dip_load off' (dip_store off i d) j = dip_load off' d j"
proof -
  let ?e = "put32 (off + 8) (isize i) (put16 (off + 6) (inlink i) (put16 (off + 4) (minor i)
         (put16 (off + 2) (major i) (put16 off (itype i) d))))"
  have st: "dip_store off i d = fold (\<lambda>k. put32 (off + 12 + 4 * k) (addrs i ! k)) [0..<length (addrs i)] ?e"
    using assms(2) by (simp add: dip_store_def)
  have le: "off + 12 + 4 * length (addrs i) \<le> length ?e" using assms by simp
  note g = get_fold_put32 [OF le, of _ "(!) (addrs i)"]
  have "get32 (dip_store off i d) k = get32 d k" if "k + 3 < off \<or> off + 64 \<le> k" for k
    unfolding st using that assms(2) by (subst g(2)) (auto simp: get32_put16_other get32_put32_other)
  moreover have "get16 (dip_store off i d) k = get16 d k" if "k + 1 < off \<or> off + 64 \<le> k" for k
    unfolding st using that assms(2) by (subst g(3)) (auto simp: get16_put16_other get16_put32_other)
  ultimately show ?thesis using assms(3) by (auto simp: dip_load_def)
qed

lemma dip_off_le: "log_inv s \<Longrightarrow> dip_off n + 64 \<le> length (bview s b)"
proof -
  assume "log_inv s"
  moreover have "unat (n mod 8) < 8" using unat_mono [OF word_mod_less_divisor [of 8 n]] by simp
  ultimately show ?thesis by (simp add: dip_off_def bio_length [OF log_invD(1)])
qed

text \<open>The first \<open>ilock\<close> of a cache entry reads the inode in.\<close>

lemma ilock_reads:
  fixes t :: "'a fsst_scheme"
  assumes "log_inv t" and "fs_geom t" and "bheld t = Map.empty" and "room t 0"
    and "idev (icache t jp) = 1" and "unat (inum (icache t jp)) < unat (sb_ninodes (fsb t))"
    and "1 \<le> iref (icache t jp)" and "\<not> ivalid (icache t jp)" and "\<not> locked (ilk (icache t jp))"
  defines "ib \<equiv> IBLOCK (inum (icache t jp)) (fsb t)"
  defines "i \<equiv> dip_load (dip_off (inum (icache t jp))) (bview t ib)
    ((icache t jp)\<lparr>ilk := \<lparr>locked = True, lk_pid = curpid t\<rparr>\<rparr>)"
  assumes "itype i \<noteq> 0"
  shows "\<exists>u. ilock (Some jp) t = Ret u \<and> log_inv u \<and> icache u = (icache t)(jp := i\<lparr>ivalid := True\<rparr>) \<and>
    bview u = bview t \<and> bdirty u = bdirty t \<and> bheld u = Map.empty"
proof -
  define v where "v = upd_inode jp (\<lambda>i. i\<lparr>ilk := \<lparr>locked = True, lk_pid = curpid t\<rparr>\<rparr>) t"
  have v: "log_inv v" "room v 0" "bheld v = Map.empty" "fsb v = fsb t" using assms by (simp_all add: v_def)
  have lt: "ib < FSSIZE"
    using unat_IBLOCK(2) [OF assms(2,6)] fs_geomD(6) [OF assms(2)] by (simp add: ib_def word_less_nat_alt)
  have h: "ib \<notin> ran (bheld v)" "card (dom (bheld v)) \<le> 1" using v(3) by auto
  obtain bp v1 where 1: "bread 1 ib v = Ret (bp, v1)" "log_inv v1" "data_of bp v1 = bview t ib"
      "log_abs v1 = (log_abs v)\<lparr>jheld := (bheld v)(bp \<mapsto> ib)\<rparr>" "bheld v bp = None"
    using fs_peek [OF v(1) lt h v(2)] by (auto simp: v_def)
  note e = log_absD [OF 1(4), of v, simplified]
  define w where "w = upd_inode jp (dip_load (dip_off (inum (icache t jp))) (bview t ib)) v1"
  have w: "log_inv w" "jheld (log_abs w) bp = Some ib" using 1(2) e by (simp_all add: w_def)
  have "ib \<in> jlog (log_abs w) \<or> jview (log_abs w) ib = jdisk (log_abs w) ib"
    using jn.clean_law [OF v(1), of ib] h(1) e by (auto simp: w_def)
  then obtain u where 2: "brelse bp w = Ret u" "log_inv u"
      "log_abs u = (log_abs w)\<lparr>jheld := (jheld (log_abs w))(bp := None)\<rparr>"
    using jn.brelse_law [OF w] by auto
  note g = log_absD [OF 2(3), of w, simplified]
  have iv: "icache v = (icache t)(jp := (icache t jp)\<lparr>ilk := \<lparr>locked = True, lk_pid = curpid t\<rparr>\<rparr>)"
    by (simp add: v_def)
  have iu: "icache u = (icache t)(jp := i)" using g(11) e iv by (simp add: w_def i_def)
  have "acquiresleep (curpid t) (ilk (icache t jp)) = Ret \<lparr>locked = True, lk_pid = curpid t\<rparr>"
    using assms(9) by (simp add: acquiresleep_def)
  moreover have "upd_inode jp (\<lambda>i. dip_load (dip_off (inum i)) (data_of bp v1) i) v1 = w"
    using e iv 1(3) by (simp add: w_def upd_inode_def)
  ultimately have "ilock (Some jp) t = Ret (upd_inode jp (\<lambda>i. i\<lparr>ivalid := True\<rparr>) u)"
    using assms(5,7,8,12) 1(1) 2(1) iu v(4)
    by (simp add: ilock_def Let_def v_def [symmetric] iv ib_def [symmetric])
  then show ?thesis
    using 2(2) iu g e v(3) 1(5) by (simp add: w_def v_def)
qed

text \<open>
  C22. An inode survives its trip to the disk. After \<open>iupdate\<close>, the first \<open>ilock\<close> of a cache
  entry for the same inode that has not been read in yet finds the type, device numbers, link
  count, size and block addresses that were written; the other inodes of the block are as
  before.
\<close>

theorem iupdate_then_ilock:
  fixes s :: "'a fsst_scheme"
  assumes "fs_ok s ip" and "room s 1" and "unat (inum (icache s ip)) < unat (sb_ninodes (fsb s))"
    and "itype (icache s ip) \<noteq> 0"
    and "idev j = 1" and "inum j = inum (icache s ip)" and "1 \<le> iref j" and "\<not> ivalid j" and "\<not> locked (ilk j)"
  shows "\<exists>t u. iupdate ip s = Ret t \<and> ilock (Some jp) (upd_inode jp (\<lambda>_. j) t) = Ret u \<and>
    icache u jp = (icache s ip)\<lparr>idev := idev j, inum := inum j, iref := iref j,
      ilk := \<lparr>locked = True, lk_pid = curpid s\<rparr>, ivalid := True\<rparr> \<and>
    (\<forall>n. n \<noteq> inum j \<and> IBLOCK n (fsb s) = IBLOCK (inum j) (fsb s) \<longrightarrow>
      dip_load (dip_off n) (bview t (IBLOCK n (fsb s))) = dip_load (dip_off n) (bview s (IBLOCK n (fsb s))))"
proof -
  let ?n = "inum (icache s ip)" and ?ib = "IBLOCK (inum (icache s ip)) (fsb s)" and ?i = "icache s ip"
  note o = fs_okD [OF assms(1)]
  note f = file_okD [OF o(6)]
  have r0: "room s 0" using assms(2) by (simp add: room_def)
  obtain t where 1: "iupdate ip s = Ret t" "log_inv t" "log_abs t = (log_abs s)\<lparr>
      jview := (bview s)(?ib := dip_store (dip_off ?n) ?i (bview s ?ib)), jlog := insert ?ib (bdirty s)\<rparr>"
    using iupdate_spec [OF o(1,2,4,5) r0 f(2) assms(3)] by blast
  note d = log_absD [OF 1(3), of s, simplified]
  let ?t = "upd_inode jp (\<lambda>_. j) t"
  have ld: "dip_load (dip_off (inum j)) (bview t ?ib) i = i\<lparr>itype := itype ?i, major := major ?i, minor := minor ?i,
      inlink := inlink ?i, isize := isize ?i, addrs := addrs ?i\<rparr>" for i
    using dip_load_store [OF dip_off_le [OF o(1), of ?n ?ib] f(1), of i] assms(6) d by simp
  have t: "log_inv ?t" "fs_geom ?t" "bheld ?t = Map.empty" "room ?t 0" "idev (icache ?t jp) = 1"
      "unat (inum (icache ?t jp)) < unat (sb_ninodes (fsb ?t))"
    using 1(2) o(2,5) d assms(2,3,5,6) card_insert_bdirty [of ?ib s] by (simp_all add: fs_geom_def room_def)
  obtain u where "ilock (Some jp) ?t = Ret u" "icache u jp = (dip_load (dip_off (inum j)) (bview t ?ib)
      (j\<lparr>ilk := \<lparr>locked = True, lk_pid = curpid s\<rparr>\<rparr>))\<lparr>ivalid := True\<rparr>"
    using ilock_reads [OF t] assms(4,6-9) ld d by auto
  moreover then have "icache u jp = ?i\<lparr>idev := idev j, inum := inum j, iref := iref j,
      ilk := \<lparr>locked = True, lk_pid = curpid s\<rparr>, ivalid := True\<rparr>"
    by (simp add: ld)
  moreover have "dip_load (dip_off n) (bview t (IBLOCK n (fsb s))) = dip_load (dip_off n) (bview s (IBLOCK n (fsb s)))"
    if "n \<noteq> inum j" "IBLOCK n (fsb s) = IBLOCK (inum j) (fsb s)" for n
  proof (rule ext)
    fix i
    have "n div 8 = ?n div 8" using that(2) assms(6) by (simp add: IBLOCK_def)
    then have "n mod 8 \<noteq> ?n mod 8" using that(1) assms(6) by (metis div_mult_mod_eq)
    then have "unat (n mod 8) \<noteq> unat (?n mod 8)" by (simp only: word_unat_eq_iff not_False_eq_True simp_thms)
    then have "dip_off n + 64 \<le> dip_off ?n \<or> dip_off ?n + 64 \<le> dip_off n" by (auto simp: dip_off_def)
    then show "dip_load (dip_off n) (bview t (IBLOCK n (fsb s))) i = dip_load (dip_off n) (bview s (IBLOCK n (fsb s))) i"
      using dip_load_other [OF dip_off_le [OF o(1)] f(1)] that(2) assms(6) d by simp
  qed
  ultimately show ?thesis using 1(1) by blast
qed

theorem iupdate_then_ilock_witness:
  "\<exists>(s :: fsst) t u. iupdate 0 s = Ret t \<and>
     ilock (Some 1) (upd_inode 1 (\<lambda>_. demo_inode\<lparr>ivalid := False, isize := 0, addrs := []\<rparr>) t) = Ret u \<and>
     isize (icache u 1) = 5 \<and> addrs (icache u 1) = 59 # replicate 12 0"
proof -
  obtain s :: fsst where s: "fs_ok s 0" "room s MAXOPBLOCKS" "icache s = demo_icache" "fsb s = sb_of_bytes demo_sb"
    using demo_file [of "()"] by blast
  let ?j = "demo_inode\<lparr>ivalid := False, isize := 0, addrs := []\<rparr>"
  have i: "room s 1" "icache s 0 = demo_inode" "inum demo_inode = 2" "itype demo_inode = T_FILE" "isize demo_inode = 5"
      "addrs demo_inode = 59 # replicate 12 0" "idev ?j = 1" "inum ?j = 2" "iref ?j = 1" "\<not> ivalid ?j" "\<not> locked (ilk ?j)"
    using s(2,3) by (simp_all add: room_def demo_icache_def demo_inode_def initsleeplock_def)
  show ?thesis
    using iupdate_then_ilock [OF s(1) i(1), of ?j 1] s(4) i(2-6) i(7-11) by (fastforce simp: demo_sb_all)
qed

end
