(* ===== verification/Pipe.thy ===== *)
theory Pipe
  imports Xv6_String
begin

text \<open>
  Pipes (\<^verbatim>\<open>pipe.c\<close>): a ring of 512 bytes indexed by two 32-bit counters that only ever grow
  and wrap around at $2^{32}$. \<open>pipewrite\<close> and \<open>piperead\<close> run under the pipe's lock until they
  return or sleep; a sleeping writer resumes with the bytes it has not stored yet.

  The locale \<open>bounded_fifo\<close> is the contract of a bounded byte queue. The statements of the
  code that store and fetch one byte provide it, and everything proved of the loops goes
  through it.
\<close>

section \<open>Definitions\<close>

abbreviation (input) PIPESIZE :: nat where "PIPESIZE \<equiv> 512"

record pipe =
  pdata :: bytes
  nread :: u32
  nwrite :: u32
  readopen :: bool
  writeopen :: bool

text \<open>The two channels of a pipe: \<open>&p->nread\<close> and \<open>&p->nwrite\<close>.\<close>
datatype pchan = Chan_nread | Chan_nwrite

datatype wresult = WRet int | WSleep bytes
datatype rresult = RRet int bytes | RSleep

text \<open>\<open>p->nwrite == p->nread + PIPESIZE\<close> and \<open>p->nread == p->nwrite\<close>.\<close>

definition pipe_full :: "pipe \<Rightarrow> bool" where
  "pipe_full p \<longleftrightarrow> nwrite p = nread p + of_nat PIPESIZE"

definition pipe_empty :: "pipe \<Rightarrow> bool" where
  "pipe_empty p \<longleftrightarrow> nread p = nwrite p"

text \<open>\<open>p->data[p->nwrite++ % PIPESIZE] = b\<close> and \<open>p->data[p->nread++ % PIPESIZE]\<close>.\<close>

definition pipe_put :: "u8 \<Rightarrow> pipe \<Rightarrow> pipe" where
  "pipe_put b p =
     p\<lparr>pdata := (pdata p)[unat (nwrite p mod of_nat PIPESIZE) := b], nwrite := nwrite p + 1\<rparr>"

definition pipe_get :: "pipe \<Rightarrow> u8 \<times> pipe" where
  "pipe_get p =
     (pdata p ! unat (nread p mod of_nat PIPESIZE), p\<lparr>nread := nread p + 1\<rparr>)"

fun pipewrite_loop :: "bool \<Rightarrow> int \<Rightarrow> bytes \<Rightarrow> pipe \<Rightarrow> wresult \<times> pipe \<times> pchan list" where
  "pipewrite_loop killed n [] p = (WRet n, p, [Chan_nread])"
| "pipewrite_loop killed n (b # bs) p =
     (if pipe_full p then
        if \<not> readopen p \<or> killed then (WRet (- 1), p, [])
        else (WSleep (b # bs), p, [Chan_nread])
      else pipewrite_loop killed n bs (pipe_put b p))"

definition pipewrite :: "bool \<Rightarrow> pipe \<Rightarrow> cptr \<Rightarrow> int \<Rightarrow> wresult \<times> pipe \<times> pchan list" where
  "pipewrite killed p addr n = pipewrite_loop killed n (map addr [0..<nat n]) p"

fun piperead_loop :: "nat \<Rightarrow> bytes \<Rightarrow> pipe \<Rightarrow> bytes \<times> pipe" where
  "piperead_loop 0 got p = (got, p)"
| "piperead_loop (Suc n) got p =
     (if pipe_empty p then (got, p)
      else (case pipe_get p of (b, p) \<Rightarrow> piperead_loop n (got @ [b]) p))"

definition piperead :: "bool \<Rightarrow> pipe \<Rightarrow> int \<Rightarrow> rresult \<times> pipe \<times> pchan list" where
  "piperead killed p n =
     (if pipe_empty p \<and> writeopen p then
        if killed then (RRet (- 1) [], p, []) else (RSleep, p, [])
      else
        (case piperead_loop (nat n) [] p of
           (got, p) \<Rightarrow> (RRet (int (length got)) got, p, [Chan_nwrite])))"

text \<open>The last component says that the page of the pipe is freed.\<close>

definition pipeclose :: "pipe \<Rightarrow> bool \<Rightarrow> pipe \<times> pchan list \<times> bool" where
  "pipeclose p writable =
     (let (p, w) = (if writable then (p\<lparr>writeopen := False\<rparr>, [Chan_nread])
                    else (p\<lparr>readopen := False\<rparr>, [Chan_nwrite]))
      in (p, w, \<not> readopen p \<and> \<not> writeopen p))"

text \<open>The pipe as \<open>pipealloc\<close> initialises it; the contents of \<open>data\<close> are what \<open>kalloc\<close> left.\<close>

definition pipe_init :: "bytes \<Rightarrow> pipe" where
  "pipe_init d = \<lparr>pdata = d, nread = 0, nwrite = 0, readopen = True, writeopen = True\<rparr>"

text \<open>The bytes in the pipe, oldest first, and the ring's invariant.\<close>

definition pipe_len :: "pipe \<Rightarrow> nat" where
  "pipe_len p = unat (nwrite p - nread p)"

definition contents :: "pipe \<Rightarrow> bytes" where
  "contents p = map (\<lambda>i. pdata p ! unat ((nread p + of_nat i) mod of_nat PIPESIZE)) [0..<pipe_len p]"

definition pipe_inv :: "pipe \<Rightarrow> bool" where
  "pipe_inv p \<longleftrightarrow> length (pdata p) = PIPESIZE \<and> pipe_len p \<le> PIPESIZE"

section \<open>Bounded queues\<close>

locale bounded_fifo =
  fixes inv :: "'q \<Rightarrow> bool"
    and list :: "'q \<Rightarrow> u8 list"
    and cap :: nat
    and full :: "'q \<Rightarrow> bool"
    and empty :: "'q \<Rightarrow> bool"
    and put :: "u8 \<Rightarrow> 'q \<Rightarrow> 'q"
    and get :: "'q \<Rightarrow> u8 \<times> 'q"
  assumes list_cap: "inv q \<Longrightarrow> length (list q) \<le> cap"
    and full_iff: "inv q \<Longrightarrow> full q \<longleftrightarrow> length (list q) = cap"
    and empty_iff: "inv q \<Longrightarrow> empty q \<longleftrightarrow> list q = []"
    and put_inv: "inv q \<Longrightarrow> \<not> full q \<Longrightarrow> inv (put b q)"
    and put_list: "inv q \<Longrightarrow> \<not> full q \<Longrightarrow> list (put b q) = list q @ [b]"
    and get_inv: "inv q \<Longrightarrow> \<not> empty q \<Longrightarrow> inv (snd (get q))"
    and get_list: "inv q \<Longrightarrow> \<not> empty q \<Longrightarrow> list q = fst (get q) # list (snd (get q))"
begin

text \<open>Storing as many bytes as there is room for.\<close>

lemma put_all:
  "inv q \<Longrightarrow> length (list q) + length bs \<le> cap \<Longrightarrow>
     inv (fold put bs q) \<and> list (fold put bs q) = list q @ bs"
proof (induction bs arbitrary: q)
  case Nil
  then show ?case by simp
next
  case (Cons b bs)
  then have "\<not> full q" by (simp add: full_iff)
  with Cons show ?case by (simp add: put_inv put_list)
qed

end

section \<open>The ring is a bounded queue\<close>

lemma ring_index:
  "unat ((x + of_nat i) mod 512 :: u32) = (unat x + i) mod 512"
proof -
  have "unat (x + of_nat i) = (unat x + i) mod 2 ^ 32"
    by (simp add: unat_word_ariths unat_of_nat mod_simps)
  then show ?thesis by (simp add: unat_mod mod_mod_cancel)
qed

lemma pipe_full_iff: "pipe_full p \<longleftrightarrow> pipe_len p = 512"
proof -
  have "pipe_full p \<longleftrightarrow> nwrite p - nread p = 512"
    by (auto simp: pipe_full_def algebra_simps)
  also have "\<dots> \<longleftrightarrow> pipe_len p = 512"
    by (simp add: pipe_len_def word_unat_eq_iff)
  finally show ?thesis .
qed

lemma pipe_empty_iff: "pipe_empty p \<longleftrightarrow> pipe_len p = 0"
  by (auto simp: pipe_empty_def pipe_len_def unat_eq_0)

lemma length_contents [simp]: "length (contents p) = pipe_len p"
  by (simp add: contents_def)

lemma nth_contents:
  "i < pipe_len p \<Longrightarrow> contents p ! i = pdata p ! ((unat (nread p) + i) mod 512)"
  by (simp add: contents_def ring_index)

lemma pipe_len_put:
  assumes "pipe_len p < 512"
  shows "pipe_len (pipe_put b p) = Suc (pipe_len p)"
proof -
  have "unat ((nwrite p - nread p) + 1) = unat (nwrite p - nread p) + 1"
    using assms unat_add_u32 [of "nwrite p - nread p" 1] by (simp add: pipe_len_def)
  then show ?thesis by (simp add: pipe_len_def pipe_put_def algebra_simps)
qed

lemma nwrite_index:
  assumes "pipe_len p \<le> 512"
  shows "unat (nwrite p mod 512) = (unat (nread p) + pipe_len p) mod 512"
proof -
  have "nwrite p = nread p + of_nat (pipe_len p)"
    by (simp add: pipe_len_def)
  then show ?thesis using ring_index [of "nread p" "pipe_len p"] by simp
qed

lemma ring_index_inj:
  assumes "i < j" and "j < 512 + i"
  shows "(x + i) mod 512 \<noteq> (x + j) mod (512 :: nat)"
proof
  assume "(x + i) mod 512 = (x + j) mod 512"
  then have "512 dvd (x + j) - (x + i)"
    using assms by (metis add_le_cancel_left less_imp_le mod_eq_dvd_iff_nat)
  with assms show False by (auto dest: dvd_imp_le)
qed

lemma contents_put:
  assumes inv: "pipe_inv p" and room: "pipe_len p < 512"
  shows "contents (pipe_put b p) = contents p @ [b]"
proof (rule nth_equalityI)
  show "length (contents (pipe_put b p)) = length (contents p @ [b])"
    using room by (simp add: pipe_len_put)
next
  fix i
  assume "i < length (contents (pipe_put b p))"
  then have i: "i \<le> pipe_len p"
    using room by (simp add: pipe_len_put)
  let ?j = "(unat (nread p) + pipe_len p) mod 512"
  have d: "pdata (pipe_put b p) = (pdata p)[?j := b]" and r: "nread (pipe_put b p) = nread p"
    using inv by (simp_all add: pipe_put_def nwrite_index pipe_inv_def)
  have at: "contents (pipe_put b p) ! i = (pdata p)[?j := b] ! ((unat (nread p) + i) mod 512)"
    using i room by (simp add: nth_contents pipe_len_put d r)
  show "contents (pipe_put b p) ! i = (contents p @ [b]) ! i"
  proof (cases "i = pipe_len p")
    case True
    with at inv show ?thesis by (simp add: nth_append pipe_inv_def)
  next
    case False
    with i have lt: "i < pipe_len p" by simp
    then have "(unat (nread p) + i) mod 512 \<noteq> ?j"
      using room by (intro ring_index_inj) auto
    with at lt show ?thesis by (simp add: nth_append nth_contents)
  qed
qed

lemma pipe_put_inv: "pipe_inv p \<Longrightarrow> pipe_len p < 512 \<Longrightarrow> pipe_inv (pipe_put b p)"
  by (simp add: pipe_inv_def pipe_len_put) (simp add: pipe_put_def)

lemma pipe_len_get:
  assumes "0 < pipe_len p"
  shows "pipe_len (snd (pipe_get p)) = pipe_len p - 1"
proof -
  have "unat ((nwrite p - nread p) - 1) = unat (nwrite p - nread p) - 1"
    using assms by (intro unat_minus_one) (simp add: pipe_len_def unat_gt_0)
  then show ?thesis by (simp add: pipe_len_def pipe_get_def diff_diff_eq)
qed

lemma contents_get:
  assumes "0 < pipe_len p"
  shows "contents p = fst (pipe_get p) # contents (snd (pipe_get p))"
proof (rule nth_equalityI)
  show "length (contents p) = length (fst (pipe_get p) # contents (snd (pipe_get p)))"
    using assms by (simp add: pipe_len_get)
next
  fix i
  assume i: "i < length (contents p)"
  have z: "unat (nread p mod 512) = unat (nread p) mod 512"
    by (simp add: unat_mod)
  show "contents p ! i = (fst (pipe_get p) # contents (snd (pipe_get p))) ! i"
  proof (cases i)
    case 0
    then show ?thesis using i by (simp add: nth_contents pipe_get_def z)
  next
    case (Suc j)
    have "j < pipe_len (snd (pipe_get p))"
      using i Suc by (simp add: pipe_len_get)
    moreover have "(unat (nread p + 1) + j) mod 512 = (unat (nread p) + Suc j) mod 512"
      using ring_index [of "nread p" "Suc j"] ring_index [of "nread p + 1" j]
      by (simp add: algebra_simps)
    ultimately show ?thesis
      using i Suc by (simp add: nth_contents) (simp add: pipe_get_def)
  qed
qed

lemma pipe_get_inv: "pipe_inv p \<Longrightarrow> 0 < pipe_len p \<Longrightarrow> pipe_inv (snd (pipe_get p))"
  by (auto simp: pipe_inv_def pipe_len_get) (simp add: pipe_get_def)

interpretation ring: bounded_fifo pipe_inv contents 512 pipe_full pipe_empty pipe_put pipe_get
proof unfold_locales
  fix q b
  assume inv: "pipe_inv q"
  then have le: "pipe_len q \<le> 512" by (simp add: pipe_inv_def)
  then show "length (contents q) \<le> 512" by simp
  show "pipe_full q \<longleftrightarrow> length (contents q) = 512" by (simp add: pipe_full_iff)
  show "pipe_empty q \<longleftrightarrow> contents q = []"
    using length_contents [of q] by (auto simp: pipe_empty_iff simp del: length_contents)
  show "pipe_inv (pipe_put b q)" "contents (pipe_put b q) = contents q @ [b]" if "\<not> pipe_full q"
    using inv le that by (simp_all add: pipe_full_iff pipe_put_inv contents_put)
  show "pipe_inv (snd (pipe_get q))"
    "contents q = fst (pipe_get q) # contents (snd (pipe_get q))" if "\<not> pipe_empty q"
    using inv that by (simp_all add: pipe_empty_iff pipe_get_inv contents_get)
qed

section \<open>The loops\<close>

lemma pipe_put_flags [simp]:
  "readopen (fold pipe_put bs p) = readopen p" "writeopen (fold pipe_put bs p) = writeopen p"
  by (induction bs arbitrary: p) (simp_all add: pipe_put_def)

text \<open>The writer stores what fits and either is done, fails or sleeps with the rest.\<close>

lemma pipewrite_loop_eq:
  assumes "pipe_inv p"
  shows "pipewrite_loop killed n bs p =
    (let k = 512 - pipe_len p; q = fold pipe_put (take k bs) p in
     if length bs \<le> k then (WRet n, q, [Chan_nread])
     else if \<not> readopen p \<or> killed then (WRet (- 1), q, [])
     else (WSleep (drop k bs), q, [Chan_nread]))"
  using assms
proof (induction bs arbitrary: p)
  case Nil
  then show ?case by (simp add: Let_def)
next
  case (Cons b bs)
  show ?case
  proof (cases "pipe_full p")
    case True
    then show ?thesis by (simp add: pipe_full_iff Let_def)
  next
    case False
    with Cons.prems have lt: "pipe_len p < 512"
      by (auto simp: pipe_full_iff pipe_inv_def)
    then have k: "512 - pipe_len p = Suc (511 - pipe_len p)"
        "512 - pipe_len (pipe_put b p) = 511 - pipe_len p"
      by (simp_all add: pipe_len_put)
    have "pipe_inv (pipe_put b p)"
      using Cons.prems lt by (rule pipe_put_inv)
    from Cons.IH [OF this] False k show ?thesis
      by (simp add: Let_def pipe_put_flags [of "[b]", simplified])
  qed
qed

lemma piperead_loop_eq:
  assumes "pipe_inv p"
  shows "\<exists>q. piperead_loop n got p = (got @ take n (contents p), q) \<and> pipe_inv q \<and>
     contents q = drop n (contents p) \<and> readopen q = readopen p \<and> writeopen q = writeopen p"
  using assms
proof (induction n arbitrary: got p)
  case 0
  then show ?case by simp
next
  case (Suc n)
  show ?case
  proof (cases "pipe_empty p")
    case True
    with Suc.prems show ?thesis by (simp add: ring.empty_iff)
  next
    case False
    have "pipe_inv (snd (pipe_get p))"
      using Suc.prems False by (rule ring.get_inv)
    from Suc.IH [OF this, of "got @ [fst (pipe_get p)]"] False ring.get_list [OF Suc.prems False]
    show ?thesis
      by (auto simp: case_prod_beta) (simp_all add: pipe_get_def)
  qed
qed

lemma pipewrite_inv:
  assumes "pipe_inv p" and "pipewrite_loop killed n bs p = (r, q, w)"
  shows "pipe_inv q \<and> contents q = contents p @ take (512 - pipe_len p) bs"
proof -
  have "q = fold pipe_put (take (512 - pipe_len p) bs) p"
    using assms pipewrite_loop_eq [OF assms(1), of killed n bs] by (auto simp: Let_def split: if_splits)
  then show ?thesis
    using assms(1) ring.put_all [OF assms(1), of "take (512 - pipe_len p) bs"]
    by (auto simp: pipe_inv_def)
qed

section \<open>Writers and readers interleaved\<close>

text \<open>
  The life of a pipe: any number of writers and readers, each step running under the lock
  from one sleep to the next. Two histories are recorded beside the pipe: all bytes stored by
  writers and all bytes copied out to readers.
\<close>

record pipe_sys =
  the_pipe :: pipe
  written :: bytes
  taken :: bytes

inductive pipe_step :: "pipe_sys \<Rightarrow> pipe_sys \<Rightarrow> bool" where
  step_write:
    "pipewrite_loop killed n bs (the_pipe s) = (r, q, w) \<Longrightarrow>
     pipe_step s (s\<lparr>the_pipe := q,
       written := written s @ take (unat (nwrite q - nwrite (the_pipe s))) bs\<rparr>)"
| step_read:
    "piperead killed (the_pipe s) n = (RRet r got, q, w) \<Longrightarrow>
     pipe_step s (s\<lparr>the_pipe := q, taken := taken s @ got\<rparr>)"
| step_close:
    "pipeclose (the_pipe s) writable = (q, w, fr) \<Longrightarrow>
     pipe_step s (s\<lparr>the_pipe := q\<rparr>)"

inductive pipe_reach :: "bytes \<Rightarrow> pipe_sys \<Rightarrow> bool" for d where
  start: "pipe_reach d \<lparr>the_pipe = pipe_init d, written = [], taken = []\<rparr>"
| step: "pipe_reach d s \<Longrightarrow> pipe_step s t \<Longrightarrow> pipe_reach d t"

definition pipe_sys_inv :: "pipe_sys \<Rightarrow> bool" where
  "pipe_sys_inv s \<longleftrightarrow>
     pipe_inv (the_pipe s) \<and> written s = taken s @ contents (the_pipe s)"

lemma nwrite_fold_put: "nwrite (fold pipe_put bs p) = nwrite p + of_nat (length bs)"
  by (induction bs arbitrary: p) (simp_all add: pipe_put_def)

lemma pipewrite_accepted:
  assumes "pipe_inv p" and "pipewrite_loop killed n bs p = (r, q, w)"
  shows "take (unat (nwrite q - nwrite p)) bs = take (512 - pipe_len p) bs"
proof -
  have "q = fold pipe_put (take (512 - pipe_len p) bs) p"
    using assms pipewrite_loop_eq [OF assms(1), of killed n bs] by (auto simp: Let_def split: if_splits)
  then have "nwrite q - nwrite p = of_nat (min (length bs) (512 - pipe_len p))"
    by (simp add: nwrite_fold_put)
  then show ?thesis
    by (simp add: unat_of_nat_u32 min_def)
qed

lemma pipe_step_inv: "pipe_step s t \<Longrightarrow> pipe_sys_inv s \<Longrightarrow> pipe_sys_inv t"
proof (induction rule: pipe_step.induct)
  case (step_write killed n bs s r q w)
  then show ?case
    using pipewrite_inv [OF _ step_write(1)] pipewrite_accepted [OF _ step_write(1)]
    by (simp add: pipe_sys_inv_def)
next
  case (step_read killed s n r got q w)
  then show ?case
    using piperead_loop_eq [of "the_pipe s" "nat n" "[]"]
    by (auto simp: pipe_sys_inv_def piperead_def split: if_splits prod.splits)
next
  case (step_close s writable q w fr)
  then have "pipe_inv q" "contents q = contents (the_pipe s)" if "pipe_inv (the_pipe s)"
    using that
    by (auto simp: pipeclose_def Let_def pipe_inv_def pipe_len_def contents_def split: if_splits)
  with step_close show ?case by (simp add: pipe_sys_inv_def)
qed

lemma pipe_reach_inv: "pipe_reach d s \<Longrightarrow> length d = 512 \<Longrightarrow> pipe_sys_inv s"
proof (induction rule: pipe_reach.induct)
  case start
  then show ?case by (simp add: pipe_sys_inv_def pipe_init_def pipe_inv_def pipe_len_def contents_def)
next
  case (step s t)
  then show ?case by (blast intro: pipe_step_inv)
qed

section \<open>Properties\<close>

text \<open>
  C8. Bytes leave a pipe in the order they entered it, none lost and none duplicated, however
  writers, readers and closers interleave and however often the 32-bit counters wrap: at any
  time what has been stored is what has been read followed by the at most 512 bytes in
  the ring.
\<close>

theorem pipe_is_fifo:
  assumes "pipe_reach d s" and "length d = PIPESIZE"
  shows "written s = taken s @ contents (the_pipe s) \<and> length (contents (the_pipe s)) \<le> PIPESIZE"
  using pipe_reach_inv [OF assms(1)] assms(2) by (simp add: pipe_sys_inv_def pipe_inv_def)

text \<open>
  \<open>pipewrite\<close> on every branch: the bytes that fit are appended; the call returns \<open>n\<close> when
  all of them did, fails with \<open>-1\<close> when the ring is full and no reader is left or the process
  was killed, and otherwise wakes the readers and sleeps with exactly the bytes that did not
  fit.
\<close>

lemma pipewrite_result:
  assumes "pipe_inv p" and "pipewrite killed p addr n = (r, q, w)"
  shows "pipe_inv q \<and>
    (let bs = map addr [0..<nat n]; room = PIPESIZE - length (contents p) in
       contents q = contents p @ take room bs \<and>
       r = (if length bs \<le> room then WRet n
            else if \<not> readopen p \<or> killed then WRet (- 1)
            else WSleep (drop room bs)))"
  using pipewrite_inv [OF assms(1), of killed n "map addr [0..<nat n]"]
    pipewrite_loop_eq [OF assms(1), of killed n "map addr [0..<nat n]"] assms(2)
  by (auto simp: pipewrite_def Let_def split: if_splits)

text \<open>
  \<open>piperead\<close> on every branch: with bytes in the ring, or no writer left, it returns the
  first \<open>n\<close> of them (or all there are, 0 being end of file) and removes exactly those; with an
  empty ring and a writer it sleeps, or fails when the process was killed.
\<close>

lemma piperead_result:
  assumes "pipe_inv p" and "piperead killed p n = (r, q, w)"
  shows "pipe_inv q \<and>
    (if contents p = [] \<and> writeopen p
     then q = p \<and> r = (if killed then RRet (- 1) [] else RSleep)
     else (let got = take (nat n) (contents p) in
       r = RRet (int (length got)) got \<and> contents p = got @ contents q))"
  using piperead_loop_eq [OF assms(1), of "nat n" "[]"] assms
  by (auto simp: piperead_def ring.empty_iff split: if_splits prod.splits)

text \<open>
  C9. Both transfers on every branch. \<open>pipewrite\<close> appends the bytes that fit and returns \<open>n\<close> when
  all of them did, \<open>-1\<close> when the ring is full and no reader is left or the process was killed, and
  otherwise sleeps with exactly the bytes that did not fit. \<open>piperead\<close> with bytes in the ring, or no
  writer left, removes and returns the first \<open>n\<close> of them, 0 being end of file; with an empty ring
  and a writer it sleeps, or fails when the process was killed.
\<close>

theorem pipe_transfer_results:
  assumes "pipe_inv p"
  shows "(case pipewrite killed p addr n of (r, q, w) \<Rightarrow> pipe_inv q \<and>
      (let bs = map addr [0..<nat n]; room = PIPESIZE - length (contents p) in
         contents q = contents p @ take room bs \<and>
         r = (if length bs \<le> room then WRet n
              else if \<not> readopen p \<or> killed then WRet (- 1)
              else WSleep (drop room bs)))) \<and>
    (case piperead killed p n of (r, q, w) \<Rightarrow> pipe_inv q \<and>
      (if contents p = [] \<and> writeopen p
       then q = p \<and> r = (if killed then RRet (- 1) [] else RSleep)
       else (let got = take (nat n) (contents p) in
         r = RRet (int (length got)) got \<and> contents p = got @ contents q)))"
proof -
  obtain r q w r' q' w' where "pipewrite killed p addr n = (r, q, w)" "piperead killed p n = (r', q', w')"
    by (metis prod_cases3)
  with pipewrite_result [OF assms this(1)] piperead_result [OF assms this(2)] show ?thesis by simp
qed

subsection \<open>Witnesses\<close>

definition sample_pipe :: pipe where
  "sample_pipe = \<lparr>pdata = replicate 512 7, nread = 0xFFFFFFFE, nwrite = 1,
     readopen = True, writeopen = True\<rparr>"

lemma sample_pipe_inv: "pipe_inv sample_pipe"
  by (simp add: sample_pipe_def pipe_inv_def pipe_len_def)

theorem pipe_is_fifo_witness:
  "\<exists>s. pipe_reach (replicate 512 0) s \<and> written s = [5, 6] \<and>
     written s = taken s @ contents (the_pipe s) \<and> length (contents (the_pipe s)) \<le> PIPESIZE"
proof -
  let ?s = "\<lparr>the_pipe = pipe_init (replicate 512 0), written = [], taken = []\<rparr>"
  obtain r q w where run: "pipewrite_loop False 2 [5, 6] (the_pipe ?s) = (r, q, w)"
    by (cases "pipewrite_loop False 2 [5, 6] (the_pipe ?s)")
  then have "unat (nwrite q - nwrite (the_pipe ?s)) = 2"
    by (auto simp: pipe_init_def pipe_full_def pipe_put_def)
  with pipe_step.step_write [OF run] have "pipe_step ?s \<lparr>the_pipe = q, written = [5, 6], taken = []\<rparr>"
    by simp
  then have "pipe_reach (replicate 512 0) \<lparr>the_pipe = q, written = [5, 6], taken = []\<rparr>"
    by (rule pipe_reach.step [OF pipe_reach.start])
  from this pipe_is_fifo [OF this] show ?thesis by (intro exI conjI) auto
qed

lemma contents_sample: "contents sample_pipe = replicate 3 7"
proof -
  have "pipe_len sample_pipe = 3" by (simp add: sample_pipe_def pipe_len_def)
  then show ?thesis by (intro nth_equalityI) (simp_all add: nth_contents sample_pipe_def)
qed

lemma sample_pipe_state: "pipe_len sample_pipe = 3" "readopen sample_pipe"
  by (simp_all add: sample_pipe_def pipe_len_def)

theorem pipe_transfer_results_witness:
  "(case pipewrite False sample_pipe (\<lambda>i. of_nat i) 600 of (r, q, w) \<Rightarrow>
      r = WSleep (drop 509 (map of_nat [0..<600])) \<and> contents q = replicate 3 7 @ take 509 (map of_nat [0..<600])) \<and>
   (case piperead False sample_pipe 2 of (r, q, w) \<Rightarrow> r = RRet 2 [7, 7] \<and> pipe_inv q)"
proof
  show "case pipewrite False sample_pipe (\<lambda>i. of_nat i) 600 of (r, q, w) \<Rightarrow>
      r = WSleep (drop 509 (map of_nat [0..<600])) \<and> contents q = replicate 3 7 @ take 509 (map of_nat [0..<600])"
    using pipe_transfer_results [OF sample_pipe_inv, of "\<lambda>i. of_nat i" 600 False]
    by (simp add: contents_sample sample_pipe_state Let_def split: prod.splits)
  show "case piperead False sample_pipe 2 of (r, q, w) \<Rightarrow> r = RRet 2 [7, 7] \<and> pipe_inv q"
    using pipe_transfer_results [OF sample_pipe_inv, of "\<lambda>i. of_nat i" 2 False]
    by (auto simp: contents_sample sample_pipe_state Let_def numeral_2_eq_2 numeral_3_eq_3 split: prod.splits)
qed

end
