(* ===== verification/File.thy ===== *)
theory File
  imports Fs_Files Pipe Kalloc
begin

text \<open>
  Open files (\<^verbatim>\<open>file.c\<close>, \<open>pipealloc\<close> of \<^verbatim>\<open>pipe.c\<close>): the system-wide table of open files with
  its reference counts, and reading, writing, seeking and closing through it, over the inodes
  below and the pipes beside it.

  The state adds to that of the file system the page allocator, the pipes (each in the page it
  was allocated, by address) and the table. The calls of \<open>wakeup\<close> are collected in \<open>wakeups\<close>
  for the process table. Two things the code takes from elsewhere are arguments: the first
  address after the kernel (\<open>kend\<close>) and the device switch (\<open>devsw\<close>).
\<close>

section \<open>Definitions\<close>

datatype fdtype = FD_NONE | FD_PIPE | FD_INODE

record kfile =
  ftype :: fdtype
  fref :: int
  readable :: bool
  writable :: bool
  fpipe :: u32
  fip :: "nat option"
  foff :: u32

record filest = fsst +
  km :: kmem
  pipes :: "u32 \<Rightarrow> pipe"
  ftable :: "nat \<Rightarrow> kfile"
  wakeups :: "(u32 \<times> pchan) list"

record 's kenv =
  kern_end :: u32
  dev_switch :: "'s devsw"

definition upd_file :: "nat \<Rightarrow> (kfile \<Rightarrow> kfile) \<Rightarrow> 'a filest_scheme \<Rightarrow> 'a filest_scheme" where
  "upd_file f g s = s\<lparr>ftable := (ftable s)(f := g (ftable s f))\<rparr>"

definition upd_pipe :: "u32 \<Rightarrow> pipe \<Rightarrow> pchan list \<Rightarrow> 'a filest_scheme \<Rightarrow> 'a filest_scheme" where
  "upd_pipe a p ws s = s\<lparr>pipes := (pipes s)(a := p), wakeups := wakeups s @ map (Pair a) ws\<rparr>"

definition the_ip :: "nat option \<Rightarrow> nat outcome" where
  "the_ip ipo = (case ipo of Some ip \<Rightarrow> Ret ip | None \<Rightarrow> Fault ''null inode'')"

definition filealloc :: "'a filest_scheme \<Rightarrow> nat option \<times> 'a filest_scheme" where
  "filealloc s =
     (case find (\<lambda>f. fref (ftable s f) = 0) [0..<NFILE] of
        Some f \<Rightarrow> (Some f, upd_file f (\<lambda>x. x\<lparr>fref := 1\<rparr>) s)
      | None \<Rightarrow> (None, s))"

definition filedup :: "nat \<Rightarrow> 'a filest_scheme \<Rightarrow> (nat \<times> 'a filest_scheme) outcome" where
  "filedup f s =
     (if fref (ftable s f) < 1 then Panic ''filedup''
      else Ret (f, upd_file f (\<lambda>x. x\<lparr>fref := fref x + 1\<rparr>) s))"

text \<open>Closing one end of the pipe at address \<open>a\<close>; the page goes when both ends are closed.\<close>

definition pipeclose_at :: "u32 \<Rightarrow> u32 \<Rightarrow> bool \<Rightarrow> 'a filest_scheme \<Rightarrow> 'a filest_scheme outcome" where
  "pipeclose_at kend a w s =
     (case pipeclose (pipes s a) w of (p, ws, free) \<Rightarrow>
        let s = upd_pipe a p ws s in
        if free then and_then (kfree kend a (km s)) (\<lambda>k. Ret (s\<lparr>km := k\<rparr>)) else Ret s)"

definition fileclose :: "u32 \<Rightarrow> nat \<Rightarrow> 'a filest_scheme \<Rightarrow> 'a filest_scheme outcome" where
  "fileclose kend f s =
     (if fref (ftable s f) < 1 then Panic ''fileclose''
      else
        let s = upd_file f (\<lambda>x. x\<lparr>fref := fref x - 1\<rparr>) s in
        if fref (ftable s f) > 0 then Ret s
        else
          let ff = ftable s f;
              s = upd_file f (\<lambda>x. x\<lparr>fref := 0, ftype := FD_NONE\<rparr>) s
          in case ftype ff of
               FD_PIPE \<Rightarrow> pipeclose_at kend (fpipe ff) (writable ff) s
             | FD_INODE \<Rightarrow>
                 and_then (begin_op s) (\<lambda>s.
                 and_then (the_ip (fip ff)) (\<lambda>ip.
                 and_then (iput ip s) end_op))
             | FD_NONE \<Rightarrow> Ret s)"

definition filestat :: "nat \<Rightarrow> 'a filest_scheme \<Rightarrow> (int \<times> stat option \<times> 'a filest_scheme) outcome" where
  "filestat f s =
     (if ftype (ftable s f) = FD_INODE then
        and_then (ilock (fip (ftable s f)) s) (\<lambda>s.
        and_then (the_ip (fip (ftable s f))) (\<lambda>ip.
        let st = stati ip s in
        and_then (iunlock (fip (ftable s f)) s) (\<lambda>s.
        Ret (0, Some st, s))))
      else Ret (- 1, None, s))"

text \<open>\<open>fileread\<close> also returns the bytes it stored at \<open>addr\<close>. A pipe it has to wait for is \<open>Block\<close>.\<close>

definition fileread :: "'a filest_scheme kenv \<Rightarrow> bool \<Rightarrow> nat \<Rightarrow> int \<Rightarrow> 'a filest_scheme \<Rightarrow>
    (int \<times> bytes \<times> 'a filest_scheme) outcome" where
  "fileread e killed f n s =
     (let x = ftable s f in
      if \<not> readable x then Ret (- 1, [], s)
      else case ftype x of
        FD_PIPE \<Rightarrow>
          (case piperead killed (pipes s (fpipe x)) n of
             (RRet r got, p, ws) \<Rightarrow> Ret (r, got, upd_pipe (fpipe x) p ws s)
           | (RSleep, p, ws) \<Rightarrow> Block ''piperead'')
      | FD_INODE \<Rightarrow>
          and_then (ilock (fip x) s) (\<lambda>s.
          and_then (the_ip (fip x)) (\<lambda>ip.
          and_then (readi (dev_switch e) ip (foff x) (of_int n) s) (\<lambda>(r, dst, s).
          let s = (if r > 0 then upd_file f (\<lambda>x. x\<lparr>foff := foff x + of_int r\<rparr>) s else s) in
          and_then (iunlock (fip x) s) (\<lambda>s.
          Ret (r, dst, s)))))
      | FD_NONE \<Rightarrow> Panic ''fileread'')"

text \<open>
  The loop of \<open>filewrite\<close>: \<open>i\<close> bytes are written, \<open>addr\<close> is the whole buffer. It returns the
  value of \<open>i\<close> on leaving the loop.
\<close>

abbreviation (input) FWMAX :: int where "FWMAX \<equiv> 1536"

function filewrite_loop :: "'a filest_scheme kenv \<Rightarrow> nat \<Rightarrow> bytes \<Rightarrow> int \<Rightarrow> int \<Rightarrow> 'a filest_scheme \<Rightarrow>
    (int \<times> 'a filest_scheme) outcome" where
  "filewrite_loop e f addr n i s =
     (if i < n then
        let n1 = min (n - i) FWMAX in
        and_then (begin_op s) (\<lambda>s.
        and_then (ilock (fip (ftable s f)) s) (\<lambda>s.
        and_then (the_ip (fip (ftable s f))) (\<lambda>ip.
        and_then (writei (dev_switch e) ip (drop (nat i) addr) (foff (ftable s f)) (of_int n1) s) (\<lambda>(r, s).
        let s = (if r > 0 then upd_file f (\<lambda>x. x\<lparr>foff := foff x + of_int r\<rparr>) s else s) in
        and_then (iunlock (fip (ftable s f)) s) (\<lambda>s.
        and_then (end_op s) (\<lambda>s.
        if r < 0 then Ret (i, s)
        else if r \<noteq> n1 then Panic ''short filewrite''
        else filewrite_loop e f addr n (i + r) s))))))
      else Ret (i, s))"
  by pat_completeness auto

termination
  by (relation "measure (\<lambda>(e, f, addr, n, i, s). nat (n - i))") (auto simp: min_def split: if_splits)

declare filewrite_loop.simps [simp del]

definition filewrite :: "'a filest_scheme kenv \<Rightarrow> bool \<Rightarrow> nat \<Rightarrow> bytes \<Rightarrow> int \<Rightarrow> 'a filest_scheme \<Rightarrow>
    (int \<times> 'a filest_scheme) outcome" where
  "filewrite e killed f addr n s =
     (let x = ftable s f in
      if \<not> writable x then Ret (- 1, s)
      else case ftype x of
        FD_PIPE \<Rightarrow>
          (case pipewrite killed (pipes s (fpipe x)) (cp addr) n of
             (WRet r, p, ws) \<Rightarrow> Ret (r, upd_pipe (fpipe x) p ws s)
           | (WSleep rest, p, ws) \<Rightarrow> Block ''pipewrite'')
      | FD_INODE \<Rightarrow>
          and_then (filewrite_loop e f addr n 0 s) (\<lambda>(i, s).
          Ret (if i = n then n else - 1, s))
      | FD_NONE \<Rightarrow> Panic ''filewrite'')"

definition filelseek :: "nat \<Rightarrow> u32 \<Rightarrow> int \<Rightarrow> 'a filest_scheme \<Rightarrow> (int \<times> 'a filest_scheme) outcome" where
  "filelseek f offset whence s =
     and_then (the_ip (fip (ftable s f))) (\<lambda>ip.
     let sz = isize (icache s ip) in
     if offset > sz then Ret (- 1, s)
     else if whence = 0 then Ret (0, upd_file f (\<lambda>x. x\<lparr>foff := offset\<rparr>) s)
     else if whence = 1 then Ret (0, upd_file f (\<lambda>x. x\<lparr>foff := foff x + offset\<rparr>) s)
     else if whence = 2 then Ret (0, upd_file f (\<lambda>x. x\<lparr>foff := sz - offset\<rparr>) s)
     else Ret (0, s))"

text \<open>
  \<open>pipealloc\<close>. The result is -1, or 0 with the two files; on the way out through \<open>bad\<close> the page
  has never been allocated, so only the files are given back.
\<close>

definition pipealloc_bad :: "u32 \<Rightarrow> nat option \<Rightarrow> nat option \<Rightarrow> 'a filest_scheme \<Rightarrow>
    (int \<times> nat option \<times> nat option \<times> 'a filest_scheme) outcome" where
  "pipealloc_bad kend f0 f1 s =
     and_then (case f0 of Some f \<Rightarrow> fileclose kend f s | None \<Rightarrow> Ret s) (\<lambda>s.
     and_then (case f1 of Some f \<Rightarrow> fileclose kend f s | None \<Rightarrow> Ret s) (\<lambda>s.
     Ret (- 1, f0, f1, s)))"

definition pipealloc :: "u32 \<Rightarrow> 'a filest_scheme \<Rightarrow>
    (int \<times> nat option \<times> nat option \<times> 'a filest_scheme) outcome" where
  "pipealloc kend s =
     (case filealloc s of
        (None, s) \<Rightarrow> pipealloc_bad kend None None s
      | (Some f0, s) \<Rightarrow>
          (case filealloc s of
             (None, s) \<Rightarrow> pipealloc_bad kend (Some f0) None s
           | (Some f1, s) \<Rightarrow>
               (case kalloc (km s) of
                  (a, k) \<Rightarrow>
                    let s = s\<lparr>km := k\<rparr> in
                    if a = 0 then pipealloc_bad kend (Some f0) (Some f1) s
                    else
                      let s = s\<lparr>pipes := (pipes s)(a := pipe_init (pdata (pipes s a)))\<rparr>;
                          s = upd_file f0 (\<lambda>x. x\<lparr>ftype := FD_PIPE, readable := True, writable := False, fpipe := a\<rparr>) s;
                          s = upd_file f1 (\<lambda>x. x\<lparr>ftype := FD_PIPE, readable := False, writable := True, fpipe := a\<rparr>) s
                      in Ret (0, Some f0, Some f1, s))))"

section \<open>Transactions around file operations\<close>

text \<open>Outside the log area, a commit changes nothing a file can see.\<close>

lemma view_cong:
  fixes s s' :: "'a fsst_scheme"
  assumes g: "fs_geom s" and ok: "file_ok s ip" and ic: "icache s' ip = icache s ip" "fsb s' = fsb s"
    and v: "\<And>b. b \<notin> log_area (lstart s) (lsize s) \<Longrightarrow> bview s' b = bview s b"
  shows "used s' = used s" "file_ok s' ip" "baddr (bview s') (icache s' ip) = baddr (bview s) (icache s ip)"
    "p < MAXFILE * BSIZE \<Longrightarrow> fbyte (bview s') (icache s' ip) p = fbyte (bview s) (icache s ip) p"
proof -
  let ?i = "icache s ip"
  note f = file_okD [OF ok]
  have "sb_bmapstart (fsb s) \<notin> log_area (lstart s) (lsize s)" using fs_geomD(4,5) [OF g] by blast
  then show us: "used s' = used s" using v ic(2) by (intro ext) (simp add: used_def)
  have vb: "bview s' a = bview s a" if "block_ok s a" for a
    using that v fs_geomD(4,5) [OF g] by (auto simp: block_ok_def data_start_def)
  show ba: "baddr (bview s') (icache s' ip) = baddr (bview s) ?i"
    using vb f(5) ic(1) by (intro ext) (auto simp: baddr_def ind_entry_def)
  have bo: "block_ok s' = block_ok s" by (intro ext) (simp add: block_ok_def us ic)
  show "file_ok s' ip" using ok ba ic(1) by (simp add: file_ok_def bo)
  have "fblock (bview s') (icache s' ip) k = fblock (bview s) ?i k" if "k < MAXFILE" for k
    using f(3) [OF that] vb unfolding fblock_def ba by auto
  then show "p < MAXFILE * BSIZE \<Longrightarrow> fbyte (bview s') (icache s' ip) p = fbyte (bview s) ?i p"
    using fbyte_cong by blast
qed

text \<open>
  \<open>ready s ip\<close>: no operation is under way and the log is empty; the inode is in memory,
  unlocked, of a file without holes.
\<close>

definition ready :: "'a fsst_scheme \<Rightarrow> nat \<Rightarrow> bool" where
  "ready s ip \<longleftrightarrow> log_inv s \<and> fs_geom s \<and> meta_used s \<and> outstanding s = 0 \<and> \<not> committing s \<and>
     bheld s = Map.empty \<and> bdirty s = {} \<and> 12 \<le> lsize s \<and> file_ok s ip \<and> no_holes s ip \<and>
     (let i = icache s ip in itype i \<noteq> T_DEV \<and> unat (inum i) < unat (sb_ninodes (fsb s)) \<and>
        ivalid i \<and> \<not> locked (ilk i) \<and> 1 \<le> iref i)"

lemma readyD:
  assumes "ready s ip"
  shows "log_inv s" "fs_geom s" "meta_used s" "outstanding s = 0" "\<not> committing s" "bheld s = Map.empty"
    "bdirty s = {}" "12 \<le> lsize s" "file_ok s ip" "no_holes s ip" "itype (icache s ip) \<noteq> T_DEV"
    "unat (inum (icache s ip)) < unat (sb_ninodes (fsb s))" "ivalid (icache s ip)"
    "\<not> locked (ilk (icache s ip))" "1 \<le> iref (icache s ip)"
  using assms by (simp_all add: ready_def Let_def)

lemma lh_n_clean: "log_inv s \<Longrightarrow> bdirty s = {} \<Longrightarrow> lh_n s = 0"
  using log_invD(4,11) [of s] by simp

lemma begin_op_ready:
  fixes s :: "'a logst_scheme"
  assumes "log_inv s" and "bdirty s = {}" and "outstanding s = 0" and "\<not> committing s"
  shows "begin_op s = Ret (s\<lparr>outstanding := 1\<rparr>)"
  using assms lh_n_clean [OF assms(1,2)] by (simp add: begin_op_def)

lemma cache_outstanding [simp]:
  "bview (s\<lparr>outstanding := k\<rparr>) = bview s" "bdirty (s\<lparr>outstanding := k\<rparr>) = bdirty s"
  "bheld (s\<lparr>outstanding := k\<rparr>) = bheld s" "bio_inv (s\<lparr>outstanding := k\<rparr>) = bio_inv s"
  by (rule bio_inv_cong bview_cong bdirty_cong bheld_cong; simp)+

lemma log_inv_outstanding [simp]: "log_inv (s\<lparr>outstanding := k\<rparr>) = log_inv s"
  by (simp add: log_inv_def)

lemma lock_fields: "(k :: sleeplock)\<lparr>locked := a, lk_pid := b\<rparr> = \<lparr>locked = a, lk_pid = b\<rparr>"
  by (cases k) simp

lemma ilock_valid:
  assumes "ivalid (icache s ip)" and "1 \<le> iref (icache s ip)" and "\<not> locked (ilk (icache s ip))"
  shows "ilock (Some ip) s = Ret (upd_inode ip (\<lambda>i. i\<lparr>ilk := \<lparr>locked = True, lk_pid = curpid s\<rparr>\<rparr>) s)"
  using assms by (simp add: ilock_def acquiresleep_def Let_def lock_fields)

lemma iunlock_held:
  assumes "ilk (icache s ip) = \<lparr>locked = True, lk_pid = curpid s\<rparr>" and "1 \<le> iref (icache s ip)"
  shows "iunlock (Some ip) s = Ret (upd_inode ip (\<lambda>i. i\<lparr>ilk := \<lparr>locked = False, lk_pid = 0\<rparr>\<rparr>) s)"
  using assms by (simp add: iunlock_def holdingsleep_def releasesleep_def upd_inode_def lock_fields)

text \<open>An update of an inode that touches only its lock changes no file.\<close>

lemma lock_update [simp]:
  "baddr v (i\<lparr>ilk := k\<rparr>) = baddr v i" "fblock v (i\<lparr>ilk := k\<rparr>) = fblock v i" "fbyte v (i\<lparr>ilk := k\<rparr>) = fbyte v i"
proof -
  show b: "baddr v (i\<lparr>ilk := k\<rparr>) = baddr v i" by (intro ext) (simp add: baddr_def ind_entry_def)
  show f: "fblock v (i\<lparr>ilk := k\<rparr>) = fblock v i" by (intro ext) (simp add: fblock_def b)
  show "fbyte v (i\<lparr>ilk := k\<rparr>) = fbyte v i" by (intro ext) (simp add: fbyte_def f)
qed

lemma file_ok_lock: "file_ok (upd_inode ip (\<lambda>i. i\<lparr>ilk := k\<rparr>) s) ip = file_ok s ip"
  by (simp add: file_ok_def block_ok_def Let_def)

lemma no_holes_lock: "no_holes (upd_inode ip (\<lambda>i. i\<lparr>ilk := k\<rparr>) s) ip = no_holes s ip"
  by (simp add: no_holes_def)

lemma filest_of_more:
  fixes s s' :: "'a filest_scheme"
  assumes "fsst.more s' = fsst.more s"
  shows "ftable s' = ftable s" "pipes s' = pipes s" "km s' = km s" "wakeups s' = wakeups s"
    "filest.more s' = filest.more s"
  using assms by (cases s; cases s'; simp)+

lemma upd_file_cache [simp]:
  "bview (upd_file f g s) = bview s" "bdirty (upd_file f g s) = bdirty s"
  "bheld (upd_file f g s) = bheld s" "bio_inv (upd_file f g s) = bio_inv s"
  unfolding upd_file_def by (rule bio_inv_cong bview_cong bdirty_cong bheld_cong; simp)+

lemma upd_file_fields [simp]:
  "platter (upd_file f g s) = platter s" "lstart (upd_file f g s) = lstart s"
  "lsize (upd_file f g s) = lsize s" "outstanding (upd_file f g s) = outstanding s"
  "committing (upd_file f g s) = committing s" "fsb (upd_file f g s) = fsb s"
  "icache (upd_file f g s) = icache s" "curpid (upd_file f g s) = curpid s"
  "ftable (upd_file f g s) = (ftable s)(f := g (ftable s f))"
  "pipes (upd_file f g s) = pipes s" "km (upd_file f g s) = km s" "wakeups (upd_file f g s) = wakeups s"
  by (simp_all add: upd_file_def)

lemma upd_inode_files [simp]:
  "ftable (upd_inode ip h s) = ftable s" "pipes (upd_inode ip h s) = pipes s" "km (upd_inode ip h s) = km s"
  by (simp_all add: upd_inode_def)

lemma upd_file_inv [simp]:
  "log_inv (upd_file f g s) = log_inv s" "fs_geom (upd_file f g s) = fs_geom s" "used (upd_file f g s) = used s"
  "meta_used (upd_file f g s) = meta_used s" "block_ok (upd_file f g s) = block_ok s"
  "file_ok (upd_file f g s) ip = file_ok s ip" "no_holes (upd_file f g s) ip = no_holes s ip"
  "free_blocks (upd_file f g s) = free_blocks s"
proof -
  show l: "log_inv (upd_file f g s) = log_inv s" by (simp add: log_inv_def) (simp add: upd_file_def)
  show u: "used (upd_file f g s) = used s" by (intro ext) (simp add: used_def)
  show b: "block_ok (upd_file f g s) = block_ok s" by (intro ext) (simp add: block_ok_def u)
  show "fs_geom (upd_file f g s) = fs_geom s" "meta_used (upd_file f g s) = meta_used s"
    "file_ok (upd_file f g s) ip = file_ok s ip" "no_holes (upd_file f g s) ip = no_holes s ip"
    "free_blocks (upd_file f g s) = free_blocks s"
    by (simp_all add: fs_geom_def meta_used_def file_ok_def no_holes_def free_blocks_def u b)
qed

lemma free_blocks_lock [simp]: "free_blocks (upd_inode ip h s) = free_blocks s"
  by (simp add: free_blocks_def)

text \<open>The end of an operation on one file: everything is on disk, and the file is unchanged.\<close>

lemma end_op_ready:
  fixes s :: "'a fsst_scheme"
  assumes ok: "fs_ok s ip" and nh: "no_holes s ip" and out: "outstanding s = 1" "\<not> committing s" and sz: "12 \<le> lsize s"
    and i: "itype (icache s ip) \<noteq> T_DEV" "unat (inum (icache s ip)) < unat (sb_ninodes (fsb s))"
      "ivalid (icache s ip)" "\<not> locked (ilk (icache s ip))" "1 \<le> iref (icache s ip)"
  shows "\<exists>t. end_op s = Ret t \<and> ready t ip \<and> icache t = icache s \<and> fsb t = fsb s \<and> curpid t = curpid s \<and>
    lsize t = lsize s \<and> fsst.more t = fsst.more s \<and> free_blocks t = free_blocks s \<and> bview t = platter t 1 \<and>
    (\<forall>p < MAXFILE * BSIZE. fbyte (bview t) (icache t ip) p = fbyte (bview s) (icache s ip) p)"
proof -
  note o = fs_okD [OF ok]
  obtain t where t: "end_op s = Ret t" "log_inv t" "lh_n t = 0" "outstanding t = 0" "\<not> committing t"
      "\<forall>b. b \<notin> log_area (lstart s) (lsize s) \<longrightarrow> platter t 1 b = bview s b \<and> bview t b = bview s b"
      "bheld t = Map.empty" "lstart t = lstart s" "lsize t = lsize s" "curpid t = curpid s"
      "logst.more t = logst.more s"
    using end_op_commits [OF o(1,5) out(2,1)] by blast
  note m = fsst_of_more [OF t(11)]
  have d: "bdirty t = {}" using log_invD(7) [OF t(2)] t(3) by simp
  have vc: "\<And>b. b \<notin> log_area (lstart s) (lsize s) \<Longrightarrow> bview t b = bview s b" using t(6) by blast
  note c = view_cong [where s = s and s' = t, OF o(2,6) _ m(1) vc, unfolded m(2), OF refl]
  have "fs_geom t" "meta_used t" using o(2,3) t(8,9) m c(1) by (simp_all add: fs_geom_def meta_used_def)
  moreover have "no_holes t ip" using nh c(3) m(2) by (simp add: no_holes_def)
  ultimately have "ready t ip" using t d c(2) m sz i by (simp add: ready_def)
  moreover have "free_blocks t = free_blocks s" using c(1) m(1) by (simp add: free_blocks_def)
  moreover have "bview t b = platter t 1 b" for b
    using log_view_clean [OF t(2,7)] t(3) by simp
  ultimately show ?thesis using t(1,9,10) m c(4) by (intro exI [of _ t]) auto
qed

section \<open>Writing and reading through an open file\<close>

text \<open>One turn of the loop of \<open>filewrite\<close>: a transaction that stores up to three blocks' worth.\<close>

lemma filewrite_step:
  fixes s :: "'a filest_scheme"
  assumes rd: "ready s ip" and x: "fip (ftable s f) = Some ip" and off: "foff (ftable s f) = off" "off \<le> isize (icache s ip)"
    and i: "0 \<le> i" "i < n" and k: "k = nat (min (n - i) FWMAX)" and len: "nat n \<le> length addr"
    and mx: "unat off + k \<le> MAXFILE * BSIZE" and free: "8 \<le> card (free_blocks s)"
  shows "\<exists>t. filewrite_loop e f addr n i s = filewrite_loop e f addr n (i + int k) t \<and> ready t ip \<and>
    ftable t = (ftable s)(f := (ftable s f)\<lparr>foff := off + of_nat k\<rparr>) \<and> bview t = platter t 1 \<and>
    unat (isize (icache t ip)) = max (unat (isize (icache s ip))) (unat off + k) \<and>
    (\<forall>p < MAXFILE * BSIZE. fbyte (bview t) (icache t ip) p =
      (if unat off \<le> p \<and> p < unat off + k then addr ! (nat i + (p - unat off)) else fbyte (bview s) (icache s ip) p)) \<and>
    card (free_blocks s) \<le> card (free_blocks t) + 8"
proof -
  note r = readyD [OF rd]
  let ?l = "\<lparr>locked = True, lk_pid = curpid s\<rparr>" and ?n = "of_nat k :: u32" and ?src = "drop (nat i) addr"
  have k0: "0 < k" "k \<le> 3 * BSIZE" "int k = min (n - i) FWMAX" "k \<le> length ?src" using i k len by auto
  have un: "unat ?n = k" using k0(2) by (intro unat_of_nat_u32) simp
  define s2 where "s2 = upd_inode ip (\<lambda>i. i\<lparr>ilk := ?l\<rparr>) (s\<lparr>outstanding := 1\<rparr>)"
  have i2: "icache s2 ip = (icache s ip)\<lparr>ilk := ?l\<rparr>" by (simp add: s2_def)
  have out: "used (s\<lparr>outstanding := 1\<rparr>) = used s" by (intro ext) (simp add: used_def)
  have fo: "file_ok (s\<lparr>outstanding := 1\<rparr>) ip" using r(9) by (simp add: file_ok_def block_ok_def out)
  have nh0: "no_holes (s\<lparr>outstanding := 1\<rparr>) ip" using r(10) by (simp add: no_holes_def)
  have ok2: "fs_ok s2 ip"
    using r(1-3,6) fo by (simp add: s2_def fs_ok_def file_ok_lock fs_geom_def meta_used_def out)
  have nh2: "no_holes s2 ip" unfolding s2_def no_holes_lock by (rule nh0)
  have rm: "room s2 MAXOPBLOCKS" using r(7,8) by (simp add: s2_def room_def)
  have fb2: "free_blocks s2 = free_blocks s" by (simp add: s2_def free_blocks_def out)
  have a2: "itype (icache s2 ip) \<noteq> T_DEV" "unat (inum (icache s2 ip)) < unat (sb_ninodes (fsb s2))"
      "off \<le> isize (icache s2 ip)" "unat off + unat ?n \<le> MAXFILE * BSIZE" "unat ?n \<le> 3 * BSIZE" "unat ?n \<le> length ?src"
      "8 \<le> card (free_blocks s2)"
    using r(11,12) off(2) mx un k0(2,4) free i2 fb2 by (simp_all add: s2_def)
  obtain s3 as z where 3: "writei (dev_switch e) ip ?src off ?n s2 = Ret (int k, s3)" "fs_ok s3 ip" "no_holes s3 ip"
      "unat (isize (icache s3 ip)) = max (unat (isize (icache s2 ip))) (unat off + k)"
      "\<forall>p < MAXFILE * BSIZE. fbyte (bview s3) (icache s3 ip) p = (if unat off \<le> p \<and> p < unat off + k
        then ?src ! (p - unat off) else fbyte (bview s2) (icache s2 ip) p)"
      "icache s3 ip = (icache s2 ip)\<lparr>addrs := as, isize := z\<rparr>"
      "card (free_blocks s2) \<le> card (free_blocks s3) + 8" "same_frame s2 s3"
    using writei_spec [OF ok2 nh2 a2(1-6) rm a2(7), of "dev_switch e"] unfolding un by blast
  note fr = 3(8) [unfolded same_frame_def]
  have ft: "ftable s3 = ftable s" using filest_of_more(1) [of s3 s2] fr by (simp add: s2_def)
  define s4 where "s4 = upd_inode ip (\<lambda>i. i\<lparr>ilk := \<lparr>locked = False, lk_pid = 0\<rparr>\<rparr>)
    (upd_file f (\<lambda>x. x\<lparr>foff := foff x + ?n\<rparr>) s3)"
  have i4: "icache s4 ip = (icache s ip)\<lparr>ilk := \<lparr>locked = False, lk_pid = 0\<rparr>, addrs := as, isize := z\<rparr>"
    using 3(6) i2 by (simp add: s4_def)
  have ok4: "fs_ok s4 ip" using 3(2) by (simp add: s4_def fs_ok_def file_ok_lock)
  have nh4: "no_holes s4 ip" using 3(3) by (simp add: s4_def no_holes_lock)
  have fr4: "outstanding s4 = 1" "\<not> committing s4" "12 \<le> lsize s4" "curpid s4 = curpid s"
      "unat (inum (icache s4 ip)) < unat (sb_ninodes (fsb s4))"
      "ftable s4 = (ftable s)(f := (ftable s f)\<lparr>foff := off + ?n\<rparr>)"
    using fr r(5,8,12) ft off(1) by (simp_all add: i4) (simp_all add: s4_def s2_def)
  have fields4: "itype (icache s4 ip) \<noteq> T_DEV" "ivalid (icache s4 ip)" "\<not> locked (ilk (icache s4 ip))" "1 \<le> iref (icache s4 ip)"
    using r(11,13,15) by (simp_all add: i4)
  obtain t where 5: "end_op s4 = Ret t" "ready t ip" "icache t = icache s4" "fsst.more t = fsst.more s4"
      "free_blocks t = free_blocks s4" "bview t = platter t 1"
      "\<forall>p < MAXFILE * BSIZE. fbyte (bview t) (icache t ip) p = fbyte (bview s4) (icache s4 ip) p"
    using end_op_ready [OF ok4 nh4 fr4(1-3) fields4(1) fr4(5) fields4(2-4)] by blast
  have v4: "fbyte (bview s4) (icache s4 ip) p = fbyte (bview s3) (icache s3 ip) p" for p by (simp add: s4_def)
  have v2: "fbyte (bview s2) (icache s2 ip) p = fbyte (bview s) (icache s ip) p" for p by (simp add: s2_def)
  have "begin_op s = Ret (s\<lparr>outstanding := 1\<rparr>)" using begin_op_ready [OF r(1,7,4,5)] .
  moreover have "ilock (Some ip) (s\<lparr>outstanding := 1\<rparr>) = Ret s2"
    using ilock_valid [of "s\<lparr>outstanding := 1\<rparr>" ip] r(13-15) by (simp add: s2_def)
  moreover have "iunlock (Some ip) (upd_file f (\<lambda>x. x\<lparr>foff := foff x + ?n\<rparr>) s3) = Ret s4"
    using iunlock_held [of "upd_file f (\<lambda>x. x\<lparr>foff := foff x + ?n\<rparr>) s3" ip] 3(6) i2 fr r(15) by (simp add: s4_def s2_def)
  ultimately have "filewrite_loop e f addr n i s = filewrite_loop e f addr n (i + int k) t"
    using i(2) x off(1) k0(1,3) 3(1) 5(1) ft
    by (subst filewrite_loop.simps) (simp add: Let_def the_ip_def k0(3) [symmetric] s2_def)
  moreover have "ftable t = ftable s4" using filest_of_more(1) [OF 5(4)] .
  moreover have "\<forall>p < MAXFILE * BSIZE. fbyte (bview t) (icache t ip) p = (if unat off \<le> p \<and> p < unat off + k
      then addr ! (nat i + (p - unat off)) else fbyte (bview s) (icache s ip) p)"
  proof -
    have "?src ! q = addr ! (nat i + q)" for q using i len by (intro nth_drop) simp
    then show ?thesis using 5(7) 3(5) v4 v2 by simp
  qed
  moreover have "unat (isize (icache t ip)) = max (unat (isize (icache s ip))) (unat off + k)"
    using 5(3) 3(4,6) i4 i2 by simp
  moreover have "card (free_blocks s) \<le> card (free_blocks t) + 8" using 5(5) 3(7) fb2 by (simp add: s4_def)
  ultimately show ?thesis using 5(2,6) fr4(6) by (intro exI [of _ t] conjI) simp_all
qed

text \<open>How many transactions \<open>filewrite\<close> needs for \<open>n\<close> bytes.\<close>

definition ntxn :: "nat \<Rightarrow> nat" where
  "ntxn n = (n + 1535) div 1536"

lemma ntxn_step: "0 < m \<Longrightarrow> ntxn m = Suc (ntxn (m - min m 1536))"
proof (cases "m \<le> 1536")
  case True
  then show ?thesis if "0 < m" using that by (simp add: ntxn_def)
next
  case False
  then have "m + 1535 = (m - 1536 + 1535) + 1536" by simp
  then show ?thesis using False by (simp add: ntxn_def)
qed

lemma filewrite_loop_spec:
  fixes s :: "'a filest_scheme"
  assumes "ready s ip" and "fip (ftable s f) = Some ip" and "foff (ftable s f) = off" and "off \<le> isize (icache s ip)"
    and "0 \<le> i" and "i \<le> n" and "nat n \<le> length addr"
    and "unat off + nat (n - i) \<le> MAXFILE * BSIZE" and "8 * ntxn (nat (n - i)) \<le> card (free_blocks s)"
    and "i = n \<longrightarrow> bview s = platter s 1"
  shows "\<exists>t. filewrite_loop e f addr n i s = Ret (n, t) \<and> ready t ip \<and>
    ftable t = (ftable s)(f := (ftable s f)\<lparr>foff := off + of_int (n - i)\<rparr>) \<and> bview t = platter t 1 \<and>
    unat (isize (icache t ip)) = max (unat (isize (icache s ip))) (unat off + nat (n - i)) \<and>
    (\<forall>p < MAXFILE * BSIZE. fbyte (bview t) (icache t ip) p = (if unat off \<le> p \<and> p < unat off + nat (n - i)
      then addr ! (nat i + (p - unat off)) else fbyte (bview s) (icache s ip) p))"
  using assms
proof (induction "nat (n - i)" arbitrary: i s off rule: less_induct)
  case less
  show ?case
  proof (cases "i < n")
    case False
    have "(ftable s f)\<lparr>foff := off\<rparr> = ftable s f" using less.prems(3) by simp
    then show ?thesis
      using False less.prems by (auto simp: filewrite_loop.simps word_le_nat_alt max_absorb1)
  next
    case True
    define k where "k = nat (min (n - i) FWMAX)"
    have k: "0 < k" "int k \<le> n - i" "k = min (nat (n - i)) 1536" "nat (n - (i + int k)) = nat (n - i) - k"
      using True by (auto simp: k_def min_def nat_diff_distrib')
    have mx: "unat off + k \<le> MAXFILE * BSIZE" using less.prems(8) k(2) by simp
    have nt: "ntxn (nat (n - i)) = Suc (ntxn (nat (n - i) - k))" using ntxn_step [of "nat (n - i)"] True k(3) by simp
    have uo: "unat (off + of_nat k) = unat off + k"
    proof -
      have "unat (of_nat k :: u32) = k" using mx by (intro unat_of_nat_u32) simp
      then show ?thesis using mx unat_add_lem [of off "of_nat k"] by simp
    qed
    obtain t where t: "filewrite_loop e f addr n i s = filewrite_loop e f addr n (i + int k) t" "ready t ip"
        "ftable t = (ftable s)(f := (ftable s f)\<lparr>foff := off + of_nat k\<rparr>)" "bview t = platter t 1"
        "unat (isize (icache t ip)) = max (unat (isize (icache s ip))) (unat off + k)"
        "\<forall>p < MAXFILE * BSIZE. fbyte (bview t) (icache t ip) p = (if unat off \<le> p \<and> p < unat off + k
          then addr ! (nat i + (p - unat off)) else fbyte (bview s) (icache s ip) p)"
        "card (free_blocks s) \<le> card (free_blocks t) + 8"
      using filewrite_step [OF less.prems(1-5) True k_def less.prems(7) mx, of e] less.prems(9) nt by auto
    have dec: "nat (n - (i + int k)) < nat (n - i)" using k True by simp
    have m: "nat (n - (i + int k)) + k = nat (n - i)" using k(2) less.prems(5) by simp
    have pr: "fip (ftable t f) = Some ip" "foff (ftable t f) = off + of_nat k" using less.prems(2) t(3) by simp_all
    have pr2: "off + of_nat k \<le> isize (icache t ip)" unfolding word_le_nat_alt uo t(5) by simp
    have pr3: "0 \<le> i + int k" "i + int k \<le> n" using less.prems(5) k(2) by simp_all
    have pr4: "unat (off + of_nat k) + nat (n - (i + int k)) \<le> MAXFILE * BSIZE"
      unfolding uo using less.prems(8) m by simp
    have pr5: "8 * ntxn (nat (n - (i + int k))) \<le> card (free_blocks t)"
      using less.prems(9) t(7) nt unfolding k(4) by simp
    have im: "i + int k = n \<longrightarrow> bview t = platter t 1" using t(4) by simp
    obtain u where u: "filewrite_loop e f addr n (i + int k) t = Ret (n, u)" "ready u ip"
        "ftable u = (ftable t)(f := (ftable t f)\<lparr>foff := off + of_nat k + of_int (n - (i + int k))\<rparr>)"
        "bview u = platter u 1"
        "unat (isize (icache u ip)) = max (unat (isize (icache t ip))) (unat off + k + nat (n - (i + int k)))"
        "\<forall>p < MAXFILE * BSIZE. fbyte (bview u) (icache u ip) p =
          (if unat off + k \<le> p \<and> p < unat off + k + nat (n - (i + int k))
           then addr ! (nat (i + int k) + (p - (unat off + k))) else fbyte (bview t) (icache t ip) p)"
      using less.hyps [OF dec t(2) pr pr2 pr3 less.prems(7) pr4 pr5 im] unfolding uo by blast
    have e: "unat off + k + nat (n - (i + int k)) = unat off + nat (n - i)" using m by simp
    have "fbyte (bview u) (icache u ip) p = (if unat off \<le> p \<and> p < unat off + nat (n - i)
      then addr ! (nat i + (p - unat off)) else fbyte (bview s) (icache s ip) p)" if "p < MAXFILE * BSIZE" for p
    proof -
      have "nat (i + int k) + (p - (unat off + k)) = nat i + (p - unat off)" if "unat off + k \<le> p"
        using that less.prems(5) by (simp add: nat_add_distrib)
      then show ?thesis using u(6) t(6) that e k(2) by auto
    qed
    moreover have "unat (isize (icache u ip)) = max (unat (isize (icache s ip))) (unat off + nat (n - i))"
      using u(5) t(5) m unfolding e max_def by auto
    moreover have "ftable u = (ftable s)(f := (ftable s f)\<lparr>foff := off + of_int (n - i)\<rparr>)"
      using u(3) t(3) by (simp add: algebra_simps)
    ultimately show ?thesis using t(1) u(1,2,4) by auto
  qed
qed

text \<open>Reading through an open file.\<close>

lemma fileread_spec:
  fixes s :: "'a filest_scheme"
  assumes rd: "ready s ip" and x: "fip (ftable s f) = Some ip" "ftype (ftable s f) = FD_INODE" "readable (ftable s f)"
    and off: "foff (ftable s f) = off" "off \<le> isize (icache s ip)" and n: "0 \<le> n" "unat off + nat n < 2 ^ 31"
  defines "k \<equiv> min (nat n) (unat (isize (icache s ip)) - unat off)"
  shows "\<exists>t. fileread e killed f n s = Ret (int k, map (fbyte (bview s) (icache s ip)) [unat off..<unat off + k], t) \<and>
    ftable t = (ftable s)(f := (ftable s f)\<lparr>foff := off + of_nat k\<rparr>) \<and> bview t = bview s \<and>
    icache t = (icache s)(ip := (icache s ip)\<lparr>ilk := \<lparr>locked = False, lk_pid = 0\<rparr>\<rparr>)"
proof -
  note r = readyD [OF rd]
  let ?l = "\<lparr>locked = True, lk_pid = curpid s\<rparr>"
  define s1 where "s1 = upd_inode ip (\<lambda>i. i\<lparr>ilk := ?l\<rparr>) s"
  have un: "unat (of_int n :: u32) = nat n"
    using n unat_of_nat_u32 [of "nat n"] by simp
  have "fs_rd s1 ip" using r(1,2,6-9) by (simp add: s1_def fs_rd_def file_ok_lock room_def)
  moreover have "no_holes s1 ip" using r(10) by (simp add: s1_def no_holes_lock)
  moreover have "itype (icache s1 ip) \<noteq> T_DEV" "off \<le> isize (icache s1 ip)" "unat off + unat (of_int n :: u32) < 2 ^ 32"
    using r(11) off(2) n(2) by (simp_all add: s1_def un)
  ultimately obtain s2 where 2: "readi (dev_switch e) ip off (of_int n) s1 =
      Ret (int k, map (fbyte (bview s1) (icache s1 ip)) [unat off..<unat off + k], s2)" "log_abs s2 = log_abs s1"
    using readi_spec [of s1 ip off "of_int n" "dev_switch e"] by (auto simp: un k_def s1_def)
  note d = log_absD [OF 2(2) refl, simplified]
  have ft: "ftable s2 = ftable s" using filest_of_more(1) [of s2 s1] d by (simp add: s1_def)
  define s3 where "s3 = (if int k > 0 then upd_file f (\<lambda>x. x\<lparr>foff := foff x + of_int (int k)\<rparr>) s2 else s2)"
  have s3: "icache s3 = icache s1" "ftable s3 = (ftable s)(f := (ftable s f)\<lparr>foff := off + of_nat k\<rparr>)"
      "bview s3 = bview s" "curpid s3 = curpid s"
    using d ft off(1) by (auto simp: s3_def s1_def)
  have "ilock (Some ip) s = Ret s1" using ilock_valid [of s ip] r(13-15) by (simp add: s1_def)
  moreover have "iunlock (Some ip) s3 = Ret (upd_inode ip (\<lambda>i. i\<lparr>ilk := \<lparr>locked = False, lk_pid = 0\<rparr>\<rparr>) s3)"
    using iunlock_held [of s3 ip] s3 r(15) by (simp add: s1_def)
  ultimately have "fileread e killed f n s = Ret (int k, map (fbyte (bview s) (icache s ip)) [unat off..<unat off + k],
      upd_inode ip (\<lambda>i. i\<lparr>ilk := \<lparr>locked = False, lk_pid = 0\<rparr>\<rparr>) s3)"
    using x off(1) 2(1) by (cases "k = 0") (simp_all add: fileread_def the_ip_def Let_def s3_def s1_def)
  then show ?thesis using s3 by (simp add: s1_def)
qed

section \<open>Properties\<close>

text \<open>
  C23. A program that writes a file, seeks back and reads gets its data, and the data is on disk
  when the write returns. For an open inode, \<open>filewrite\<close> of any length splits into transactions
  that each fit the log, returns the length, and leaves the bytes in the file and on the disk
  itself; \<open>filelseek\<close> back to the old offset and \<open>fileread\<close> return them.
\<close>

theorem filewrite_lseek_fileread:
  fixes s :: "'a filest_scheme"
  assumes "ready s ip" and "fip (ftable s f) = Some ip" and "ftype (ftable s f) = FD_INODE"
    and "readable (ftable s f)" and "writable (ftable s f)" and "foff (ftable s f) \<le> isize (icache s ip)"
    and "addr \<noteq> []" and "unat (foff (ftable s f)) + length addr \<le> MAXFILE * BSIZE"
    and "8 * ntxn (length addr) \<le> card (free_blocks s)"
  shows "\<exists>t u v. filewrite e killed f addr (int (length addr)) s = Ret (int (length addr), t) \<and>
    (\<forall>p < length addr. fbyte (platter t 1) (icache t ip) (unat (foff (ftable s f)) + p) = addr ! p) \<and>
    filelseek f (foff (ftable s f)) 0 t = Ret (0, u) \<and>
    fileread e killed f (int (length addr)) u = Ret (int (length addr), addr, v)"
proof -
  let ?off = "foff (ftable s f)" and ?n = "int (length addr)"
  obtain t where t: "filewrite_loop e f addr ?n 0 s = Ret (?n, t)" "ready t ip"
      "ftable t = (ftable s)(f := (ftable s f)\<lparr>foff := ?off + of_int ?n\<rparr>)" "bview t = platter t 1"
      "unat (isize (icache t ip)) = max (unat (isize (icache s ip))) (unat ?off + length addr)"
      "\<forall>p < MAXFILE * BSIZE. fbyte (bview t) (icache t ip) p = (if unat ?off \<le> p \<and> p < unat ?off + length addr
        then addr ! (p - unat ?off) else fbyte (bview s) (icache s ip) p)"
    using filewrite_loop_spec [OF assms(1,2) refl assms(6), of 0 ?n addr e] assms(7-9) by auto
  have w: "filewrite e killed f addr ?n s = Ret (?n, t)" using t(1) assms(3,5) by (simp add: filewrite_def)
  define u where "u = upd_file f (\<lambda>x. x\<lparr>foff := ?off\<rparr>) t"
  have le: "?off \<le> isize (icache t ip)" using t(5) by (simp add: word_le_nat_alt)
  then have l: "filelseek f ?off 0 t = Ret (0, u)"
    using t(3) assms(2) by (simp add: filelseek_def the_ip_def u_def Let_def not_less)
  have ru: "ready u ip" using t(2) by (simp add: u_def ready_def)
  have k: "min (nat ?n) (unat (isize (icache u ip)) - unat ?off) = length addr" using t(5) by (simp add: u_def)
  have byt: "fbyte (bview u) (icache u ip) (unat ?off + p) = addr ! p" if "p < length addr" for p
    using t(6) that assms(8) by (simp add: u_def)
  have "map (fbyte (bview u) (icache u ip)) [unat ?off..<unat ?off + length addr] = addr"
    using byt by (intro nth_equalityI) simp_all
  then obtain v where "fileread e killed f ?n u = Ret (?n, addr, v)"
    using fileread_spec [OF ru, of f ?off ?n e killed] k t(3) le assms(2-4,8) by (auto simp: u_def)
  then show ?thesis using w l byt t(4) by (auto simp: u_def)
qed

text \<open>An open file on inode 0 of the disk of \<open>demo_file\<close>.\<close>

definition demo_open :: "nat \<Rightarrow> kfile" where
  "demo_open f = \<lparr>ftype = FD_INODE, fref = 1, readable = True, writable = True, fpipe = 0,
     fip = (if f = 0 then Some 0 else None), foff = 2\<rparr>"

definition demo_env :: "filest kenv" where
  "demo_env = \<lparr>kern_end = KERNLINK, dev_switch = (\<lambda>k. \<lparr>dev_read = None, dev_write = None\<rparr>)\<rparr>"

lemma demo_ready: "\<exists>s :: filest. ready s 0 \<and> ftable s = demo_open \<and> icache s = demo_icache \<and> 24 \<le> card (free_blocks s)"
proof -
  obtain s0 :: filest where s0: "ftable s0 = demo_open"
    by (metis filest.select_convs(3))
  obtain s :: filest where s: "fs_ok s 0" "no_holes s 0" "icache s = demo_icache" "24 \<le> card (free_blocks s)"
      "fsb s = sb_of_bytes demo_sb" "bdirty s = {}" "\<not> committing s" "lsize s = 30" "fsst.more s = fsst.more s0"
    using demo_file [of "fsst.more s0"] by blast
  let ?s = "s\<lparr>outstanding := 0\<rparr>"
  note o = fs_okD [OF s(1)]
  have u: "used ?s = used s" by (intro ext) (simp add: used_def)
  have "fs_geom ?s" "meta_used ?s" "file_ok ?s 0" "no_holes ?s 0" "free_blocks ?s = free_blocks s"
    using o(2,3,6) s(2) by (simp_all add: fs_geom_def meta_used_def file_ok_def block_ok_def no_holes_def u free_blocks_def)
  moreover have "ftable ?s = demo_open" using filest_of_more(1) [OF s(9)] s0 by simp
  ultimately show ?thesis using o(1,5) s(3-8)
    by (intro exI [of _ ?s]) (simp add: ready_def demo_sb_all demo_icache_def demo_inode_def initsleeplock_def)
qed

theorem filewrite_lseek_fileread_witness:
  "\<exists>(s :: filest) t u v. filewrite demo_env False 0 (replicate 2000 7) 2000 s = Ret (2000, t) \<and>
     fbyte (platter t 1) (icache t 0) 1999 = 7 \<and> filelseek 0 2 0 t = Ret (0, u) \<and>
     fileread demo_env False 0 2000 u = Ret (2000, replicate 2000 7, v)"
proof -
  obtain s :: filest where s: "ready s 0" "ftable s = demo_open" "icache s = demo_icache" "24 \<le> card (free_blocks s)"
    using demo_ready by blast
  have x: "fip (ftable s 0) = Some 0" "ftype (ftable s 0) = FD_INODE" "readable (ftable s 0)" "writable (ftable s 0)"
      "foff (ftable s 0) = 2" "isize (icache s 0) = 5"
    using s(2,3) by (simp_all add: demo_open_def demo_icache_def demo_inode_def)
  have n: "8 * ntxn (length (replicate 2000 (7 :: u8))) \<le> card (free_blocks s)" using s(4) by (simp add: ntxn_def)
  obtain t u v where t: "filewrite demo_env False 0 (replicate 2000 7) (int (length (replicate 2000 (7 :: u8)))) s =
        Ret (int (length (replicate 2000 (7 :: u8))), t)"
      "\<forall>p < length (replicate 2000 (7 :: u8)). fbyte (platter t 1) (icache t 0) (unat (foff (ftable s 0)) + p) = replicate 2000 7 ! p"
      "filelseek 0 (foff (ftable s 0)) 0 t = Ret (0, u)"
      "fileread demo_env False 0 (int (length (replicate 2000 (7 :: u8)))) u =
        Ret (int (length (replicate 2000 (7 :: u8))), replicate 2000 7, v)"
    using filewrite_lseek_fileread [OF s(1) x(1-4), of "replicate 2000 7" demo_env False] x(5,6) n by fastforce
  have "fbyte (platter t 1) (icache t 0) 1999 = 7" using t(2) [rule_format, of 1997] x(5) by simp
  then show ?thesis using t(1,3,4) x(5) by (intro exI [of _ s] exI [of _ t] exI [of _ u] exI [of _ v]) simp
qed

text \<open>The position \<open>filelseek\<close> is to set, from the old one.\<close>

definition seek_position :: "int \<Rightarrow> u32 \<Rightarrow> u32 \<Rightarrow> u32 \<Rightarrow> u32" where
  "seek_position whence sz offset old =
     (if whence = 0 then offset else if whence = 1 then old + offset else if whence = 2 then sz - offset else old)"

lemma filelseek_position:
  assumes "fip (ftable s f) = Some ip" and "offset \<le> isize (icache s ip)"
  shows "filelseek f offset whence s =
    Ret (0, upd_file f (\<lambda>x. x\<lparr>foff := seek_position whence (isize (icache s ip)) offset (foff x)\<rparr>) s)"
proof -
  have "upd_file f (\<lambda>x. x\<lparr>foff := foff x\<rparr>) s = s" by (simp add: upd_file_def)
  then show ?thesis using assms by (simp add: filelseek_def the_ip_def Let_def seek_position_def)
qed

lemma filelseek_refuses:
  "fip (ftable s f) = Some ip \<Longrightarrow> isize (icache s ip) < offset \<Longrightarrow> filelseek f offset whence s = Ret (-1, s)"
  by (simp add: filelseek_def the_ip_def)

lemma ready_seek: "ready (upd_file f g s) ip = ready s ip"
  by (simp add: ready_def)

lemma fileread_past_end:
  fixes s :: "'a filest_scheme"
  assumes "ready s ip" and "fip (ftable s f) = Some ip" "ftype (ftable s f) = FD_INODE" "readable (ftable s f)"
    and "isize (icache s ip) < foff (ftable s f)"
  shows "\<exists>u. fileread e killed f n s = Ret (-1, [], u)"
proof -
  let ?u = "upd_inode ip (\<lambda>i. i\<lparr>ilk := \<lparr>locked = True, lk_pid = curpid s\<rparr>\<rparr>) s"
  note r = readyD [OF assms(1)]
  have "ilock (Some ip) s = Ret ?u" using ilock_valid [of s ip] r(13-15) by simp
  moreover have "readi (dev_switch e) ip (foff (ftable s f)) (of_int n) ?u = Ret (-1, [], ?u)"
    using assms(5) r(11) by (simp add: readi_def Let_def)
  moreover have "\<exists>v. iunlock (Some ip) ?u = Ret v" using iunlock_held [of ?u ip] r(15) by simp
  ultimately show ?thesis using assms(2-4) by (auto simp: fileread_def the_ip_def Let_def)
qed

text \<open>
  C24. \<open>filelseek\<close> on every branch, and the read that follows. It refuses an offset beyond the size of
  the file, whatever \<open>whence\<close> is; otherwise it returns 0 and sets the position: the offset, the old
  position plus the offset, the size minus the offset, or for an unknown \<open>whence\<close> the old position.
  A read then returns the bytes from that position on, cut off at the end of the file, when the
  position is inside the file. The sum that \<open>SEEK_CUR\<close> forms is not checked, so it can be beyond the
  end, and then every read fails. On a file with no inode, a pipe's for instance, \<open>filelseek\<close>
  follows a null pointer.
\<close>

theorem filelseek_results:
  fixes s :: "'a filest_scheme"
  shows "(fip (ftable s f) = None \<longrightarrow> filelseek f offset whence s = Fault ''null inode'') \<and>
    (\<forall>ip. fip (ftable s f) = Some ip \<longrightarrow>
      (let sz = isize (icache s ip); pos = seek_position whence sz offset (foff (ftable s f));
           t = upd_file f (\<lambda>x. x\<lparr>foff := pos\<rparr>) s in
       filelseek f offset whence s = (if offset > sz then Ret (-1, s) else Ret (0, t)) \<and>
       (offset \<le> sz \<and> whence \<in> {0, 2} \<longrightarrow> pos \<le> sz) \<and>
       (ready s ip \<and> ftype (ftable s f) = FD_INODE \<and> readable (ftable s f) \<longrightarrow>
         (pos > sz \<longrightarrow> (\<exists>u. fileread e killed f n t = Ret (-1, [], u))) \<and>
         (pos \<le> sz \<and> 0 \<le> n \<and> unat pos + nat n < 2 ^ 31 \<longrightarrow>
           (let k = min (nat n) (unat sz - unat pos) in
            \<exists>u. fileread e killed f n t =
              Ret (int k, map (fbyte (bview s) (icache s ip)) [unat pos..<unat pos + k], u))))))"
proof (intro conjI allI impI)
  show "filelseek f offset whence s = Fault ''null inode''" if "fip (ftable s f) = None"
    using that by (simp add: filelseek_def the_ip_def)
  fix ip assume ip: "fip (ftable s f) = Some ip"
  define sz where "sz = isize (icache s ip)"
  define pos where "pos = seek_position whence sz offset (foff (ftable s f))"
  define t where "t = upd_file f (\<lambda>x. x\<lparr>foff := pos\<rparr>) s"
  have seek: "filelseek f offset whence s = (if offset > sz then Ret (-1, s) else Ret (0, t))"
    using ip filelseek_position [OF ip, of offset whence]
    by (simp add: filelseek_refuses t_def pos_def sz_def upd_file_def)
  have inside: "pos \<le> sz" if "offset \<le> sz" "whence \<in> {0, 2}"
    using that by (auto simp: pos_def seek_position_def word_sub_le)
  have t: "fip (ftable t f) = Some ip" "ftype (ftable t f) = ftype (ftable s f)" "foff (ftable t f) = pos"
      "readable (ftable t f) = readable (ftable s f)" "icache t = icache s" "bview t = bview s"
    using ip by (simp_all add: t_def)
  have rt: "ready t ip" if "ready s ip" using that by (simp add: t_def ready_seek)
  have past: "\<exists>u. fileread e killed f n t = Ret (-1, [], u)"
    if "ready s ip" "ftype (ftable s f) = FD_INODE" "readable (ftable s f)" "pos > sz"
    using fileread_past_end [OF rt [OF that(1)], of f e killed n] that t by (simp add: sz_def)
  have bytes: "\<exists>u. fileread e killed f n t =
      Ret (int (min (nat n) (unat sz - unat pos)),
        map (fbyte (bview s) (icache s ip)) [unat pos..<unat pos + min (nat n) (unat sz - unat pos)], u)"
    if "ready s ip" "ftype (ftable s f) = FD_INODE" "readable (ftable s f)" "pos \<le> sz" "0 \<le> n" "unat pos + nat n < 2 ^ 31"
    using fileread_spec [OF rt [OF that(1)] t(1) _ _ t(3) _ that(5,6), of e killed] that t by (auto simp: sz_def)
  show "let sz = isize (icache s ip); pos = seek_position whence sz offset (foff (ftable s f));
           t = upd_file f (\<lambda>x. x\<lparr>foff := pos\<rparr>) s in
       filelseek f offset whence s = (if offset > sz then Ret (-1, s) else Ret (0, t)) \<and>
       (offset \<le> sz \<and> whence \<in> {0, 2} \<longrightarrow> pos \<le> sz) \<and>
       (ready s ip \<and> ftype (ftable s f) = FD_INODE \<and> readable (ftable s f) \<longrightarrow>
         (pos > sz \<longrightarrow> (\<exists>u. fileread e killed f n t = Ret (-1, [], u))) \<and>
         (pos \<le> sz \<and> 0 \<le> n \<and> unat pos + nat n < 2 ^ 31 \<longrightarrow>
           (let k = min (nat n) (unat sz - unat pos) in
            \<exists>u. fileread e killed f n t =
              Ret (int k, map (fbyte (bview s) (icache s ip)) [unat pos..<unat pos + k], u))))"
    unfolding sz_def [symmetric] Let_def pos_def [symmetric] t_def [symmetric]
    using seek inside past bytes by simp
qed

theorem filelseek_results_witness:
  "\<exists>(s :: filest) t u v. isize (icache s 0) = 5 \<and> foff (ftable s 0) = 2 \<and>
     filelseek 1 0 0 s = Fault ''null inode'' \<and> filelseek 0 6 1 s = Ret (-1, s) \<and>
     filelseek 0 4 1 s = Ret (0, t) \<and> fileread demo_env False 0 1 t = Ret (-1, [], u) \<and>
     filelseek 0 2 1 s = Ret (0, upd_file 0 (\<lambda>x. x\<lparr>foff := 4\<rparr>) s) \<and>
     fileread demo_env False 0 7 (upd_file 0 (\<lambda>x. x\<lparr>foff := 4\<rparr>) s) = Ret (1, [fbyte (bview s) (icache s 0) 4], v)"
proof -
  obtain s :: filest where s: "ready s 0" "ftable s = demo_open" "icache s = demo_icache"
    using demo_ready by blast
  have x: "fip (ftable s 0) = Some 0" "ftype (ftable s 0) = FD_INODE" "readable (ftable s 0)"
      "foff (ftable s 0) = 2" "isize (icache s 0) = 5" "fip (ftable s 1) = None"
    using s(2,3) by (simp_all add: demo_open_def demo_icache_def demo_inode_def)
  note res = filelseek_results [where s = s and e = demo_env and killed = False]
  have "\<exists>t u. filelseek 0 4 1 s = Ret (0, t) \<and> fileread demo_env False 0 1 t = Ret (-1, [], u)"
    using res [where f = 0 and offset = 4 and whence = 1 and n = 1] x s(1) by (simp add: Let_def seek_position_def)
  moreover have "filelseek 1 0 0 s = Fault ''null inode''" using res [where f = 1 and offset = 0 and whence = 0] x(6) by blast
  moreover have "filelseek 0 6 1 s = Ret (-1, s)"
    using res [where f = 0 and offset = 6 and whence = 1] x(1,5) by (simp add: Let_def)
  moreover have "filelseek 0 2 1 s = Ret (0, upd_file 0 (\<lambda>x. x\<lparr>foff := 4\<rparr>) s)"
      "\<exists>v. fileread demo_env False 0 7 (upd_file 0 (\<lambda>x. x\<lparr>foff := 4\<rparr>) s) = Ret (1, [fbyte (bview s) (icache s 0) 4], v)"
    using res [where f = 0 and offset = 2 and whence = 1 and n = 7] x s(1) by (simp_all add: Let_def seek_position_def)
  ultimately show ?thesis using x(4,5) by blast
qed

end
