(* ===== verification/Spinlock.thy ===== *)
theory Spinlock
  imports Xv6_Prelude
begin

text \<open>
  Spin locks and the nesting of disabled interrupts (\<^verbatim>\<open>spinlock.c\<close>, \<open>cpuid\<close>, \<open>mycpu\<close> and \<open>myproc\<close>
  of \<^verbatim>\<open>proc.c\<close>). The functions are first modelled as one CPU runs them alone: a lock that is
  taken makes \<open>acquire\<close> spin for ever, the outcome \<open>Hang\<close>. Then any number of CPUs run
  \<open>acquire\<close> and \<open>release\<close> on one lock together, one memory access at a time, and mutual
  exclusion is proved of that. The other theories use this result: they model the part of a
  function between \<open>acquire\<close> and \<open>release\<close> as one step and leave the two calls out.
\<close>

section \<open>Definitions\<close>

abbreviation (input) NCPU :: nat where "NCPU \<equiv> 8"

text \<open>The fields of \<open>struct cpu\<close> the code below uses, with the interrupt flag of the CPU.\<close>

record kcpu =
  apicid :: u8
  ncli :: int
  intena :: bool
  cpu_proc :: "nat option"
  eflags_if :: bool

record spinlock =
  slocked :: u32
  scpu :: "nat option"
  spcs :: "u32 list"

definition initlock :: "spinlock \<Rightarrow> spinlock" where
  "initlock lk = lk\<lparr>slocked := 0, scpu := None\<rparr>"

definition mycpu :: "kcpu list \<Rightarrow> u8 \<Rightarrow> bool \<Rightarrow> nat outcome" where
  "mycpu cpus apic iflag =
     (if iflag then Panic ''mycpu called with interrupts enabled''
      else case find (\<lambda>i. apicid (cpus ! i) = apic) [0..<length cpus] of
        Some i \<Rightarrow> Ret i
      | None \<Rightarrow> Panic ''unknown apicid'')"

definition cpuid :: "kcpu list \<Rightarrow> u8 \<Rightarrow> bool \<Rightarrow> nat outcome" where
  "cpuid cpus apic iflag = mycpu cpus apic iflag"

definition pushcli :: "kcpu \<Rightarrow> kcpu" where
  "pushcli c =
     (let eflags = eflags_if c;
          c = c\<lparr>eflags_if := False\<rparr>;
          c = (if ncli c = 0 then c\<lparr>intena := eflags\<rparr> else c)
      in c\<lparr>ncli := ncli c + 1\<rparr>)"

definition popcli :: "kcpu \<Rightarrow> kcpu outcome" where
  "popcli c =
     (if eflags_if c then Panic ''popcli - interruptible''
      else
        let c = c\<lparr>ncli := ncli c - 1\<rparr> in
        if ncli c < 0 then Panic ''popcli''
        else if ncli c = 0 \<and> intena c then Ret (c\<lparr>eflags_if := True\<rparr>)
        else Ret c)"

definition myproc :: "kcpu \<Rightarrow> (nat option \<times> kcpu) outcome" where
  "myproc c = (let c = pushcli c; p = cpu_proc c in and_then (popcli c) (\<lambda>c. Ret (p, c)))"

definition holding :: "nat \<Rightarrow> spinlock \<Rightarrow> kcpu \<Rightarrow> (bool \<times> kcpu) outcome" where
  "holding me lk c =
     (let c = pushcli c; r = (slocked lk \<noteq> 0 \<and> scpu lk = Some me)
      in and_then (popcli c) (\<lambda>c. Ret (r, c)))"

text \<open>Following the chain of saved frame pointers, which are words in memory.\<close>

primrec getcallerpcs_loop :: "nat \<Rightarrow> mem \<Rightarrow> u32 \<Rightarrow> u32 list" where
  "getcallerpcs_loop 0 m ebp = []"
| "getcallerpcs_loop (Suc k) m ebp =
     (if ebp = 0 \<or> ebp < KERNBASE \<or> ebp = 0xffffffff then replicate (Suc k) 0
      else load32 m (ebp + 4) # getcallerpcs_loop k m (load32 m ebp))"

definition getcallerpcs :: "mem \<Rightarrow> u32 \<Rightarrow> u32 list" where
  "getcallerpcs m v = getcallerpcs_loop 10 m (v - 8)"

text \<open>The atomic exchange, and the two halves of \<open>acquire\<close> and \<open>release\<close> around it.\<close>

definition xchg_locked :: "spinlock \<Rightarrow> u32 \<times> spinlock" where
  "xchg_locked lk = (slocked lk, lk\<lparr>slocked := 1\<rparr>)"

definition acquire_check :: "nat \<Rightarrow> spinlock \<Rightarrow> kcpu \<Rightarrow> kcpu outcome" where
  "acquire_check me lk c =
     (let c = pushcli c in
      and_then (holding me lk c) (\<lambda>(r, c).
      if r then Panic ''acquire'' else Ret c))"

definition acquire :: "nat \<Rightarrow> u32 list \<Rightarrow> spinlock \<Rightarrow> kcpu \<Rightarrow> (spinlock \<times> kcpu) outcome" where
  "acquire me pcs lk c =
     and_then (acquire_check me lk c) (\<lambda>c.
     case xchg_locked lk of (old, lk) \<Rightarrow>
       if old \<noteq> 0 then Hang else Ret (lk\<lparr>scpu := Some me, spcs := pcs\<rparr>, c))"

definition release_check :: "nat \<Rightarrow> spinlock \<Rightarrow> kcpu \<Rightarrow> kcpu outcome" where
  "release_check me lk c =
     and_then (holding me lk c) (\<lambda>(r, c). if \<not> r then Panic ''release'' else Ret c)"

definition release_clear :: "spinlock \<Rightarrow> spinlock" where
  "release_clear lk = lk\<lparr>spcs := (spcs lk)[0 := 0], scpu := None\<rparr>"

definition release :: "nat \<Rightarrow> spinlock \<Rightarrow> kcpu \<Rightarrow> (spinlock \<times> kcpu) outcome" where
  "release me lk c =
     and_then (release_check me lk c) (\<lambda>c.
     let lk = (release_clear lk)\<lparr>slocked := 0\<rparr> in
     and_then (popcli c) (\<lambda>c. Ret (lk, c)))"

section \<open>Nesting\<close>

text \<open>Interrupts are off inside, and whether they come on at the end is what they were before.\<close>

definition cli_inv :: "kcpu \<Rightarrow> bool" where
  "cli_inv c \<longleftrightarrow> 0 \<le> ncli c \<and> (0 < ncli c \<longrightarrow> \<not> eflags_if c)"

lemma pushcli_fields:
  "ncli (pushcli c) = ncli c + 1" "\<not> eflags_if (pushcli c)" "cpu_proc (pushcli c) = cpu_proc c"
  "intena (pushcli c) = (if ncli c = 0 then eflags_if c else intena c)"
  by (simp_all add: pushcli_def Let_def)

lemma pushcli_inv: "cli_inv c \<Longrightarrow> cli_inv (pushcli c)"
  by (simp add: cli_inv_def pushcli_fields)

lemma push_pop:
  assumes "cli_inv c"
  shows "\<exists>c'. popcli (pushcli c) = Ret c' \<and> cli_inv c' \<and> ncli c' = ncli c \<and> eflags_if c' = eflags_if c \<and>
    (0 < ncli c \<longrightarrow> c' = c)"
  using assms by (auto simp: popcli_def pushcli_def Let_def cli_inv_def)

lemma push_pop_inside: "cli_inv c \<Longrightarrow> 0 < ncli c \<Longrightarrow> popcli (pushcli c) = Ret c"
  using push_pop by fastforce

lemma holding_inside:
  "cli_inv c \<Longrightarrow> 0 < ncli c \<Longrightarrow> holding me lk c = Ret (slocked lk \<noteq> 0 \<and> scpu lk = Some me, c)"
  by (simp add: holding_def Let_def push_pop_inside)

lemma acquire_check_eq:
  assumes "cli_inv c"
  shows "acquire_check me lk c =
    (if slocked lk \<noteq> 0 \<and> scpu lk = Some me then Panic ''acquire'' else Ret (pushcli c))"
  using assms holding_inside [OF pushcli_inv [OF assms]]
  by (auto simp: acquire_check_def Let_def pushcli_fields cli_inv_def)

lemma release_check_eq:
  assumes "cli_inv c" and "0 < ncli c"
  shows "release_check me lk c = (if slocked lk \<noteq> 0 \<and> scpu lk = Some me then Ret c else Panic ''release'')"
  using holding_inside [OF assms] by (simp add: release_check_def)

section \<open>Several CPUs and one lock\<close>

text \<open>
  Where a CPU is: before \<open>acquire\<close>, in its loop, after the exchange that took the lock, in the
  critical section, and in \<open>release\<close> after the owner is cleared. A panic stops the machine.
\<close>

datatype lockpc = Outside | Spinning | Entered | Inside | Leaving

record lockst =
  lk :: spinlock
  pc :: "nat \<Rightarrow> lockpc"
  cpu :: "nat \<Rightarrow> kcpu"
  panicked :: bool

inductive lock_step :: "lockst \<Rightarrow> lockst \<Rightarrow> bool" where
  start: "pc s c = Outside \<Longrightarrow> acquire_check c (lk s) (cpu s c) = Ret k \<Longrightarrow>
    lock_step s (s\<lparr>pc := (pc s)(c := Spinning), cpu := (cpu s)(c := k)\<rparr>)"
| start_panic: "pc s c = Outside \<Longrightarrow> acquire_check c (lk s) (cpu s c) = Panic m \<Longrightarrow>
    lock_step s (s\<lparr>panicked := True\<rparr>)"
| spin: "pc s c = Spinning \<Longrightarrow> xchg_locked (lk s) = (old, l) \<Longrightarrow>
    lock_step s (s\<lparr>lk := l, pc := (pc s)(c := if old \<noteq> 0 then Spinning else Entered)\<rparr>)"
| enter: "pc s c = Entered \<Longrightarrow>
    lock_step s (s\<lparr>lk := (lk s)\<lparr>scpu := Some c, spcs := pcs\<rparr>, pc := (pc s)(c := Inside)\<rparr>)"
| leave: "pc s c = Inside \<Longrightarrow> release_check c (lk s) (cpu s c) = Ret k \<Longrightarrow>
    lock_step s (s\<lparr>lk := release_clear (lk s), pc := (pc s)(c := Leaving), cpu := (cpu s)(c := k)\<rparr>)"
| leave_panic: "pc s c = Inside \<Longrightarrow> release_check c (lk s) (cpu s c) = Panic m \<Longrightarrow>
    lock_step s (s\<lparr>panicked := True\<rparr>)"
| unlock: "pc s c = Leaving \<Longrightarrow> popcli (cpu s c) = Ret k \<Longrightarrow>
    lock_step s (s\<lparr>lk := (lk s)\<lparr>slocked := 0\<rparr>, pc := (pc s)(c := Outside), cpu := (cpu s)(c := k)\<rparr>)"
| unlock_panic: "pc s c = Leaving \<Longrightarrow> popcli (cpu s c) = Panic m \<Longrightarrow>
    lock_step s (s\<lparr>panicked := True\<rparr>)"

definition lock_start :: "lockst \<Rightarrow> bool" where
  "lock_start s \<longleftrightarrow> slocked (lk s) = 0 \<and> scpu (lk s) = None \<and> (\<forall>c. pc s c = Outside \<and> cli_inv (cpu s c)) \<and>
     \<not> panicked s"

abbreviation owns :: "lockpc \<Rightarrow> bool" where
  "owns p \<equiv> p = Entered \<or> p = Inside \<or> p = Leaving"

definition cpu_ok :: "lockpc \<Rightarrow> kcpu \<Rightarrow> bool" where
  "cpu_ok p k \<longleftrightarrow> cli_inv k \<and> (p \<noteq> Outside \<longrightarrow> 0 < ncli k)"

text \<open>The invariant, with the CPU that owns the lock, if any, as a parameter.\<close>

definition lock_inv :: "nat option \<Rightarrow> lockst \<Rightarrow> bool" where
  "lock_inv own s \<longleftrightarrow>
     (\<forall>c. owns (pc s c) \<longleftrightarrow> own = Some c) \<and>
     (slocked (lk s) = 0 \<longleftrightarrow> own = None) \<and>
     (\<forall>c. scpu (lk s) = Some c \<longleftrightarrow> pc s c = Inside) \<and>
     (\<forall>c. cpu_ok (pc s c) (cpu s c)) \<and> \<not> panicked s"

lemma lock_invD:
  assumes "lock_inv own s"
  shows "owns (pc s c) \<longleftrightarrow> own = Some c" "slocked (lk s) = 0 \<longleftrightarrow> own = None"
    "scpu (lk s) = Some c \<longleftrightarrow> pc s c = Inside" "cli_inv (cpu s c)" "pc s c \<noteq> Outside \<Longrightarrow> 0 < ncli (cpu s c)"
    "\<not> panicked s"
  using assms by (simp_all add: lock_inv_def cpu_ok_def)

lemma lock_start_inv: "lock_start s \<Longrightarrow> lock_inv None s"
  by (simp add: lock_start_def lock_inv_def cpu_ok_def)

lemma popcli_inside:
  assumes "cli_inv c" and "0 < ncli c"
  shows "\<exists>k. popcli c = Ret k \<and> cli_inv k"
  using assms by (auto simp: popcli_def Let_def cli_inv_def)

text \<open>No step of a state that satisfies the invariant panics.\<close>

lemma lock_no_panic:
  assumes i: "lock_inv own s"
  shows "pc s c = Outside \<Longrightarrow> acquire_check c (lk s) (cpu s c) = Ret (pushcli (cpu s c))"
    "pc s c = Inside \<Longrightarrow> release_check c (lk s) (cpu s c) = Ret (cpu s c)"
    "pc s c = Leaving \<Longrightarrow> \<exists>k. popcli (cpu s c) = Ret k \<and> cli_inv k"
proof -
  note I = lock_invD [OF i]
  show "acquire_check c (lk s) (cpu s c) = Ret (pushcli (cpu s c))" if "pc s c = Outside"
    using that I(3) [of c] acquire_check_eq [OF I(4)] by simp
  show "release_check c (lk s) (cpu s c) = Ret (cpu s c)" if "pc s c = Inside"
    using that I(1,3) [of c] I(2) release_check_eq [OF I(4,5)] by simp
  show "\<exists>k. popcli (cpu s c) = Ret k \<and> cli_inv k" if "pc s c = Leaving"
    using that popcli_inside [OF I(4,5)] by simp
qed

lemma lock_step_inv:
  assumes i: "lock_inv own s" and st: "lock_step s s'"
  shows "\<exists>own'. lock_inv own' s'"
  using st
proof cases
  case (start c k)
  then have k: "k = pushcli (cpu s c)" using lock_no_panic(1) [OF i, of c] by simp
  then have "cpu_ok Spinning k" using pushcli_inv lock_invD(4) [OF i, of c] by (auto simp: cpu_ok_def pushcli_fields cli_inv_def)
  moreover have "own \<noteq> Some c" using lock_invD(1) [OF i, of c] start by simp
  ultimately have "lock_inv own s'" using i start by (simp add: lock_inv_def)
  then show ?thesis ..
next
  case (spin c old l)
  have c: "own \<noteq> Some c" "cpu_ok Entered (cpu s c)" using lock_invD(1,4,5) [OF i, of c] spin by (auto simp: cpu_ok_def)
  show ?thesis
  proof (cases "old = 0")
    case True
    then have "own = None" using spin lock_invD(2) [OF i] by (simp add: xchg_locked_def)
    then have "lock_inv (Some c) s'" using True i spin c by (auto simp: lock_inv_def xchg_locked_def)
    then show ?thesis ..
  next
    case False
    then have "lock_inv own s'" using i spin c by (auto simp: lock_inv_def xchg_locked_def cpu_ok_def)
    then show ?thesis ..
  qed
next
  case (enter c pcs)
  have "own = Some c" using lock_invD(1) [OF i, of c] enter by simp
  moreover have "cpu_ok Inside (cpu s c)" using lock_invD(4,5) [OF i, of c] enter by (simp add: cpu_ok_def)
  moreover have "pc s d \<noteq> Inside" for d using lock_invD(1) [OF i] calculation(1) enter by force
  ultimately have "lock_inv own s'" using i enter by (auto simp: lock_inv_def)
  then show ?thesis ..
next
  case (leave c k)
  then have "k = cpu s c" "own = Some c" "cpu_ok Leaving k"
    using lock_no_panic(2) [OF i, of c] lock_invD(1,4,5) [OF i, of c] by (simp_all add: cpu_ok_def)
  moreover have "\<not> owns (pc s d)" if "d \<noteq> c" for d using lock_invD(1) [OF i] calculation(2) that by force
  ultimately have "lock_inv own s'" using i leave by (auto simp: lock_inv_def release_clear_def)
  then show ?thesis ..
next
  case (unlock c k)
  then have "cpu_ok Outside k" "own = Some c"
    using lock_no_panic(3) [OF i, of c] lock_invD(1) [OF i, of c] by (auto simp: cpu_ok_def)
  moreover have "\<not> owns (pc s d)" if "d \<noteq> c" for d using lock_invD(1) [OF i] calculation(2) that by force
  ultimately have "lock_inv None s'" using i unlock by (auto simp: lock_inv_def)
  then show ?thesis ..
qed (use lock_no_panic [OF i] in force)+

text \<open>
  C28. Mutual exclusion: however any number of CPUs interleave the memory accesses of \<open>acquire\<close>
  and \<open>release\<close> on a lock, starting with the lock free, at most one of them is between taking
  and freeing it; one in the critical section is the recorded owner and runs with interrupts
  disabled, and none of the panics of these functions is reached.
\<close>

theorem spinlock_mutual_exclusion:
  assumes "lock_start s" and "lock_step\<^sup>*\<^sup>* s s'"
  shows "(owns (pc s' c) \<and> owns (pc s' d) \<longrightarrow> c = d) \<and>
    (pc s' c = Inside \<longrightarrow> slocked (lk s') \<noteq> 0 \<and> scpu (lk s') = Some c \<and> \<not> eflags_if (cpu s' c)) \<and>
    \<not> panicked s'"
proof -
  from assms(2) have "\<exists>own. lock_inv own s'"
  proof (induction rule: rtranclp_induct)
    case base
    then show ?case using lock_start_inv [OF assms(1)] by blast
  next
    case (step t u)
    then show ?case using lock_step_inv by blast
  qed
  then obtain own where i: "lock_inv own s'" ..
  note I = lock_invD(1,3,4,5) [OF i, of c]
  have "\<not> eflags_if (cpu s' c)" if "pc s' c = Inside" using I(3,4) that by (simp add: cli_inv_def)
  then show ?thesis using I lock_invD(1) [OF i, of d] lock_invD(2,6) [OF i] by auto
qed

definition demo_lock :: lockst where
  "demo_lock = \<lparr>lk = \<lparr>slocked = 0, scpu = None, spcs = replicate 10 0\<rparr>, pc = \<lambda>_. Outside,
     cpu = \<lambda>c. \<lparr>apicid = of_nat c, ncli = 0, intena = False, cpu_proc = None, eflags_if = True\<rparr>, panicked = False\<rparr>"

lemma demo_lock_start: "lock_start demo_lock"
  by (simp add: lock_start_def demo_lock_def cli_inv_def)

text \<open>CPU 1 takes the lock while CPU 2 spins.\<close>

lemma demo_lock_run: "\<exists>s. lock_step\<^sup>*\<^sup>* demo_lock s \<and> pc s 1 = Inside \<and> pc s 2 = Spinning"
proof -
  have i0: "lock_inv None demo_lock" by (rule lock_start_inv [OF demo_lock_start])
  let ?k = "\<lambda>c. pushcli (cpu demo_lock c)"
  define s1 where "s1 = demo_lock\<lparr>pc := (pc demo_lock)(1 := Spinning), cpu := (cpu demo_lock)(1 := ?k 1)\<rparr>"
  have st1: "lock_step demo_lock s1"
    unfolding s1_def by (rule start) (use lock_no_panic(1) [OF i0, of 1] in \<open>simp_all add: demo_lock_def\<close>)
  obtain o1 where i1: "lock_inv o1 s1" using lock_step_inv [OF i0 st1] ..
  define s2 where "s2 = s1\<lparr>pc := (pc s1)(2 := Spinning), cpu := (cpu s1)(2 := pushcli (cpu s1 2))\<rparr>"
  have st2: "lock_step s1 s2"
    unfolding s2_def by (rule start) (use lock_no_panic(1) [OF i1, of 2] in \<open>simp_all add: s1_def demo_lock_def\<close>)
  define s3 where "s3 = s2\<lparr>lk := snd (xchg_locked (lk s2)), pc := (pc s2)(1 := Entered)\<rparr>"
  have x: "xchg_locked (lk s2) = (0, snd (xchg_locked (lk s2)))"
    by (simp add: xchg_locked_def s2_def s1_def demo_lock_def)
  have "pc s2 1 = Spinning" by (simp add: s2_def s1_def)
  from spin [OF this x] have st3: "lock_step s2 s3" by (simp add: s3_def)
  define s4 where "s4 = s3\<lparr>lk := (lk s3)\<lparr>scpu := Some 1, spcs := []\<rparr>, pc := (pc s3)(1 := Inside)\<rparr>"
  have st4: "lock_step s3 s4" unfolding s4_def by (rule enter) (simp add: s3_def)
  have "lock_step\<^sup>*\<^sup>* demo_lock s4"
    using st1 st2 st3 st4 by (meson converse_rtranclp_into_rtranclp rtranclp.rtrancl_refl)
  moreover have "pc s4 1 = Inside" "pc s4 2 = Spinning" by (simp_all add: s4_def s3_def s2_def)
  ultimately show ?thesis by blast
qed

theorem spinlock_mutual_exclusion_witness:
  "\<exists>s. lock_step\<^sup>*\<^sup>* demo_lock s \<and> pc s 1 = Inside \<and> pc s 2 = Spinning \<and> scpu (lk s) = Some 1 \<and>
     \<not> eflags_if (cpu s 1) \<and> \<not> panicked s"
  using demo_lock_run spinlock_mutual_exclusion [OF demo_lock_start, of _ 1 1] by blast

end
