(* ===== verification/Proc.thy ===== *)
theory Proc
  imports File Vm Spinlock
begin

text \<open>
  Processes (\<^verbatim>\<open>proc.c\<close>, \<^verbatim>\<open>proc.h\<close>): the process table, creation, exit and wait, sleep and wakeup,
  and the scheduler.

  The state adds the table to that of the open files. Trap frames and saved contexts are words
  in the kernel stacks, as in the code; open files and inodes are indices. A context switch
  (\<open>swtch\<close>) leaves the function: \<open>sleep\<close>, \<open>yield\<close> and \<open>exit\<close> are modelled up to their switch to
  the scheduler, and what \<open>sleep\<close> does when it is switched back to is \<open>sleep_return\<close>. The parts
  between \<open>acquire\<close> and \<open>release\<close> of \<open>ptable.lock\<close> are single steps (theory \<open>Spinlock\<close>), so the
  checks of \<open>sched\<close> that concern the lock are not repeated here. The loads of hardware registers
  in \<open>switchuvm\<close> are left out, its checks are not.
\<close>

section \<open>Definitions\<close>

datatype procstate = UNUSED | EMBRYO | SLEEPING | RUNNABLE | RUNNING | ZOMBIE

text \<open>What a process can sleep on: the addresses the code passes to \<open>sleep\<close>.\<close>

datatype kchan = ChProc nat | ChTicks | ChPipe u32 pchan | ChInput

record kproc =
  psz :: u32
  pgdir :: u32
  kstack :: u32
  pstate :: procstate
  ppid :: int
  parent :: "nat option"
  ptf :: u32
  pcontext :: u32
  pchn :: "kchan option"
  killed :: bool
  ofile :: "nat \<Rightarrow> nat option"
  pcwd :: "nat option"
  pname :: bytes

record procst = filest +
  procs :: "nat \<Rightarrow> kproc"
  initproc :: "nat option"
  nextpid :: int
  cpuproc :: "nat option"
  ticks :: u32
  forkret_first :: bool

text \<open>What the linker provides beside \<open>end\<close>: \<open>data\<close>, two addresses of code, and the first program.\<close>

record 's penv = "'s kenv" +
  kern_data :: u32
  trapret_at :: u32
  forkret_at :: u32
  initcode :: bytes

text \<open>The value of a C \<open>int\<close>: 32 bits, wrapping round. \<open>nextpid\<close> and the identifiers are such values.\<close>

definition int32 :: "int \<Rightarrow> int" where
  "int32 x = (x + 2 ^ 31) mod 2 ^ 32 - 2 ^ 31"

lemma int32_id: "- (2 ^ 31) \<le> x \<Longrightarrow> x < 2 ^ 31 \<Longrightarrow> int32 x = x"
  by (simp add: int32_def)

lemma int32_overflow: "int32 (2 ^ 31) = - (2 ^ 31)"
  by (simp add: int32_def)

definition upd_proc :: "nat \<Rightarrow> (kproc \<Rightarrow> kproc) \<Rightarrow> 'a procst_scheme \<Rightarrow> 'a procst_scheme" where
  "upd_proc p f s = s\<lparr>procs := (procs s)(p := f (procs s p))\<rparr>"

definition upd_mem :: "(mem \<Rightarrow> mem) \<Rightarrow> 'a procst_scheme \<Rightarrow> 'a procst_scheme" where
  "upd_mem f s = s\<lparr>km := (km s)\<lparr>memory := f (memory (km s))\<rparr>\<rparr>"

text \<open>Using the current process: a null \<open>myproc()\<close> is dereferenced at once.\<close>

definition curproc :: "'a procst_scheme \<Rightarrow> nat outcome" where
  "curproc s = (case cpuproc s of Some p \<Rightarrow> Ret p | None \<Rightarrow> Fault ''null proc'')"

definition store16 :: "u32 \<Rightarrow> u16 \<Rightarrow> mem \<Rightarrow> mem" where
  "store16 a v m = m(a := ubyte 0 v, a + 1 := ubyte (Suc 0) v)"

text \<open>Offsets of the fields of \<open>struct trapframe\<close> and \<open>struct context\<close>.\<close>

abbreviation (input) TF_SIZE :: u32 where "TF_SIZE \<equiv> 76"
abbreviation (input) TF_EAX :: u32 where "TF_EAX \<equiv> 28"
abbreviation (input) TF_ES :: u32 where "TF_ES \<equiv> 40"
abbreviation (input) TF_DS :: u32 where "TF_DS \<equiv> 44"
abbreviation (input) TF_TRAPNO :: u32 where "TF_TRAPNO \<equiv> 48"
abbreviation (input) TF_EIP :: u32 where "TF_EIP \<equiv> 56"
abbreviation (input) TF_CS :: u32 where "TF_CS \<equiv> 60"
abbreviation (input) TF_EFLAGS :: u32 where "TF_EFLAGS \<equiv> 64"
abbreviation (input) TF_ESP :: u32 where "TF_ESP \<equiv> 68"
abbreviation (input) TF_SS :: u32 where "TF_SS \<equiv> 72"
abbreviation (input) CTX_SIZE :: u32 where "CTX_SIZE \<equiv> 20"
abbreviation (input) CTX_EIP :: u32 where "CTX_EIP \<equiv> 16"

definition allocproc :: "('a procst_scheme, 'e) penv_scheme \<Rightarrow> 'a procst_scheme \<Rightarrow> nat option \<times> 'a procst_scheme" where
  "allocproc e s =
     (case find (\<lambda>i. pstate (procs s i) = UNUSED) [0..<NPROC] of
        None \<Rightarrow> (None, s)
      | Some p \<Rightarrow>
          let s = upd_proc p (\<lambda>x. x\<lparr>pstate := EMBRYO, ppid := nextpid s\<rparr>) s;
              s = s\<lparr>nextpid := int32 (nextpid s + 1)\<rparr>
          in case kalloc (km s) of
            (k, m) \<Rightarrow>
              let s = upd_proc p (\<lambda>x. x\<lparr>kstack := k\<rparr>) (s\<lparr>km := m\<rparr>) in
              if k = 0 then (None, upd_proc p (\<lambda>x. x\<lparr>pstate := UNUSED\<rparr>) s)
              else
                let tf = k + PGSIZE - TF_SIZE;
                    ctx = tf - 4 - CTX_SIZE;
                    s = upd_proc p (\<lambda>x. x\<lparr>ptf := tf, pcontext := ctx\<rparr>) s
                in (Some p, upd_mem (\<lambda>m.
                     store32 (ctx + CTX_EIP) (forkret_at e)
                       (memset ctx 0 CTX_SIZE (store32 (tf - 4) (trapret_at e) m))) s))"

text \<open>The checks of \<open>switchuvm\<close>.\<close>

definition switchuvm :: "nat \<Rightarrow> 'a procst_scheme \<Rightarrow> unit outcome" where
  "switchuvm p s =
     (if kstack (procs s p) = 0 then Panic ''switchuvm: no kstack''
      else if pgdir (procs s p) = 0 then Panic ''switchuvm: no pgdir''
      else Ret ())"

definition userinit :: "('a procst_scheme, 'e) penv_scheme \<Rightarrow> 'a procst_scheme \<Rightarrow> 'a procst_scheme outcome" where
  "userinit e s =
     (case allocproc e s of
        (None, s) \<Rightarrow> Fault ''null proc''
      | (Some p, s) \<Rightarrow>
          let s = s\<lparr>initproc := Some p\<rparr> in
          and_then (setupkvm (kern_end e) (kern_data e) (km s)) (\<lambda>(d, m).
          let s = upd_proc p (\<lambda>x. x\<lparr>pgdir := d\<rparr>) (s\<lparr>km := m\<rparr>) in
          if d = 0 then Panic ''userinit: out of memory?''
          else
            and_then (inituvm d (initcode e) (of_nat (length (initcode e))) (km s)) (\<lambda>m.
            let s = upd_proc p (\<lambda>x. x\<lparr>psz := PGSIZE\<rparr>) (s\<lparr>km := m\<rparr>);
                tf = ptf (procs s p);
                s = upd_mem (\<lambda>m.
                  store32 (tf + TF_EIP) 0 (store32 (tf + TF_ESP) PGSIZE (store32 (tf + TF_EFLAGS) 0x200
                  (store16 (tf + TF_SS) 0x23 (store16 (tf + TF_ES) 0x23 (store16 (tf + TF_DS) 0x23
                  (store16 (tf + TF_CS) 0x1b (memset tf 0 TF_SIZE m)))))))) s;
                s = upd_proc p (\<lambda>x. x\<lparr>pname := safestrcpy (cp (map (of_nat \<circ> of_char) ''initcode'')) 16\<rparr>) s
            in and_then (namei (dev_switch e) 0 [SLASH] s) (\<lambda>(cwd, s).
               Ret (upd_proc p (\<lambda>x. x\<lparr>pcwd := cwd, pstate := RUNNABLE\<rparr>) s)))))"

text \<open>
  \<open>growproc\<close> adds the signed \<open>n\<close> to the size modulo \<open>2 ^ 32\<close>. Any result 0 of \<open>allocuvm\<close> or
  \<open>deallocuvm\<close> counts as failure, the size 0 included.
\<close>

definition growproc :: "('a procst_scheme, 'e) penv_scheme \<Rightarrow> int \<Rightarrow> 'a procst_scheme \<Rightarrow> (int \<times> 'a procst_scheme) outcome" where
  "growproc e n s =
     and_then (curproc s) (\<lambda>p.
     let sz = psz (procs s p); d = pgdir (procs s p) in
     and_then
       (if n > 0 then allocuvm (kern_end e) d sz (sz + of_int n) (km s)
        else if n < 0 then deallocuvm (kern_end e) d sz (sz + of_int n) (km s)
        else Ret (sz, km s)) (\<lambda>(sz, m).
     let s = s\<lparr>km := m\<rparr> in
     if n \<noteq> 0 \<and> sz = 0 then Ret (- 1, s)
     else
       let s = upd_proc p (\<lambda>x. x\<lparr>psz := sz\<rparr>) s in
       and_then (switchuvm p s) (\<lambda>_. Ret (0, s))))"

definition fork_files :: "nat \<Rightarrow> nat \<Rightarrow> 'a procst_scheme \<Rightarrow> 'a procst_scheme outcome" where
  "fork_files p np s =
     foldo (\<lambda>i s. case ofile (procs s p) i of
         None \<Rightarrow> Ret s
       | Some f \<Rightarrow> and_then (filedup f s) (\<lambda>(f, s). Ret (upd_proc np (\<lambda>x. x\<lparr>ofile := (ofile x)(i := Some f)\<rparr>) s)))
       [0..<NOFILE] s"

definition fork :: "('a procst_scheme, 'e) penv_scheme \<Rightarrow> 'a procst_scheme \<Rightarrow> (int \<times> 'a procst_scheme) outcome" where
  "fork e s =
     and_then (curproc s) (\<lambda>p.
     case allocproc e s of
       (None, s) \<Rightarrow> Ret (- 1, s)
     | (Some np, s) \<Rightarrow>
         and_then (copyuvm (kern_end e) (kern_data e) (pgdir (procs s p)) (psz (procs s p)) (km s)) (\<lambda>(d, m).
         let s = upd_proc np (\<lambda>x. x\<lparr>pgdir := d\<rparr>) (s\<lparr>km := m\<rparr>) in
         if d = 0 then
           and_then (kfree (kern_end e) (kstack (procs s np)) (km s)) (\<lambda>m.
           Ret (- 1, upd_proc np (\<lambda>x. x\<lparr>kstack := 0, pstate := UNUSED\<rparr>) (s\<lparr>km := m\<rparr>)))
         else
           let s = upd_proc np (\<lambda>x. x\<lparr>psz := psz (procs s p), parent := Some p\<rparr>) s;
               tf = ptf (procs s np);
               s = upd_mem (\<lambda>m. store32 (tf + TF_EAX) 0 (memmove tf (ptf (procs s p)) TF_SIZE m)) s
           in and_then (fork_files p np s) (\<lambda>s.
              and_then (the_ip (pcwd (procs s p))) (\<lambda>cwd.
              case idup cwd s of (cwd, s) \<Rightarrow>
                let s = upd_proc np (\<lambda>x. x\<lparr>pcwd := Some cwd, pname := safestrcpy (cp (pname (procs s p))) 16\<rparr>) s;
                    pid = ppid (procs s np)
                in Ret (pid, upd_proc np (\<lambda>x. x\<lparr>pstate := RUNNABLE\<rparr>) s)))))"

definition wakeup1 :: "kchan \<Rightarrow> 'a procst_scheme \<Rightarrow> 'a procst_scheme" where
  "wakeup1 ch s = s\<lparr>procs := (\<lambda>i. let p = procs s i in
     if i < NPROC \<and> pstate p = SLEEPING \<and> pchn p = Some ch then p\<lparr>pstate := RUNNABLE\<rparr> else p)\<rparr>"

definition wakeup :: "kchan \<Rightarrow> 'a procst_scheme \<Rightarrow> 'a procst_scheme" where
  "wakeup ch s = wakeup1 ch s"

text \<open>The calls of \<open>wakeup\<close> made by operations on pipes, which theory \<open>File\<close> collects.\<close>

definition deliver_wakeups :: "'a procst_scheme \<Rightarrow> 'a procst_scheme" where
  "deliver_wakeups s = fold (\<lambda>(a, c). wakeup (ChPipe a c)) (wakeups s) (s\<lparr>wakeups := []\<rparr>)"

text \<open>The switch to the scheduler, which clears the current process.\<close>

definition sched :: "'a procst_scheme \<Rightarrow> 'a procst_scheme outcome" where
  "sched s =
     and_then (curproc s) (\<lambda>p.
     if pstate (procs s p) = RUNNING then Panic ''sched running''
     else Ret (s\<lparr>cpuproc := None\<rparr>))"

definition yield :: "'a procst_scheme \<Rightarrow> 'a procst_scheme outcome" where
  "yield s = and_then (curproc s) (\<lambda>p. sched (upd_proc p (\<lambda>x. x\<lparr>pstate := RUNNABLE\<rparr>) s))"

definition sleep :: "kchan \<Rightarrow> 'a procst_scheme \<Rightarrow> 'a procst_scheme outcome" where
  "sleep ch s =
     (case cpuproc s of
        None \<Rightarrow> Panic ''sleep''
      | Some p \<Rightarrow> sched (upd_proc p (\<lambda>x. x\<lparr>pchn := Some ch, pstate := SLEEPING\<rparr>) s))"

definition sleep_return :: "nat \<Rightarrow> 'a procst_scheme \<Rightarrow> 'a procst_scheme" where
  "sleep_return p s = upd_proc p (\<lambda>x. x\<lparr>pchn := None\<rparr>) s"

text \<open>\<open>exit\<close>: closing the files, handing the children to \<open>init\<close>, and the whole.\<close>

definition exit_files :: "u32 \<Rightarrow> nat \<Rightarrow> 'a procst_scheme \<Rightarrow> 'a procst_scheme outcome" where
  "exit_files kend p s =
     foldo (\<lambda>fd s. case ofile (procs s p) fd of
         None \<Rightarrow> Ret s
       | Some f \<Rightarrow>
           and_then (fileclose kend f s) (\<lambda>s.
           Ret (upd_proc p (\<lambda>x. x\<lparr>ofile := (ofile x)(fd := None)\<rparr>) (deliver_wakeups s))))
       [0..<NOFILE] s"

definition reparent :: "nat \<Rightarrow> nat \<Rightarrow> 'a procst_scheme \<Rightarrow> 'a procst_scheme" where
  "reparent p q s =
     (if parent (procs s q) = Some p then
        let s = upd_proc q (\<lambda>x. x\<lparr>parent := initproc s\<rparr>) s in
        if pstate (procs s q) = ZOMBIE then (case initproc s of Some i \<Rightarrow> wakeup1 (ChProc i) s | None \<Rightarrow> s) else s
      else s)"

definition exit_table :: "nat \<Rightarrow> 'a procst_scheme \<Rightarrow> 'a procst_scheme outcome" where
  "exit_table p s =
     (let s = (case parent (procs s p) of Some q \<Rightarrow> wakeup1 (ChProc q) s | None \<Rightarrow> s);
          s = fold (reparent p) [0..<NPROC] s
      in sched (upd_proc p (\<lambda>x. x\<lparr>pstate := ZOMBIE\<rparr>) s))"

definition exit :: "u32 \<Rightarrow> 'a procst_scheme \<Rightarrow> 'a procst_scheme outcome" where
  "exit kend s =
     and_then (curproc s) (\<lambda>p.
     if initproc s = Some p then Panic ''init exiting''
     else
       and_then (exit_files kend p s) (\<lambda>s.
       and_then (begin_op s) (\<lambda>s.
       and_then (the_ip (pcwd (procs s p))) (\<lambda>cwd.
       and_then (iput cwd s) (\<lambda>s.
       and_then (end_op s) (\<lambda>s.
       exit_table p (upd_proc p (\<lambda>x. x\<lparr>pcwd := None\<rparr>) s)))))))"

text \<open>One turn of the loop of \<open>wait\<close>: the result, or \<open>None\<close> when it goes to sleep.\<close>

definition reap :: "u32 \<Rightarrow> nat \<Rightarrow> 'a procst_scheme \<Rightarrow> (int \<times> 'a procst_scheme) outcome" where
  "reap kend p s =
     (let pid = ppid (procs s p) in
      and_then (kfree kend (kstack (procs s p)) (km s)) (\<lambda>m.
      and_then (freevm kend (pgdir (procs s p)) m) (\<lambda>m.
      Ret (pid, upd_proc p (\<lambda>x. x\<lparr>kstack := 0, ppid := 0, parent := None, pname := (pname x)[0 := 0],
        killed := False, pstate := UNUSED\<rparr>) (s\<lparr>km := m\<rparr>)))))"

definition wait :: "u32 \<Rightarrow> 'a procst_scheme \<Rightarrow> (int option \<times> 'a procst_scheme) outcome" where
  "wait kend s =
     and_then (curproc s) (\<lambda>me.
     case find (\<lambda>p. parent (procs s p) = Some me \<and> pstate (procs s p) = ZOMBIE) [0..<NPROC] of
       Some p \<Rightarrow> and_then (reap kend p s) (\<lambda>(pid, s). Ret (Some pid, s))
     | None \<Rightarrow>
         if \<not> list_ex (\<lambda>p. parent (procs s p) = Some me) [0..<NPROC] \<or> killed (procs s me) then Ret (Some (- 1), s)
         else and_then (sleep (ChProc me) s) (\<lambda>s. Ret (None, s)))"

text \<open>
  The scheduler's loop over the table from slot \<open>pos\<close> to the next process it switches to, with the
  slot where it goes on after that process has run; \<open>None\<close> when it reaches the end of the table,
  after which it starts over.
\<close>

definition scheduler :: "nat \<Rightarrow> 'a procst_scheme \<Rightarrow> (nat option \<times> nat \<times> 'a procst_scheme) outcome" where
  "scheduler pos s =
     (case find (\<lambda>i. pstate (procs s i) = RUNNABLE) [pos..<NPROC] of
        None \<Rightarrow> Ret (None, 0, s)
      | Some p \<Rightarrow>
          let s = s\<lparr>cpuproc := Some p, curpid := ppid (procs s p)\<rparr> in
          and_then (switchuvm p s) (\<lambda>_.
          Ret (Some p, Suc p, upd_proc p (\<lambda>x. x\<lparr>pstate := RUNNING\<rparr>) s)))"

definition forkret :: "'a procst_scheme \<Rightarrow> 'a procst_scheme outcome" where
  "forkret s =
     (if forkret_first s then
        let s = s\<lparr>forkret_first := False\<rparr> in
        and_then (iinit ROOTDEV s) (\<lambda>s. initlog ROOTDEV s)
      else Ret s)"

definition kill :: "int \<Rightarrow> 'a procst_scheme \<Rightarrow> int \<times> 'a procst_scheme" where
  "kill pid s =
     (case find (\<lambda>i. ppid (procs s i) = pid) [0..<NPROC] of
        None \<Rightarrow> (- 1, s)
      | Some p \<Rightarrow>
          let s = upd_proc p (\<lambda>x. x\<lparr>killed := True\<rparr>) s in
          (0, if pstate (procs s p) = SLEEPING then upd_proc p (\<lambda>x. x\<lparr>pstate := RUNNABLE\<rparr>) s else s))"

text \<open>The listing \<open>procdump\<close> prints: pid, state, name and, of a sleeping process, the call stack.\<close>

fun state_name :: "procstate \<Rightarrow> string" where
  "state_name UNUSED = ''unused''"
| "state_name EMBRYO = ''embryo''"
| "state_name SLEEPING = ''sleep ''"
| "state_name RUNNABLE = ''runble''"
| "state_name RUNNING = ''run   ''"
| "state_name ZOMBIE = ''zombie''"

definition procdump :: "'a procst_scheme \<Rightarrow> (int \<times> string \<times> bytes \<times> u32 list) list" where
  "procdump s =
     map (\<lambda>i. let p = procs s i; m = memory (km s) in
         (ppid p, state_name (pstate p), pname p,
          if pstate p = SLEEPING
          then takeWhile (\<lambda>a. a \<noteq> 0) (getcallerpcs m (load32 m (pcontext p + 12) + 8)) else []))
       (filter (\<lambda>i. pstate (procs s i) \<noteq> UNUSED) [0..<NPROC])"

end
