(* ===== verification/Fs_Frame.thy ===== *)
theory Fs_Frame
  imports File
begin

text \<open>
  What the operations of the lower layers leave alone, without any assumption on the state: each
  layer of the kernel keeps the part of the state record that the layers above it add.
\<close>

section \<open>Partial correctness\<close>

definition ensures :: "'a outcome \<Rightarrow> ('a \<Rightarrow> bool) \<Rightarrow> bool" where
  "ensures m P \<longleftrightarrow> (\<forall>x. m = Ret x \<longrightarrow> P x)"

named_theorems keeps

lemma ensures_simps [simp]:
  "ensures (Ret x) P \<longleftrightarrow> P x" "ensures (Panic e) P" "ensures (Block e) P" "ensures Hang P" "ensures (Fault e) P"
  by (auto simp: ensures_def)

lemma ensures_and_then: "ensures m P \<Longrightarrow> (\<And>x. P x \<Longrightarrow> ensures (f x) Q) \<Longrightarrow> ensures (and_then m f) Q"
  by (auto simp: ensures_def and_then_eq_Ret_iff)

lemma ensures_foldo:
  "(\<And>x s. P s \<Longrightarrow> ensures (f x s) P) \<Longrightarrow> P s \<Longrightarrow> ensures (foldo f xs s) P"
  by (induction xs arbitrary: s) (auto intro: ensures_and_then)

lemma ensures_if [intro!]:
  "(b \<Longrightarrow> ensures x P) \<Longrightarrow> (\<not> b \<Longrightarrow> ensures y P) \<Longrightarrow> ensures (if b then x else y) P"
  by simp

lemma ensures_option [intro!]:
  "(v = None \<Longrightarrow> ensures x P) \<Longrightarrow> (\<And>y. v = Some y \<Longrightarrow> ensures (f y) P) \<Longrightarrow>
     ensures (case v of None \<Rightarrow> x | Some y \<Rightarrow> f y) P"
  by (cases v) simp_all

lemma ensures_any: "(\<And>x. ensures (f x) Q) \<Longrightarrow> ensures (and_then m f) Q"
  by (auto simp: ensures_def and_then_eq_Ret_iff)

lemma ensuresD: "ensures m P \<Longrightarrow> m = Ret x \<Longrightarrow> P x"
  by (simp add: ensures_def)

section \<open>The disk and the buffer cache\<close>

lemma upd_buf_more [simp]: "diskst.more (upd_buf i f s) = diskst.more s"
  by (simp add: upd_buf_def)

lemma idestart_more: "diskst.more s = z \<Longrightarrow> ensures (idestart bp s) (\<lambda>s. diskst.more s = z)"
  by (auto simp: idestart_def Let_def)

lemma ideintr_more: "diskst.more s = z \<Longrightarrow> ensures (ideintr s) (\<lambda>s. diskst.more s = z)"
  by (auto simp: ideintr_def Let_def intro!: idestart_more)

lemma iderw_wait_more: "diskst.more s = z \<Longrightarrow> ensures (iderw_wait k i s) (\<lambda>s. diskst.more s = z)"
  by (induction k arbitrary: s) (auto intro!: ensures_and_then [OF ideintr_more])

lemma idequeue_append_more: "diskst.more s = z \<Longrightarrow> ensures (idequeue_append i s) (\<lambda>s. diskst.more s = z)"
  by (auto simp: idequeue_append_def Let_def intro!: ensures_any)

lemma iderw_more: "diskst.more s = z \<Longrightarrow> ensures (iderw i s) (\<lambda>s. diskst.more s = z)"
  unfolding iderw_def
  by (intro ensures_if ensures_simps ensures_and_then [OF idequeue_append_more]
      ensures_and_then [of "if b then idestart x y else z" "\<lambda>s. diskst.more s = z'" for b x y z z'])
    (auto intro!: idestart_more iderw_wait_more)

lemma lock_buf_more: "diskst.more s = z \<Longrightarrow> ensures (lock_buf i s) (\<lambda>(i, s). diskst.more s = z)"
  by (auto simp: lock_buf_def ensures_def and_then_eq_Ret_iff)

lemma bget_more: "diskst.more s = z \<Longrightarrow> ensures (bget d n s) (\<lambda>(i, s). diskst.more s = z)"
  unfolding bget_def by (auto intro!: ensures_any lock_buf_more)

lemma bread_more: "diskst.more s = z \<Longrightarrow> ensures (bread d n s) (\<lambda>(i, s). diskst.more s = z)"
  unfolding bread_def by (auto intro!: ensures_and_then [OF bget_more] ensures_and_then [OF iderw_more])

lemma bwrite_more: "diskst.more s = z \<Longrightarrow> ensures (bwrite i s) (\<lambda>s. diskst.more s = z)"
  by (auto simp: bwrite_def intro!: iderw_more)

lemma brelse_more: "diskst.more s = z \<Longrightarrow> ensures (brelse i s) (\<lambda>s. diskst.more s = z)"
  by (auto simp: brelse_def Let_def push_front_def unlink_buf_def)

lemma set_data_more [simp]: "diskst.more (set_data i d s) = diskst.more s"
  by (simp add: set_data_def)

section \<open>The log and the inodes\<close>

lemma fsst_more_disk:
  fixes s s' :: "'a fsst_scheme"
  shows "diskst.more s' = diskst.more s \<Longrightarrow> fsst.more s' = fsst.more s"
  by (cases s; cases s') simp

lemma fsst_more_simps [simp]:
  fixes s :: "'a fsst_scheme"
  shows "fsst.more (upd_buf i f s) = fsst.more s" "fsst.more (set_data i d s) = fsst.more s"
    "fsst.more (pin_buf i s) = fsst.more s" "fsst.more (upd_inode ip g s) = fsst.more s"
  by (simp_all add: upd_buf_def set_data_def pin_buf_def upd_inode_def)

lemma ensures_pair_weak: "ensures m (\<lambda>(i, s). P s) \<Longrightarrow> (\<And>s. P s \<Longrightarrow> Q s) \<Longrightarrow> ensures m (\<lambda>(i, s). Q s)"
  by (auto simp: ensures_def)

lemma ensures_weak: "ensures m P \<Longrightarrow> (\<And>s. P s \<Longrightarrow> Q s) \<Longrightarrow> ensures m Q"
  by (auto simp: ensures_def)

lemma cache_fs:
  fixes s :: "'a fsst_scheme"
  assumes z: "fsst.more s = z"
  shows "ensures (bread d n s) (\<lambda>(i, s). fsst.more s = z)" "ensures (bwrite i s) (\<lambda>s. fsst.more s = z)"
    "ensures (brelse i s) (\<lambda>s. fsst.more s = z)"
proof -
  have w: "diskst.more s' = diskst.more s \<Longrightarrow> fsst.more s' = z" for s'
    using fsst_more_disk [of s' s] z by simp
  show "ensures (bread d n s) (\<lambda>(i, s). fsst.more s = z)" by (rule ensures_pair_weak [OF bread_more [OF refl] w])
  show "ensures (bwrite i s) (\<lambda>s. fsst.more s = z)" by (rule ensures_weak [OF bwrite_more [OF refl] w])
  show "ensures (brelse i s) (\<lambda>s. fsst.more s = z)" by (rule ensures_weak [OF brelse_more [OF refl] w])
qed

lemmas [keeps] = cache_fs ensures_and_then [OF cache_fs(1)] ensures_and_then [OF cache_fs(2)] ensures_and_then [OF cache_fs(3)]

lemma log_write_fs:
  fixes s :: "'a fsst_scheme"
  shows "fsst.more s = z \<Longrightarrow> ensures (log_write i s) (\<lambda>s. fsst.more s = z)"
  by (auto simp: log_write_def Let_def)

lemma install_step_fs:
  fixes s :: "'a fsst_scheme"
  shows "fsst.more s = z \<Longrightarrow> ensures (install_step t s) (\<lambda>s. fsst.more s = z)"
  by (auto simp: install_step_def intro!: keeps)

lemma write_log_step_fs:
  fixes s :: "'a fsst_scheme"
  shows "fsst.more s = z \<Longrightarrow> ensures (write_log_step t s) (\<lambda>s. fsst.more s = z)"
  by (auto simp: write_log_step_def intro!: keeps)

lemma write_head_fs:
  fixes s :: "'a fsst_scheme"
  shows "fsst.more s = z \<Longrightarrow> ensures (write_head s) (\<lambda>s. fsst.more s = z)"
  by (auto simp: write_head_def intro!: keeps)

lemma install_trans_fs:
  fixes s :: "'a fsst_scheme"
  shows "fsst.more s = z \<Longrightarrow> ensures (install_trans s) (\<lambda>s. fsst.more s = z)"
  unfolding install_trans_def by (rule ensures_foldo [OF install_step_fs])

lemma write_log_fs:
  fixes s :: "'a fsst_scheme"
  shows "fsst.more s = z \<Longrightarrow> ensures (write_log s) (\<lambda>s. fsst.more s = z)"
  unfolding write_log_def by (rule ensures_foldo [OF write_log_step_fs])

lemmas [keeps] = log_write_fs ensures_and_then [OF log_write_fs] write_head_fs ensures_and_then [OF write_head_fs]
  ensures_and_then [OF install_trans_fs] ensures_and_then [OF write_log_fs]

lemma commit_fs:
  fixes s :: "'a fsst_scheme"
  shows "fsst.more s = z \<Longrightarrow> ensures (commit s) (\<lambda>s. fsst.more s = z)"
  by (auto simp: commit_def intro!: keeps)

lemma begin_op_fs:
  fixes s :: "'a fsst_scheme"
  shows "fsst.more s = z \<Longrightarrow> ensures (begin_op s) (\<lambda>s. fsst.more s = z)"
  by (auto simp: begin_op_def)

lemma end_op_fs:
  fixes s :: "'a fsst_scheme"
  shows "fsst.more s = z \<Longrightarrow> ensures (end_op s) (\<lambda>s. fsst.more s = z)"
  by (auto simp: end_op_def Let_def intro!: ensures_and_then [OF commit_fs])

lemma bfree_fs: "fsst.more s = z \<Longrightarrow> ensures (bfree d b s) (\<lambda>s. fsst.more s = z)"
  by (auto simp: bfree_def Let_def intro!: keeps)

lemma iupdate_fs: "fsst.more s = z \<Longrightarrow> ensures (iupdate ip s) (\<lambda>s. fsst.more s = z)"
  by (auto simp: iupdate_def Let_def intro!: keeps)

lemmas [keeps] = bfree_fs ensures_and_then [OF bfree_fs] iupdate_fs ensures_and_then [OF iupdate_fs]
  begin_op_fs ensures_and_then [OF begin_op_fs] end_op_fs ensures_and_then [OF end_op_fs]

lemma itrunc_direct_fs: "fsst.more s = z \<Longrightarrow> ensures (itrunc_direct ip i s) (\<lambda>s. fsst.more s = z)"
  by (auto simp: itrunc_direct_def Let_def intro!: keeps)

lemma itrunc_indirect_fs: "fsst.more s = z \<Longrightarrow> ensures (itrunc_indirect ip i j s) (\<lambda>s. fsst.more s = z)"
  by (auto simp: itrunc_indirect_def Let_def intro!: keeps)

lemma itrunc_loops:
  assumes "fsst.more s = z"
  shows "ensures (foldo (itrunc_direct ip) xs s) (\<lambda>s. fsst.more s = z)"
    "ensures (foldo (itrunc_indirect ip i) xs s) (\<lambda>s. fsst.more s = z)"
  using assms by (auto intro!: ensures_foldo itrunc_direct_fs itrunc_indirect_fs)

lemma itrunc_fs: "fsst.more s = z \<Longrightarrow> ensures (itrunc ip s) (\<lambda>s. fsst.more s = z)"
  unfolding itrunc_def
  by (rule ensures_and_then [OF itrunc_loops(1)], assumption, rule ensures_and_then [where P = "\<lambda>s. fsst.more s = z"])
    (auto intro!: keeps ensures_and_then [OF itrunc_loops(2)])

lemma iput_fs: "fsst.more s = z \<Longrightarrow> ensures (iput ip s) (\<lambda>s. fsst.more s = z)"
  unfolding iput_def Let_def
  by (rule ensures_any, rule ensures_and_then [where P = "\<lambda>s. fsst.more s = z"])
    (auto intro!: keeps ensures_and_then [OF itrunc_fs])

lemmas [keeps] = iput_fs ensures_and_then [OF iput_fs]

section \<open>Open files\<close>

text \<open>Closing a file keeps everything above the table of open files.\<close>

lemma filest_more_fs:
  fixes s s' :: "'a filest_scheme"
  assumes "fsst.more s' = fsst.more s"
  shows "filest.more s' = filest.more s" "ftable s' = ftable s" "km s' = km s" "pipes s' = pipes s" "wakeups s' = wakeups s"
  using assms by (cases s; cases s'; simp)+

lemma close_inode_fs:
  fixes s :: "'a fsst_scheme"
  shows "fsst.more s = z \<Longrightarrow>
    ensures (and_then (begin_op s) (\<lambda>s. and_then (the_ip ipo) (\<lambda>ip. and_then (iput ip s) end_op))) (\<lambda>s. fsst.more s = z)"
  by (rule ensures_and_then [OF begin_op_fs], assumption, rule ensures_any,
      rule ensures_and_then [OF iput_fs], assumption, rule end_op_fs)

text \<open>A file after one reference to it is dropped.\<close>

definition closed_file :: "kfile \<Rightarrow> kfile" where
  "closed_file x = (if fref x > 1 then x\<lparr>fref := fref x - 1\<rparr> else x\<lparr>fref := 0, ftype := FD_NONE\<rparr>)"

lemma pipeclose_at_frame:
  "ensures (pipeclose_at kend a w s) (\<lambda>s'. filest.more s' = filest.more s \<and> ftable s' = ftable s)"
  by (auto simp: pipeclose_at_def upd_pipe_def Let_def split: prod.splits intro!: ensures_any)

lemma fileclose_frame:
  fixes s :: "'a filest_scheme"
  shows "ensures (fileclose kend f s) (\<lambda>s'. filest.more s' = filest.more s \<and> 1 \<le> fref (ftable s f) \<and>
    ftable s' = (ftable s)(f := closed_file (ftable s f)))"
proof (cases "1 \<le> fref (ftable s f)")
  case True
  let ?t = "(ftable s)(f := closed_file (ftable s f))"
  show ?thesis
  proof (cases "fref (ftable s f) = 1")
    case last: True
    define s1 where "s1 = upd_file f (\<lambda>x. x\<lparr>fref := 0, ftype := FD_NONE\<rparr>) (upd_file f (\<lambda>x. x\<lparr>fref := fref x - 1\<rparr>) s)"
    have s1: "filest.more s1 = filest.more s" "ftable s1 = ?t"
      using last by (simp_all add: s1_def upd_file_def closed_file_def)
    have i: "ensures (and_then (begin_op s1) (\<lambda>s. and_then (the_ip ipo) (\<lambda>ip. and_then (iput ip s) end_op)))
        (\<lambda>s'. filest.more s' = filest.more s \<and> ftable s' = ?t)" for ipo
      by (rule ensures_weak [OF close_inode_fs [OF refl]]) (use filest_more_fs s1 in metis)
    have p: "ensures (pipeclose_at kend a w s1) (\<lambda>s'. filest.more s' = filest.more s \<and> ftable s' = ?t)" for a w
      by (rule ensures_weak [OF pipeclose_at_frame]) (use s1 in simp)
    have "fileclose kend f s = (case ftype (ftable s f) of
        FD_PIPE \<Rightarrow> pipeclose_at kend (fpipe (ftable s f)) (writable (ftable s f)) s1
      | FD_INODE \<Rightarrow> and_then (begin_op s1) (\<lambda>t. and_then (the_ip (fip (ftable s f))) (\<lambda>ip. and_then (iput ip t) end_op))
      | FD_NONE \<Rightarrow> Ret s1)"
      using last by (cases "ftype (ftable s f)") (simp_all add: fileclose_def Let_def upd_file_def s1_def)
    then show ?thesis
      using last i p s1 by (simp split: fdtype.split)
  next
    case False
    then show ?thesis using True by (simp add: fileclose_def Let_def upd_file_def closed_file_def)
  qed
qed (simp add: fileclose_def)

end
