(* ===== verification/Proc_Table.thy ===== *)
theory Proc_Table
  imports Proc Fs_Frame
begin

text \<open>
  Properties of the process table: the invariant that every operation of \<^verbatim>\<open>proc.c\<close> keeps, the
  results of \<open>wait\<close> and \<open>kill\<close>, and the fairness of the scheduler.
\<close>

section \<open>The invariant\<close>

text \<open>
  Of one CPU: process identifiers of used slots are positive, different and below the next one;
  parents are alive, so that no zombie is forgotten; free slots have no parent; the running
  process is the one the CPU records.
\<close>

definition alive :: "procstate \<Rightarrow> bool" where
  "alive st \<longleftrightarrow> st \<noteq> UNUSED \<and> st \<noteq> ZOMBIE"

definition table_inv :: "(nat \<Rightarrow> procstate) \<Rightarrow> (nat \<Rightarrow> int) \<Rightarrow> (nat \<Rightarrow> nat option) \<Rightarrow> int \<Rightarrow> nat option \<Rightarrow> nat option \<Rightarrow> bool" where
  "table_inv st pid par n ini cur \<longleftrightarrow>
     0 < n \<and> (\<forall>i < NPROC. st i \<noteq> UNUSED \<longrightarrow> 0 < pid i \<and> pid i < n) \<and>
     (\<forall>i < NPROC. \<forall>j < NPROC. st i \<noteq> UNUSED \<longrightarrow> st j \<noteq> UNUSED \<longrightarrow> pid i = pid j \<longrightarrow> i = j) \<and>
     (\<forall>i < NPROC. \<forall>q. par i = Some q \<longrightarrow> q < NPROC \<and> alive (st q)) \<and>
     (\<forall>i < NPROC. st i = UNUSED \<longrightarrow> par i = None) \<and>
     (\<exists>i < NPROC. ini = Some i \<and> alive (st i)) \<and>
     (\<forall>p. cur = Some p \<longrightarrow> p < NPROC) \<and>
     (\<forall>i < NPROC. st i = RUNNING \<longleftrightarrow> cur = Some i)"

abbreviation states :: "'a procst_scheme \<Rightarrow> nat \<Rightarrow> procstate" where
  "states s \<equiv> \<lambda>i. pstate (procs s i)"

abbreviation pids :: "'a procst_scheme \<Rightarrow> nat \<Rightarrow> int" where
  "pids s \<equiv> \<lambda>i. ppid (procs s i)"

abbreviation parents :: "'a procst_scheme \<Rightarrow> nat \<Rightarrow> nat option" where
  "parents s \<equiv> \<lambda>i. parent (procs s i)"

definition table_ok :: "'a procst_scheme \<Rightarrow> bool" where
  "table_ok s \<longleftrightarrow> table_inv (states s) (pids s) (parents s) (nextpid s) (initproc s) (cpuproc s)"

lemma table_invD:
  assumes "table_inv st pid par n ini cur"
  shows "0 < n" "i < NPROC \<Longrightarrow> st i \<noteq> UNUSED \<Longrightarrow> 0 < pid i \<and> pid i < n"
    "i < NPROC \<Longrightarrow> j < NPROC \<Longrightarrow> st i \<noteq> UNUSED \<Longrightarrow> st j \<noteq> UNUSED \<Longrightarrow> pid i = pid j \<Longrightarrow> i = j"
    "i < NPROC \<Longrightarrow> par i = Some q \<Longrightarrow> q < NPROC \<and> alive (st q)"
    "i < NPROC \<Longrightarrow> st i = UNUSED \<Longrightarrow> par i = None"
    "\<exists>i < NPROC. ini = Some i \<and> alive (st i)"
    "cur = Some p \<Longrightarrow> p < NPROC" "i < NPROC \<Longrightarrow> st i = RUNNING \<longleftrightarrow> cur = Some i"
  using assms unfolding table_inv_def by blast+

lemma table_invI:
  assumes "0 < n" "\<And>i. i < NPROC \<Longrightarrow> st i \<noteq> UNUSED \<Longrightarrow> 0 < pid i \<and> pid i < n"
    "\<And>i j. i < NPROC \<Longrightarrow> j < NPROC \<Longrightarrow> st i \<noteq> UNUSED \<Longrightarrow> st j \<noteq> UNUSED \<Longrightarrow> pid i = pid j \<Longrightarrow> i = j"
    "\<And>i q. i < NPROC \<Longrightarrow> par i = Some q \<Longrightarrow> q < NPROC \<and> alive (st q)"
    "\<And>i. i < NPROC \<Longrightarrow> st i = UNUSED \<Longrightarrow> par i = None"
    "\<exists>i < NPROC. ini = Some i \<and> alive (st i)"
    "\<And>p. cur = Some p \<Longrightarrow> p < NPROC" "\<And>i. i < NPROC \<Longrightarrow> st i = RUNNING \<longleftrightarrow> cur = Some i"
  shows "table_inv st pid par n ini cur"
  unfolding table_inv_def using assms by blast

text \<open>Changes of state between living states other than running keep it.\<close>

lemma table_inv_states:
  assumes "table_inv st pid par n ini cur"
    and "\<And>i. i < NPROC \<Longrightarrow> st' i = st i \<or> (alive (st i) \<and> alive (st' i) \<and> (st i = RUNNING \<longleftrightarrow> st' i = RUNNING))"
  shows "table_inv st' pid par n ini cur"
proof -
  note I = table_invD [OF assms(1)]
  have u: "st' i = UNUSED \<longleftrightarrow> st i = UNUSED" "alive (st' i) \<longleftrightarrow> alive (st i)" "st' i = RUNNING \<longleftrightarrow> st i = RUNNING"
    if "i < NPROC" for i using assms(2) [OF that] by (auto simp: alive_def)
  show ?thesis
  proof (rule table_invI)
    show "\<exists>i < NPROC. ini = Some i \<and> alive (st' i)" using I(6) u(2) by blast
    show "q < NPROC \<and> alive (st' q)" if "i < NPROC" "par i = Some q" for i q using I(4) [OF that] u(2) by blast
  qed (use I(1,2,3,5,7,8) u in auto)
qed

lemma table_inv_new:
  assumes "table_inv st pid par n ini (Some p)" and np: "np < NPROC" "st np = UNUSED"
  shows "table_inv (st(np := RUNNABLE)) (pid(np := n)) (par(np := Some p)) (n + 1) ini (Some p)"
proof -
  note I = table_invD [OF assms(1)]
  have p: "p < NPROC" "st p = RUNNING" "p \<noteq> np" using I(7) [of p] I(8) [of p] np(2) by auto
  have less: "pid i < n" if "i < NPROC" "st i \<noteq> UNUSED" for i using I(2) [OF that] by simp
  show ?thesis
  proof (rule table_invI)
    show "\<exists>i < NPROC. ini = Some i \<and> alive ((st(np := RUNNABLE)) i)" using I(6) by (auto simp: alive_def)
    fix i j assume ij: "i < NPROC" "j < NPROC" "(st(np := RUNNABLE)) i \<noteq> UNUSED" "(st(np := RUNNABLE)) j \<noteq> UNUSED"
      "(pid(np := n)) i = (pid(np := n)) j"
    then show "i = j" using less [of i] less [of j] I(3) [of i j] by (auto split: if_splits)
  next
    fix i q assume "i < NPROC" "(par(np := Some p)) i = Some q"
    then show "q < NPROC \<and> alive ((st(np := RUNNABLE)) q)"
      using I(4) [of i q] p by (auto simp: alive_def split: if_splits)
  next
    fix i assume "i < NPROC" "(st(np := RUNNABLE)) i \<noteq> UNUSED"
    then show "0 < (pid(np := n)) i \<and> (pid(np := n)) i < n + 1" using I(1) I(2) [of i] by (auto split: if_splits)
  next
    fix i assume "i < NPROC" "(st(np := RUNNABLE)) i = UNUSED"
    then show "(par(np := Some p)) i = None" using I(5) [of i] by (auto split: if_splits)
  next
    fix i assume "i < NPROC"
    then show "(st(np := RUNNABLE)) i = RUNNING \<longleftrightarrow> Some p = Some i" using I(8) [of i] p(3) by auto
  qed (use I(1,7) in auto)
qed

lemma table_inv_pid:
  assumes "table_inv st pid par n ini cur" and "st np = UNUSED" and "n \<le> n'"
  shows "table_inv st (pid(np := m)) par n' ini cur"
proof -
  note I = table_invD [OF assms(1)]
  show ?thesis
  proof (rule table_invI)
    fix i assume "i < NPROC" "st i \<noteq> UNUSED"
    then show "0 < (pid(np := m)) i \<and> (pid(np := m)) i < n'" using I(2) [of i] assms(2,3) by auto
  next
    fix i j assume "i < NPROC" "j < NPROC" "st i \<noteq> UNUSED" "st j \<noteq> UNUSED" "(pid(np := m)) i = (pid(np := m)) j"
    then show "i = j" using I(3) [of i j] assms(2) by (auto split: if_splits)
  next
    show "0 < n'" using I(1) assms(3) by simp
  qed (rule I(4-8); assumption)+
qed

text \<open>A process becomes a zombie: its children go to \<open>init\<close>, and the CPU is free.\<close>

lemma table_inv_exit:
  assumes "table_inv st pid par n (Some ini) (Some p)" and "p \<noteq> ini"
  shows "table_inv (st(p := ZOMBIE)) pid (\<lambda>i. if i < NPROC \<and> par i = Some p then Some ini else par i) n (Some ini) None"
proof -
  note I = table_invD [OF assms(1)]
  have p: "p < NPROC" "st p = RUNNING" using I(7) [of p] I(8) [of p] by auto
  have ini: "ini < NPROC" "alive (st ini)" using I(6) by auto
  have u: "(st(p := ZOMBIE)) i = UNUSED \<longleftrightarrow> st i = UNUSED" for i using p(2) by simp
  show ?thesis
  proof (rule table_invI)
    show "\<exists>i < NPROC. Some ini = Some i \<and> alive ((st(p := ZOMBIE)) i)" using ini assms(2) by auto
    fix i q assume "i < NPROC" "(if i < NPROC \<and> par i = Some p then Some ini else par i) = Some q"
    then show "q < NPROC \<and> alive ((st(p := ZOMBIE)) q)"
      using I(4) [of i q] ini assms(2) by (auto split: if_splits)
  next
    fix i assume "i < NPROC" "(st(p := ZOMBIE)) i \<noteq> UNUSED"
    then show "0 < pid i \<and> pid i < n" using I(2) [of i] u by simp
  next
    fix i j assume "i < NPROC" "j < NPROC" "(st(p := ZOMBIE)) i \<noteq> UNUSED" "(st(p := ZOMBIE)) j \<noteq> UNUSED" "pid i = pid j"
    then show "i = j" using I(3) [of i j] u by simp
  next
    fix i assume "i < NPROC" "(st(p := ZOMBIE)) i = UNUSED"
    then show "(if i < NPROC \<and> par i = Some p then Some ini else par i) = None"
      using I(5) [of i] u by simp
  next
    fix i assume "i < NPROC"
    then show "(st(p := ZOMBIE)) i = RUNNING \<longleftrightarrow> None = Some i" using I(8) [of i] by simp
  qed (use I(1) in simp_all)
qed

text \<open>The slot of a zombie is freed; nobody has a zombie as parent.\<close>

lemma table_inv_reap:
  assumes "table_inv st pid par n ini cur" and "p < NPROC" and "st p = ZOMBIE"
  shows "table_inv (st(p := UNUSED)) (pid(p := 0)) (par(p := None)) n ini cur"
proof -
  note I = table_invD [OF assms(1)]
  have par: "par i \<noteq> Some p" if "i < NPROC" for i using I(4) [OF that, of p] assms(3) by (auto simp: alive_def)
  show ?thesis
  proof (rule table_invI)
    show "\<exists>i < NPROC. ini = Some i \<and> alive ((st(p := UNUSED)) i)" using I(6) assms(3) by (auto simp: alive_def)
    fix i q assume "i < NPROC" "(par(p := None)) i = Some q"
    then show "q < NPROC \<and> alive ((st(p := UNUSED)) q)" using I(4) [of i q] par [of i] by (auto split: if_splits)
  next
    fix i assume "i < NPROC"
    then show "(st(p := UNUSED)) i = RUNNING \<longleftrightarrow> cur = Some i" using I(8) [of i] I(8) [OF assms(2)] assms(3) by auto
  next
    fix i assume "i < NPROC" "(st(p := UNUSED)) i \<noteq> UNUSED"
    then show "0 < (pid(p := 0)) i \<and> (pid(p := 0)) i < n" using I(2) [of i] by (auto split: if_splits)
  next
    fix i j assume "i < NPROC" "j < NPROC" "(st(p := UNUSED)) i \<noteq> UNUSED" "(st(p := UNUSED)) j \<noteq> UNUSED"
      "(pid(p := 0)) i = (pid(p := 0)) j"
    then show "i = j" using I(3) [of i j] by (auto split: if_splits)
  next
    fix i assume "i < NPROC" "(st(p := UNUSED)) i = UNUSED"
    then show "(par(p := None)) i = None" using I(5) [of i] by (auto split: if_splits)
  qed (use I(1,7) in auto)
qed

text \<open>Giving up the CPU, and being given it.\<close>

lemma table_inv_leave:
  assumes "table_inv st pid par n ini (Some p)" and "alive x" and "x \<noteq> RUNNING"
  shows "table_inv (st(p := x)) pid par n ini None"
proof -
  note I = table_invD [OF assms(1)]
  have p: "p < NPROC" "st p = RUNNING" using I(7) [of p] I(8) [of p] by auto
  have u: "(st(p := x)) i = UNUSED \<longleftrightarrow> st i = UNUSED" "alive ((st(p := x)) i) \<longleftrightarrow> alive (st i)" for i
    using p(2) assms(2) by (auto simp: alive_def)
  show ?thesis
  proof (rule table_invI)
    fix i assume "i < NPROC"
    then show "(st(p := x)) i = RUNNING \<longleftrightarrow> None = Some i" using I(8) [of i] assms(3) by auto
  next
    fix i j assume "i < NPROC" "j < NPROC" "(st(p := x)) i \<noteq> UNUSED" "(st(p := x)) j \<noteq> UNUSED" "pid i = pid j"
    then show "i = j" unfolding u by (rule I(3))
  next
    fix i assume "i < NPROC" "(st(p := x)) i = UNUSED"
    then show "par i = None" unfolding u by (rule I(5))
  qed (unfold u, (rule I(1-6); assumption)+, simp)
qed

lemma table_inv_run:
  assumes "table_inv st pid par n ini None" and "p < NPROC" and "alive (st p)"
  shows "table_inv (st(p := RUNNING)) pid par n ini (Some p)"
proof -
  note I = table_invD [OF assms(1)]
  have u: "(st(p := RUNNING)) i = UNUSED \<longleftrightarrow> st i = UNUSED" "alive ((st(p := RUNNING)) i) \<longleftrightarrow> alive (st i)" for i
    using assms(3) by (auto simp: alive_def)
  show ?thesis
  proof (rule table_invI)
    fix i assume "i < NPROC"
    then show "(st(p := RUNNING)) i = RUNNING \<longleftrightarrow> Some p = Some i" using I(8) [of i] by auto
  next
    fix i j assume "i < NPROC" "j < NPROC" "(st(p := RUNNING)) i \<noteq> UNUSED" "(st(p := RUNNING)) j \<noteq> UNUSED" "pid i = pid j"
    then show "i = j" unfolding u by (rule I(3))
  next
    fix i assume "i < NPROC" "(st(p := RUNNING)) i = UNUSED"
    then show "par i = None" unfolding u by (rule I(5))
  qed (unfold u, (rule I(1-6); assumption)+, use assms(2) in simp)
qed

section \<open>The operations on the table\<close>

lemma upd_proc_simps [simp]:
  "procs (upd_proc p f s) = (procs s)(p := f (procs s p))" "nextpid (upd_proc p f s) = nextpid s"
  "initproc (upd_proc p f s) = initproc s" "cpuproc (upd_proc p f s) = cpuproc s" "km (upd_proc p f s) = km s"
  "ftable (upd_proc p f s) = ftable s" "ticks (upd_proc p f s) = ticks s"
  by (simp_all add: upd_proc_def)

lemma upd_mem_simps [simp]:
  "procs (upd_mem g s) = procs s" "nextpid (upd_mem g s) = nextpid s" "initproc (upd_mem g s) = initproc s"
  "cpuproc (upd_mem g s) = cpuproc s" "ftable (upd_mem g s) = ftable s" "ticks (upd_mem g s) = ticks s"
  by (simp_all add: upd_mem_def)

text \<open>States with the same table, as far as the invariant is concerned.\<close>

definition same_table :: "'a procst_scheme \<Rightarrow> 'a procst_scheme \<Rightarrow> bool" where
  "same_table s s' \<longleftrightarrow> states s' = states s \<and> pids s' = pids s \<and> parents s' = parents s \<and>
     nextpid s' = nextpid s \<and> initproc s' = initproc s \<and> cpuproc s' = cpuproc s"

lemma same_table_refl [simp]: "same_table s s"
  by (simp add: same_table_def)

lemma same_table_ok: "same_table s s' \<Longrightarrow> table_ok s \<Longrightarrow> table_ok s'"
  by (simp add: same_table_def table_ok_def)

lemma same_table_more:
  fixes s s' :: "'a procst_scheme"
  assumes "filest.more s' = filest.more s"
  shows "procs s' = procs s" "nextpid s' = nextpid s" "initproc s' = initproc s" "cpuproc s' = cpuproc s" "ticks s' = ticks s"
  using assms by (cases s; cases s'; simp)+

lemma table_ok_upd:
  "table_ok (upd_proc p f s) \<longleftrightarrow> table_inv ((states s)(p := pstate (f (procs s p)))) ((pids s)(p := ppid (f (procs s p))))
     ((parents s)(p := parent (f (procs s p)))) (nextpid s) (initproc s) (cpuproc s)"
proof -
  have "states (upd_proc p f s) = (states s)(p := pstate (f (procs s p)))"
    "pids (upd_proc p f s) = (pids s)(p := ppid (f (procs s p)))"
    "parents (upd_proc p f s) = (parents s)(p := parent (f (procs s p)))" by auto
  then show ?thesis by (simp add: table_ok_def del: upd_proc_simps(1))
qed

lemma find_slot:
  assumes "find P [a..<n] = Some i"
  shows "a \<le> i" "i < n" "P i"
  using assms by (auto simp: find_Some_iff)

lemma allocproc_spec:
  assumes "allocproc e s = (r, s')"
  shows "(r = None \<and> same_table s s') \<or>
    (\<exists>np. np < NPROC \<and> states s np = UNUSED \<and> nextpid s' = int32 (nextpid s + 1) \<and> initproc s' = initproc s \<and>
       cpuproc s' = cpuproc s \<and> parents s' = parents s \<and> pids s' = (pids s)(np := nextpid s) \<and> ftable s' = ftable s \<and>
       (\<forall>i. ofile (procs s' i) = ofile (procs s i)) \<and>
       (r = None \<and> states s' = states s \<or> r = Some np \<and> states s' = (states s)(np := EMBRYO)))"
proof (cases "find (\<lambda>i. pstate (procs s i) = UNUSED) [0..<NPROC]")
  case None
  then show ?thesis using assms by (simp add: allocproc_def)
next
  case (Some np)
  note np = find_slot [OF Some]
  show ?thesis
    using assms Some np by (auto simp: allocproc_def Let_def fun_eq_iff split: prod.splits if_splits)
qed

text \<open>Until the identifiers run out, the next one is one more.\<close>

definition pids_left :: "'a procst_scheme \<Rightarrow> bool" where
  "pids_left s \<longleftrightarrow> nextpid s < 2 ^ 31 - 1"

lemma next_pid: "table_ok s \<Longrightarrow> pids_left s \<Longrightarrow> int32 (nextpid s + 1) = nextpid s + 1"
  using table_invD(1) [of "states s" "pids s" "parents s" "nextpid s" "initproc s" "cpuproc s"]
  by (simp add: table_ok_def pids_left_def int32_id)

lemma allocproc_table:
  assumes "table_ok s" and "pids_left s" and "allocproc e s = (None, s')"
  shows "table_ok s'"
  using allocproc_spec [OF assms(3), unfolded next_pid [OF assms(1,2)]]
proof (elim disjE conjE exE)
  assume "same_table s s'"
  then show ?thesis using same_table_ok assms(1) by blast
next
  fix np assume "states s np = UNUSED" "nextpid s' = nextpid s + 1" "initproc s' = initproc s" "cpuproc s' = cpuproc s"
    "parents s' = parents s" "pids s' = (pids s)(np := nextpid s)" "states s' = states s"
  then show ?thesis using assms(1) table_inv_pid [of "states s" "pids s"] by (simp add: table_ok_def)
qed simp_all

lemma fork_files_table:
  "ensures (fork_files p np s) (same_table s)"
  unfolding fork_files_def
proof (rule ensures_foldo [where P = "same_table s"])
  fix i t assume "same_table s t"
  then show "ensures (case ofile (procs t p) i of None \<Rightarrow> Ret t
     | Some f \<Rightarrow> and_then (filedup f t) (\<lambda>(f, s). Ret (upd_proc np (\<lambda>x. x\<lparr>ofile := (ofile x)(i := Some f)\<rparr>) s))) (same_table s)"
    by (auto simp: filedup_def upd_file_def same_table_def fun_eq_iff split: option.splits)
qed simp

lemma table_okI:
  assumes "table_inv st pid par n ini cur" and "\<And>i. pstate (procs s i) = st i" and "\<And>i. ppid (procs s i) = pid i"
    and "\<And>i. parent (procs s i) = par i" and "nextpid s = n" and "initproc s = ini" and "cpuproc s = cur"
  shows "table_ok s"
  using assms by (simp add: table_ok_def)

lemma table_ok_inv: "table_ok s \<Longrightarrow> table_inv (states s) (pids s) (parents s) (nextpid s) (initproc s) (cpuproc s)"
  by (simp add: table_ok_def)

text \<open>The state after \<open>allocproc\<close> found slot \<open>np\<close>, and after the parent is set.\<close>

definition embryo :: "nat \<Rightarrow> nat option \<Rightarrow> 'a procst_scheme \<Rightarrow> 'a procst_scheme \<Rightarrow> bool" where
  "embryo np q s t \<longleftrightarrow> np < NPROC \<and> pstate (procs s np) = UNUSED \<and> nextpid t = int32 (nextpid s + 1) \<and> initproc t = initproc s \<and>
     cpuproc t = cpuproc s \<and> (\<forall>i. pstate (procs t i) = (if i = np then EMBRYO else pstate (procs s i))) \<and>
     (\<forall>i. ppid (procs t i) = (if i = np then nextpid s else ppid (procs s i))) \<and>
     (\<forall>i. parent (procs t i) = (if i = np \<and> q \<noteq> None then q else parent (procs s i)))"

lemma allocproc_embryo: "allocproc e s = (Some np, s') \<Longrightarrow> embryo np None s s'"
  using allocproc_spec [of e s "Some np" s'] by (auto simp: embryo_def fun_eq_iff)

lemma embryo_same: "embryo np q s t \<Longrightarrow> same_table t u \<Longrightarrow> embryo np q s u"
  by (simp add: embryo_def same_table_def fun_eq_iff)

lemma embryo_runnable:
  assumes ok: "table_ok s" "pids_left s" and p: "cpuproc s = Some p" and e: "embryo np (Some p) s t"
  shows "table_ok (upd_proc np (\<lambda>x. x\<lparr>pstate := RUNNABLE\<rparr>) t)"
  by (rule table_okI, rule table_inv_new [OF table_ok_inv [OF ok(1), unfolded p], of np])
    (use e p next_pid [OF ok] in \<open>simp_all add: embryo_def\<close>)

lemma embryo_undone:
  assumes ok: "table_ok s" "pids_left s" and e: "embryo np None s t"
  shows "table_ok (upd_proc np (\<lambda>x. x\<lparr>kstack := k, pstate := UNUSED\<rparr>) t)"
  by (rule table_okI, rule table_inv_pid [OF table_ok_inv [OF ok(1)], of np "nextpid s + 1" "nextpid s"])
    (use e next_pid [OF ok] in \<open>simp_all add: embryo_def\<close>)

lemma fork_child_table:
  assumes ok: "table_ok s" "pids_left s" and p: "cpuproc s = Some p" and e: "embryo np (Some p) s t"
  shows "ensures (and_then (fork_files p np t) (\<lambda>s.
              and_then (the_ip (pcwd (procs s p))) (\<lambda>cwd.
              case idup cwd s of (cwd, s) \<Rightarrow>
                let s = upd_proc np (\<lambda>x. x\<lparr>pcwd := Some cwd, pname := nm s\<rparr>) s;
                    pid = ppid (procs s np)
                in Ret (pid, upd_proc np (\<lambda>x. x\<lparr>pstate := RUNNABLE\<rparr>) s)))) (\<lambda>(r, s'). table_ok s')"
proof (rule ensures_and_then [OF fork_files_table], rule ensures_any)
  fix u ip assume u: "same_table t u"
  let ?v = "upd_proc np (\<lambda>x. x\<lparr>pcwd := Some ip, pname := nm (snd (idup ip u))\<rparr>) (snd (idup ip u))"
  have "embryo np (Some p) s ?v"
    using embryo_same [OF e u] by (simp add: embryo_def idup_def upd_inode_def)
  then show "ensures (case idup ip u of (cwd, s) \<Rightarrow>
                let s = upd_proc np (\<lambda>x. x\<lparr>pcwd := Some cwd, pname := nm s\<rparr>) s;
                    pid = ppid (procs s np)
                in Ret (pid, upd_proc np (\<lambda>x. x\<lparr>pstate := RUNNABLE\<rparr>) s)) (\<lambda>(r, s'). table_ok s')"
    using embryo_runnable [OF ok p] by (simp add: idup_def Let_def)
qed

lemma fork_table:
  assumes ok: "table_ok s" "pids_left s"
  shows "ensures (fork e s) (\<lambda>(r, s'). table_ok s')"
proof (cases "cpuproc s")
  case None
  then show ?thesis by (simp add: fork_def curproc_def)
next
  case (Some p)
  note p = this
  obtain r s1 where al: "allocproc e s = (r, s1)" by (cases "allocproc e s")
  show ?thesis
  proof (cases r)
    case None
    then show ?thesis using p al allocproc_table [OF ok] by (simp add: fork_def curproc_def)
  next
    case (Some np)
    have e0: "embryo np None s s1" using allocproc_embryo al Some by blast
    have un: "table_ok (upd_proc np (\<lambda>x. x\<lparr>kstack := 0, pstate := UNUSED\<rparr>) ((upd_proc np (\<lambda>x. x\<lparr>pgdir := d\<rparr>) (s1\<lparr>km := m\<rparr>))\<lparr>km := m'\<rparr>))" for d m m'
      by (rule embryo_undone [OF ok]) (use e0 in \<open>simp add: embryo_def\<close>)
    let ?t = "\<lambda>d m. upd_proc np (\<lambda>x. x\<lparr>pgdir := d\<rparr>) (s1\<lparr>km := m\<rparr>)"
    let ?u = "\<lambda>d m. upd_proc np (\<lambda>x. x\<lparr>psz := psz (procs (?t d m) p), parent := Some p\<rparr>) (?t d m)"
    have "embryo np (Some p) s (upd_mem g (?u d m))" for d m g
      using e0 by (simp add: embryo_def)
    note child = fork_child_table [OF ok p this]
    have kf: "ensures (and_then k (\<lambda>m'. Ret (r, upd_proc np (\<lambda>x. x\<lparr>kstack := 0, pstate := UNUSED\<rparr>) ((?t d m)\<lparr>km := m'\<rparr>))))
        (\<lambda>(r, s'). table_ok s')" for k d m and r :: int
      by (rule ensures_any) (simp add: un)
    show ?thesis
      unfolding fork_def curproc_def p al Some option.case and_then_simps prod.case
      by (rule ensures_any, unfold split_beta Let_def, rule ensures_if, rule kf [unfolded split_beta], rule child [unfolded split_beta Let_def])
  qed
qed

text \<open>Sleeping processes may become runnable; nothing else of the table changes.\<close>

definition woken :: "'a procst_scheme \<Rightarrow> 'a procst_scheme \<Rightarrow> bool" where
  "woken s s' \<longleftrightarrow>
     (\<forall>i. pstate (procs s' i) = pstate (procs s i) \<or> pstate (procs s i) = SLEEPING \<and> pstate (procs s' i) = RUNNABLE) \<and>
     (\<forall>i. ppid (procs s' i) = ppid (procs s i)) \<and> (\<forall>i. parent (procs s' i) = parent (procs s i)) \<and>
     nextpid s' = nextpid s \<and> initproc s' = initproc s \<and> cpuproc s' = cpuproc s"

lemma woken_refl [simp]: "woken s s"
  by (simp add: woken_def)

lemma woken_trans: "woken s t \<Longrightarrow> woken t u \<Longrightarrow> woken s u"
  unfolding woken_def by (metis procstate.distinct)

lemma same_woken: "same_table s s' \<Longrightarrow> woken s s'"
  by (simp add: same_table_def woken_def fun_eq_iff)

lemma woken_table:
  assumes "table_ok s" and "woken s s'"
  shows "table_ok s'"
  by (rule table_okI, rule table_inv_states [OF table_ok_inv [OF assms(1)], of "states s'"])
    (use assms(2) in \<open>auto simp: woken_def alive_def\<close>)

lemma wakeup1_woken: "woken s (wakeup1 ch s)"
  by (simp add: woken_def wakeup1_def Let_def)

lemma fold_woken: "(\<And>x t. woken t (f x t)) \<Longrightarrow> woken s (fold f xs s)"
proof (induction xs arbitrary: s)
  case (Cons x xs)
  show ?case using woken_trans [OF Cons.prems Cons.IH [OF Cons.prems]] by simp
qed simp

lemma deliver_woken: "woken s (deliver_wakeups s)"
proof -
  have "woken s (s\<lparr>wakeups := []\<rparr>)" by (simp add: woken_def)
  moreover have "woken (s\<lparr>wakeups := []\<rparr>) (fold (\<lambda>(a, c). wakeup (ChPipe a c)) (wakeups s) (s\<lparr>wakeups := []\<rparr>))"
    by (rule fold_woken) (auto simp: wakeup_def wakeup1_woken split: prod.splits)
  ultimately show ?thesis unfolding deliver_wakeups_def by (rule woken_trans)
qed

lemma more_same: "filest.more s' = filest.more s \<Longrightarrow> same_table s s'"
  using same_table_more [of s' s] by (simp add: same_table_def)

lemma exit_files_woken: "ensures (exit_files kend p s) (woken s)"
  unfolding exit_files_def
proof (rule ensures_foldo [where P = "woken s"])
  fix fd t assume t: "woken s t"
  show "ensures (case ofile (procs t p) fd of None \<Rightarrow> Ret t
     | Some f \<Rightarrow> and_then (fileclose kend f t) (\<lambda>s.
         Ret (upd_proc p (\<lambda>x. x\<lparr>ofile := (ofile x)(fd := None)\<rparr>) (deliver_wakeups s)))) (woken s)"
  proof (rule ensures_option)
    fix f
    show "ensures (and_then (fileclose kend f t) (\<lambda>s.
         Ret (upd_proc p (\<lambda>x. x\<lparr>ofile := (ofile x)(fd := None)\<rparr>) (deliver_wakeups s)))) (woken s)"
    proof (rule ensures_and_then [OF fileclose_frame])
      fix u :: "'a procst_scheme"
      assume u: "filest.more u = filest.more t \<and> 1 \<le> fref (ftable t f) \<and> ftable u = (ftable t)(f := closed_file (ftable t f))"
      have "woken t u" using u by (intro same_woken more_same) simp
      note st = woken_trans [OF woken_trans [OF t this] deliver_woken]
      have "woken (deliver_wakeups u) (upd_proc p (\<lambda>x. x\<lparr>ofile := (ofile x)(fd := None)\<rparr>) (deliver_wakeups u))"
        by (simp add: woken_def)
      from woken_trans [OF st this]
      show "ensures (Ret (upd_proc p (\<lambda>x. x\<lparr>ofile := (ofile x)(fd := None)\<rparr>) (deliver_wakeups u))) (woken s)" by simp
    qed
  qed (simp add: t)
qed simp

text \<open>The children of \<open>p\<close> in \<open>Q\<close> have \<open>init\<close> as their parent.\<close>

definition adopted :: "nat \<Rightarrow> nat \<Rightarrow> nat set \<Rightarrow> 'a procst_scheme \<Rightarrow> 'a procst_scheme \<Rightarrow> bool" where
  "adopted p ini Q s s' \<longleftrightarrow>
     (\<forall>i. pstate (procs s' i) = pstate (procs s i) \<or> pstate (procs s i) = SLEEPING \<and> pstate (procs s' i) = RUNNABLE) \<and>
     (\<forall>i. ppid (procs s' i) = ppid (procs s i)) \<and>
     (\<forall>i. parent (procs s' i) = (if i \<in> Q \<and> parent (procs s i) = Some p then Some ini else parent (procs s i))) \<and>
     nextpid s' = nextpid s \<and> initproc s' = initproc s \<and> cpuproc s' = cpuproc s"

lemma adopted_refl: "adopted p ini {} s s"
  by (simp add: adopted_def)

lemma adopted_trans:
  assumes "adopted p ini Q s t" and "adopted p ini R t u" and "ini \<noteq> p"
  shows "adopted p ini (Q \<union> R) s u"
proof -
  have "pstate (procs u i) = pstate (procs s i) \<or> pstate (procs s i) = SLEEPING \<and> pstate (procs u i) = RUNNABLE" for i
    using assms(1,2) unfolding adopted_def by (metis procstate.distinct)
  then show ?thesis using assms by (simp add: adopted_def)
qed

lemma reparent_adopted:
  assumes "initproc s = Some ini"
  shows "adopted p ini {q} s (reparent p q s)"
  using assms by (auto simp: reparent_def Let_def adopted_def wakeup1_def)

lemma reparent_fold:
  assumes "initproc s = Some ini" and "ini \<noteq> p"
  shows "adopted p ini (set xs) s (fold (reparent p) xs s)"
  using assms(1)
proof (induction xs arbitrary: s)
  case Nil
  then show ?case by (simp add: adopted_refl)
next
  case (Cons q xs)
  note a = reparent_adopted [OF Cons.prems, of p q]
  then have "initproc (reparent p q s) = Some ini" using Cons.prems by (simp add: adopted_def)
  from adopted_trans [OF a Cons.IH [OF this] assms(2)] show ?case by simp
qed

lemma sched_ensures:
  "(\<And>p. cpuproc s = Some p \<Longrightarrow> pstate (procs s p) \<noteq> RUNNING \<Longrightarrow> P (s\<lparr>cpuproc := None\<rparr>)) \<Longrightarrow> ensures (sched s) P"
  by (auto simp: sched_def curproc_def split: option.splits)

lemma exit_table_ok:
  assumes ok: "table_ok s" and p: "cpuproc s = Some p" and ini: "initproc s \<noteq> Some p"
  shows "ensures (exit_table p s) table_ok"
proof -
  obtain i0 where i0: "initproc s = Some i0" "i0 \<noteq> p" using table_invD(6) [OF table_ok_inv [OF ok]] ini by auto
  define t where "t = (case parent (procs s p) of Some q \<Rightarrow> wakeup1 (ChProc q) s | None \<Rightarrow> s)"
  have t: "woken s t" using wakeup1_woken by (auto simp: t_def split: option.splits)
  define u where "u = fold (reparent p) [0..<NPROC] t"
  have it: "initproc t = Some i0" using t i0 by (simp add: woken_def)
  have u: "adopted p i0 {0..<NPROC} t u" using reparent_fold [OF it i0(2), of "[0..<NPROC]"] by (simp add: u_def)
  have tok: "table_inv (states t) (pids t) (parents t) (nextpid t) (Some i0) (Some p)"
    using table_ok_inv [OF woken_table [OF ok t]] t p it by (simp add: woken_def)
  have "table_inv (states u) (pids t) (parents t) (nextpid t) (Some i0) (Some p)"
    by (rule table_inv_states [OF tok]) (use u in \<open>auto simp: adopted_def alive_def\<close>)
  note fin = table_inv_exit [OF this i0(2) [symmetric]]
  have "table_ok ((upd_proc p (\<lambda>x. x\<lparr>pstate := ZOMBIE\<rparr>) u)\<lparr>cpuproc := None\<rparr>)"
    by (rule table_okI [OF fin]) (use u it in \<open>auto simp: adopted_def\<close>)
  then show ?thesis unfolding exit_table_def t_def [symmetric] Let_def u_def [symmetric]
    by (auto intro!: sched_ensures)
qed

lemma exit_table_inv:
  assumes ok: "table_ok s"
  shows "ensures (exit kend s) table_ok"
proof (cases "cpuproc s")
  case None
  then show ?thesis by (simp add: exit_def curproc_def)
next
  case (Some p)
  have "ensures (exit_table p (upd_proc p (\<lambda>x. x\<lparr>pcwd := None\<rparr>) v)) table_ok"
    if u: "woken s u" and v: "same_table u v" and ini: "initproc s \<noteq> Some p" for u v
  proof (rule exit_table_ok)
    have "table_ok v" using woken_table [OF woken_table [OF ok u] same_woken [OF v]] .
    then show "table_ok (upd_proc p (\<lambda>x. x\<lparr>pcwd := None\<rparr>) v)"
      by (rule same_table_ok [rotated]) (simp add: same_table_def fun_eq_iff)
  qed (use u v Some ini in \<open>simp_all add: woken_def same_table_def\<close>)
  note fin = this
  have "ensures (and_then (begin_op u) (\<lambda>s.
       and_then (the_ip (pcwd (procs s p))) (\<lambda>cwd.
       and_then (iput cwd s) (\<lambda>s.
       and_then (end_op s) (\<lambda>s.
       exit_table p (upd_proc p (\<lambda>x. x\<lparr>pcwd := None\<rparr>) s)))))) table_ok"
    if u: "woken s u" and ini: "initproc s \<noteq> Some p" for u
    by (rule ensures_and_then [OF begin_op_fs [OF refl]], rule ensures_any, rule ensures_and_then [OF iput_fs], assumption,
        rule ensures_and_then [OF end_op_fs], assumption, rule fin [OF u more_same ini])
      (rule filest_more_fs(1), simp)
  then show ?thesis
    using Some by (auto simp: exit_def curproc_def intro!: ensures_and_then [OF exit_files_woken])
qed

lemma leave_table:
  assumes ok: "table_ok s" and p: "cpuproc s = Some p" and st: "alive st" "st \<noteq> RUNNING"
  shows "table_ok ((upd_proc p (\<lambda>x. x\<lparr>pchn := c x, pstate := st\<rparr>) s)\<lparr>cpuproc := None\<rparr>)"
  by (rule table_okI, rule table_inv_leave [OF table_ok_inv [OF ok, unfolded p] st]) auto

lemma sleep_table: "table_ok s \<Longrightarrow> ensures (sleep ch s) table_ok"
  using leave_table [of s _ SLEEPING "\<lambda>_. Some ch"]
  by (auto simp: sleep_def alive_def intro!: sched_ensures split: option.splits)

lemma yield_table: "table_ok s \<Longrightarrow> ensures (yield s) table_ok"
  using leave_table [of s _ RUNNABLE pchn]
  by (auto simp: yield_def curproc_def alive_def upd_proc_def intro!: sched_ensures split: option.splits)

lemma reap_table:
  assumes ok: "table_ok s" and p: "p < NPROC" "pstate (procs s p) = ZOMBIE"
  shows "ensures (reap kend p s) (\<lambda>(r, s'). table_ok s')"
proof -
  have "table_ok (upd_proc p (\<lambda>x. x\<lparr>kstack := 0, ppid := 0, parent := None, pname := (pname x)[0 := 0],
        killed := False, pstate := UNUSED\<rparr>) (s\<lparr>km := m\<rparr>))" for m
    by (rule table_okI, rule table_inv_reap [OF table_ok_inv [OF ok] p]) auto
  then show ?thesis by (simp add: reap_def Let_def) (rule ensures_any, rule ensures_any, simp)
qed

lemma wait_table:
  assumes ok: "table_ok s"
  shows "ensures (wait kend s) (\<lambda>(r, s'). table_ok s')"
proof -
  have r: "ensures (and_then (reap kend p s) (\<lambda>(pid, s). Ret (Some pid, s))) (\<lambda>(r, s'). table_ok s')"
    if "find (\<lambda>p. parent (procs s p) = Some me \<and> pstate (procs s p) = ZOMBIE) [0..<NPROC] = Some p" for me p
    by (rule ensures_and_then [OF reap_table [OF ok]]) (use find_slot [OF that] in auto)
  have "ensures (and_then (sleep (ChProc me) s) (\<lambda>s. Ret (None, s))) (\<lambda>(r, s'). table_ok s')" for me
    by (rule ensures_and_then [OF sleep_table [OF ok]]) simp
  then show ?thesis using r ok by (auto simp: wait_def curproc_def split: option.splits)
qed

lemma kill_table: "table_ok s \<Longrightarrow> table_ok (snd (kill pid s))"
  by (rule woken_table, assumption) (auto simp: kill_def Let_def woken_def split: option.splits)

lemma scheduler_table:
  assumes ok: "table_ok s" and c: "cpuproc s = None"
  shows "ensures (scheduler pos s) (\<lambda>(r, pos, s'). table_ok s')"
proof (cases "find (\<lambda>i. pstate (procs s i) = RUNNABLE) [pos..<NPROC]")
  case (Some p)
  note p = find_slot [OF Some]
  have "alive (states s p)" using p(3) by (simp add: alive_def)
  have "table_ok (upd_proc p (\<lambda>x. x\<lparr>pstate := RUNNING\<rparr>) (s\<lparr>cpuproc := Some p, curpid := ppid (procs s p)\<rparr>))"
    by (rule table_okI, rule table_inv_run [OF table_ok_inv [OF ok, unfolded c] p(2) \<open>alive (states s p)\<close>]) auto
  then show ?thesis using Some by (auto simp: scheduler_def Let_def intro!: ensures_any)
qed (simp add: scheduler_def ok)

lemma growproc_table: "table_ok s \<Longrightarrow> ensures (growproc e n s) (\<lambda>(r, s'). table_ok s')"
proof -
  assume ok: "table_ok s"
  have "table_ok (s\<lparr>km := m\<rparr>)" "table_ok (upd_proc p (\<lambda>x. x\<lparr>psz := sz\<rparr>) (s\<lparr>km := m\<rparr>))" for m p sz
    by (rule same_table_ok [OF _ ok], simp add: same_table_def fun_eq_iff)+
  then show ?thesis by (auto simp: growproc_def Let_def intro!: ensures_any split: prod.splits)
qed

section \<open>Runs\<close>

text \<open>The steps a kernel on one CPU takes on the table, in any order; the scheduler runs when no process does.\<close>

inductive proc_step :: "('a procst_scheme, 'e) penv_scheme \<Rightarrow> 'a procst_scheme \<Rightarrow> 'a procst_scheme \<Rightarrow> bool" for e where
  step_fork: "fork e s = Ret (r, s') \<Longrightarrow> proc_step e s s'"
| step_exit: "exit kend s = Ret s' \<Longrightarrow> proc_step e s s'"
| step_wait: "wait kend s = Ret (r, s') \<Longrightarrow> proc_step e s s'"
| step_kill: "kill pid s = (r, s') \<Longrightarrow> proc_step e s s'"
| step_sleep: "sleep ch s = Ret s' \<Longrightarrow> proc_step e s s'"
| step_yield: "yield s = Ret s' \<Longrightarrow> proc_step e s s'"
| step_wakeup: "proc_step e s (wakeup ch s)"
| step_schedule: "cpuproc s = None \<Longrightarrow> scheduler pos s = Ret (r, pos', s') \<Longrightarrow> proc_step e s s'"
| step_return: "proc_step e s (sleep_return p s)"
| step_grow: "growproc e n s = Ret (r, s') \<Longrightarrow> proc_step e s s'"

lemma proc_step_table:
  assumes "proc_step e s s'" and "table_ok s" and "pids_left s"
  shows "table_ok s'"
  using assms
proof cases
  case (step_kill pid r)
  then show ?thesis using kill_table [OF assms(2), of pid] by simp
next
  case (step_wakeup ch)
  then show ?thesis using woken_table [OF assms(2) wakeup1_woken] by (simp add: wakeup_def)
next
  case (step_return p)
  have "same_table s (sleep_return p s)" by (simp add: same_table_def sleep_return_def fun_eq_iff)
  then show ?thesis using same_table_ok step_return assms(2) by blast
qed (use assms(2,3) ensuresD [OF fork_table] ensuresD [OF exit_table_inv] ensuresD [OF wait_table] ensuresD [OF sleep_table]
    ensuresD [OF yield_table] ensuresD [OF scheduler_table] ensuresD [OF growproc_table] in fastforce)+

section \<open>The scheduler\<close>

text \<open>How many slots the scheduler looks at before slot \<open>i\<close> when it goes on at \<open>pos\<close>.\<close>

definition slots_ahead :: "nat \<Rightarrow> nat \<Rightarrow> nat" where
  "slots_ahead i pos = (if pos \<le> i then i - pos else NPROC - pos + i + 1)"

lemma find_first:
  assumes "find P [a..<n] = r" and "a \<le> i" and "i < n" and "P i"
  obtains p where "r = Some p" "a \<le> p" "p \<le> i" "P p"
proof (cases r)
  case None
  then show ?thesis using assms by (auto simp: find_None_iff)
next
  case (Some p)
  then have "a \<le> p" "P p" and first: "\<forall>j < p - a. \<not> P ([a..<n] ! j)"
    using assms(1) by (auto simp: find_Some_iff)
  have "p \<le> i"
  proof (rule ccontr)
    assume "\<not> p \<le> i"
    then have "i - a < p - a" using assms(2) by simp
    then show False using first assms(2-4) by auto
  qed
  then show ?thesis using that Some \<open>a \<le> p\<close> \<open>P p\<close> by blast
qed

lemma scheduler_progress:
  assumes run: "scheduler pos s = Ret (c, pos', s')" and i: "i < NPROC" "pstate (procs s i) = RUNNABLE" and pos: "pos \<le> NPROC"
  shows "c = Some i \<and> pstate (procs s' i) = RUNNING \<and> cpuproc s' = Some i \<or>
    slots_ahead i pos' < slots_ahead i pos \<and> pos' \<le> NPROC"
proof (cases "find (\<lambda>i. pstate (procs s i) = RUNNABLE) [pos..<NPROC]")
  case None
  then have "\<not> pos \<le> i" using i by (auto simp: find_None_iff)
  moreover have "pos' = 0" using run None by (simp add: scheduler_def)
  ultimately have "slots_ahead i pos' < slots_ahead i pos \<and> pos' \<le> NPROC"
    using pos unfolding slots_ahead_def by auto
  then show ?thesis ..
next
  case (Some p)
  note p = find_slot [OF Some]
  have c: "c = Some p" "pos' = Suc p" "pstate (procs s' p) = RUNNING" "cpuproc s' = Some p"
    using run Some by (auto simp: scheduler_def Let_def and_then_eq_Ret_iff)
  show ?thesis
  proof (cases "p = i")
    case False
    have "p < i" if "pos \<le> i" using find_first [OF Some that i] False by (metis le_neq_implies_less option.inject)
    then show ?thesis using c p False i pos by (auto simp: slots_ahead_def)
  qed (use c in simp)
qed

text \<open>
  C29. The scheduler is fair: take any run of it, with arbitrary activity between its decisions, in
  which process \<open>i\<close> stays runnable. Within \<open>NPROC + 1\<close> turns of its loop it switches to \<open>i\<close>.
\<close>

theorem scheduler_fair:
  assumes "\<And>k. k \<le> NPROC \<Longrightarrow> scheduler (pos k) (before k) = Ret (chosen k, pos (Suc k), after k)"
    and "i < NPROC" and "\<And>k. k \<le> NPROC \<Longrightarrow> pstate (procs (before k) i) = RUNNABLE" and "pos 0 \<le> NPROC"
  shows "\<exists>k \<le> NPROC. chosen k = Some i \<and> pstate (procs (after k) i) = RUNNING \<and> cpuproc (after k) = Some i"
proof (rule ccontr)
  assume never: "\<not> ?thesis"
  have "k \<le> NPROC + 1 \<Longrightarrow> slots_ahead i (pos k) + k \<le> slots_ahead i (pos 0) \<and> pos k \<le> NPROC" for k
  proof (induction k)
    case 0
    then show ?case using assms(4) by simp
  next
    case (Suc k)
    then have k: "k \<le> NPROC" and IH: "slots_ahead i (pos k) + k \<le> slots_ahead i (pos 0)" "pos k \<le> NPROC" by simp_all
    show ?case using scheduler_progress [OF assms(1) [OF k] assms(2) assms(3) [OF k] IH(2)] never k IH(1) by auto
  qed
  from this [of "NPROC + 1"] have "NPROC + 1 \<le> slots_ahead i (pos 0)" by simp
  then show False using assms(2,4) by (simp add: slots_ahead_def split: if_splits)
qed

section \<open>Exit, wait and kill\<close>

lemma wait_finds_zombie:
  assumes "p < NPROC" and "parent (procs t p) = Some q" and "pstate (procs t p) = ZOMBIE" and "cpuproc t = Some q"
  shows "wait kend t \<noteq> Ret (None, s'')"
proof -
  have "find (\<lambda>i. parent (procs t i) = Some q \<and> pstate (procs t i) = ZOMBIE) [0..<NPROC] \<noteq> None"
    using assms(1-3) by (subst find_None_iff) auto
  then show ?thesis using assms(4) by (auto simp: wait_def curproc_def and_then_eq_Ret_iff split: prod.splits)
qed

text \<open>
  C31. No exit is missed: when a process whose parent is another one exits, it becomes a zombie of
  that parent, a parent asleep in \<open>wait\<close> is made runnable, the children go to \<open>init\<close>, and the
  parent's next turn of the loop in \<open>wait\<close> does not go to sleep.
\<close>

theorem exit_wakes_parent:
  assumes "table_ok s" and "cpuproc s = Some p" and "initproc s \<noteq> Some p" and "parent (procs s p) = Some q" and "q \<noteq> p"
  shows "\<exists>s'. exit_table p s = Ret s' \<and> table_ok s' \<and> pstate (procs s' p) = ZOMBIE \<and> parent (procs s' p) = Some q \<and>
    (pstate (procs s q) = SLEEPING \<and> pchn (procs s q) = Some (ChProc q) \<longrightarrow> pstate (procs s' q) = RUNNABLE) \<and>
    (\<forall>i < NPROC. parent (procs s i) = Some p \<longrightarrow> parent (procs s' i) = initproc s) \<and>
    (\<forall>kend s''. wait kend (s'\<lparr>cpuproc := Some q\<rparr>) \<noteq> Ret (None, s''))"
proof -
  note I = table_invD [OF table_ok_inv [OF assms(1)]]
  obtain i0 where i0: "initproc s = Some i0" "i0 \<noteq> p" using I(6) assms(3) by auto
  have p: "p < NPROC" using I(7) assms(2) by simp
  have q: "q < NPROC" using I(4) [OF p assms(4)] by simp
  define u where "u = fold (reparent p) [0..<NPROC] (wakeup1 (ChProc q) s)"
  have it: "initproc (wakeup1 (ChProc q) s) = Some i0" using i0 by (simp add: wakeup1_def)
  have u: "adopted p i0 {0..<NPROC} (wakeup1 (ChProc q) s) u"
    using reparent_fold [OF it i0(2), of "[0..<NPROC]"] by (simp add: u_def)
  let ?s = "(upd_proc p (\<lambda>x. x\<lparr>pstate := ZOMBIE\<rparr>) u)\<lparr>cpuproc := None\<rparr>"
  have pa: "parent (procs ?s i) = (if i < NPROC \<and> parent (procs s i) = Some p then initproc s else parent (procs s i))" for i
    using u i0 by (auto simp: adopted_def wakeup1_def Let_def)
  have run: "exit_table p s = Ret ?s"
    using assms(2,4) u by (simp add: exit_table_def Let_def u_def sched_def curproc_def adopted_def wakeup1_def)
  moreover have "table_ok ?s" using ensuresD [OF exit_table_ok [OF assms(1-3)] run] .
  moreover have "pstate (procs ?s q) = RUNNABLE" if "pstate (procs s q) = SLEEPING \<and> pchn (procs s q) = Some (ChProc q)"
  proof -
    have "pstate (procs (wakeup1 (ChProc q) s) q) = RUNNABLE" using that q by (simp add: wakeup1_def)
    then show ?thesis using u assms(5) by (simp add: adopted_def) (metis procstate.distinct)
  qed
  moreover have pz: "parent (procs ?s p) = Some q" "pstate (procs ?s p) = ZOMBIE" using pa [of p] assms(4,5) by simp_all
  moreover have "wait kend (?s\<lparr>cpuproc := Some q\<rparr>) \<noteq> Ret (None, s'')" for kend s''
    by (rule wait_finds_zombie [OF p]) (use pz in simp_all)
  ultimately show ?thesis using pa by (intro exI [of _ ?s]) auto
qed

text \<open>
  C32. \<open>kill\<close> finds a process by its number alone: as free slots carry the number 0, \<open>kill(0)\<close>
  succeeds and marks the first free slot, and the next process created there is born killed.
\<close>

theorem kill_zero_marks_free_slot:
  assumes "find (\<lambda>i. ppid (procs s i) = 0) [0..<NPROC] = Some p"
    and "find (\<lambda>i. pstate (procs s i) = UNUSED) [0..<NPROC] = Some p" and "freelist (km s) \<noteq> 0"
  shows "\<exists>s' s''. kill 0 s = (0, s') \<and> allocproc e s' = (Some p, s'') \<and> killed (procs s'' p)"
proof -
  let ?s = "upd_proc p (\<lambda>x. x\<lparr>killed := True\<rparr>) s"
  have un: "pstate (procs s p) = UNUSED" using find_slot(3) [OF assms(2)] .
  have k: "kill 0 s = (0, ?s)" using assms(1) un by (simp add: kill_def)
  have "(\<lambda>i. pstate (procs ?s i) = UNUSED) = (\<lambda>i. pstate (procs s i) = UNUSED)" by auto
  then have "find (\<lambda>i. pstate (procs ?s i) = UNUSED) [0..<NPROC] = Some p" using assms(2) by simp
  then show ?thesis using k assms(3) by (auto simp: allocproc_def Let_def kalloc_def)
qed

text \<open>
  The bound on the identifiers is needed: after \<open>2 ^ 31 - 1\<close> has been given out the counter is
  negative, and the invariant is lost.
\<close>

lemma pids_run_out:
  assumes "nextpid s = 2 ^ 31 - 1" and "allocproc e s = (Some np, t)"
  shows "ppid (procs t np) = 2 ^ 31 - 1" and "nextpid t = - (2 ^ 31)" and "\<not> table_ok t"
proof -
  have t: "embryo np None s t" using allocproc_embryo assms(2) .
  show n: "nextpid t = - (2 ^ 31)" using t assms(1) int32_overflow by (simp add: embryo_def)
  show "ppid (procs t np) = 2 ^ 31 - 1" using t assms(1) by (simp add: embryo_def)
  show "\<not> table_ok t" using n by (simp add: table_ok_def table_inv_def)
qed

text \<open>
  C30. The process table stays consistent in every run in which \<open>nextpid\<close>, a 32-bit integer, has
  not reached its largest value before a step: identifiers of used slots are positive, different
  and already given out, every parent is a living process, so that every zombie has somebody to
  wait for it, free slots have no parent, and exactly the process on the CPU is running.
\<close>

theorem process_table_consistent:
  assumes "table_ok s" and "(\<lambda>t u. nextpid t < 2 ^ 31 - 1 \<and> proc_step e t u)\<^sup>*\<^sup>* s s'"
  shows "table_ok s'"
  using assms(2,1) by (induction rule: rtranclp_induct) (auto simp: pids_left_def intro: proc_step_table)

section \<open>Witnesses\<close>

text \<open>Process 1 (\<open>init\<close>) waits for its child, process 2, which runs; all other slots are free.\<close>

definition demo_proc :: "nat \<Rightarrow> kproc" where
  "demo_proc i = \<lparr>psz = 0, pgdir = (if i < 2 then 0x80300000 else 0), kstack = (if i < 2 then 0x80301000 else 0),
     pstate = (if i = 0 then SLEEPING else if i = 1 then RUNNING else UNUSED),
     ppid = (if i < 2 then int i + 1 else 0), parent = (if i = 1 then Some 0 else None), ptf = 0, pcontext = 0,
     pchn = (if i = 0 then Some (ChProc 0) else None), killed = False, ofile = \<lambda>_. None, pcwd = None, pname = []\<rparr>"

definition demo_pst :: procst where
  "demo_pst = filest.extend
     (fsst.extend (demo_fboot ()) (filest.fields \<lparr>use_lock = True, freelist = 0x80400000, memory = \<lambda>_. 0\<rparr>
        (\<lambda>_. pipe_init []) demo_open []))
     (procst.fields demo_proc (Some 0) 3 (Some 1) 0 False)"

lemma demo_pst_fields [simp]:
  "procs demo_pst = demo_proc" "initproc demo_pst = Some 0" "nextpid demo_pst = 3" "cpuproc demo_pst = Some 1"
  "freelist (km demo_pst) = 0x80400000"
  by (simp_all add: demo_pst_def filest.defs fsst.defs procst.defs)

lemma demo_table: "table_ok demo_pst"
  by (auto simp: table_ok_def table_inv_def alive_def demo_proc_def split: if_splits)

definition demo_penv :: "procst penv" where
  "demo_penv = \<lparr>kern_end = KERNLINK, dev_switch = (\<lambda>k. \<lparr>dev_read = None, dev_write = None\<rparr>), kern_data = 0x80108000,
     trapret_at = 0x80105000, forkret_at = 0x80104000, initcode = []\<rparr>"

theorem process_table_consistent_witness:
  "(\<lambda>t u. nextpid t < 2 ^ 31 - 1 \<and> proc_step demo_penv t u)\<^sup>*\<^sup>* demo_pst (wakeup ChTicks (snd (kill 1 demo_pst))) \<and>
     table_ok (wakeup ChTicks (snd (kill 1 demo_pst))) \<and> pstate (procs (snd (kill 1 demo_pst)) 0) = RUNNABLE"
proof -
  let ?R = "\<lambda>t u. nextpid t < 2 ^ 31 - 1 \<and> proc_step demo_penv t u"
  have "proc_step demo_penv demo_pst (snd (kill 1 demo_pst))" by (rule step_kill [OF prod.collapse [symmetric]])
  then have "?R demo_pst (snd (kill 1 demo_pst))" by simp
  moreover have "?R (snd (kill 1 demo_pst)) (wakeup ChTicks (snd (kill 1 demo_pst)))"
    by (simp add: step_wakeup kill_def demo_proc_def upt_rec)
  ultimately have r: "?R\<^sup>*\<^sup>* demo_pst (wakeup ChTicks (snd (kill 1 demo_pst)))"
    by (rule converse_rtranclp_into_rtranclp [OF _ r_into_rtranclp])
  moreover have "pstate (procs (snd (kill 1 demo_pst)) 0) = RUNNABLE"
    by (simp add: kill_def demo_proc_def upt_rec)
  ultimately show ?thesis using process_table_consistent [OF demo_table r] by blast
qed

theorem exit_wakes_parent_witness:
  "\<exists>s'. exit_table 1 demo_pst = Ret s' \<and> pstate (procs s' 1) = ZOMBIE \<and> pstate (procs s' 0) = RUNNABLE \<and>
     wait KERNLINK (s'\<lparr>cpuproc := Some 0\<rparr>) \<noteq> Ret (None, s')"
  using exit_wakes_parent [OF demo_table, of 1 0] by (auto simp: demo_proc_def)

theorem kill_zero_marks_free_slot_witness:
  "\<exists>s' s''. kill 0 demo_pst = (0, s') \<and> allocproc demo_penv s' = (Some 2, s'') \<and> killed (procs s'' 2)"
  by (rule kill_zero_marks_free_slot) (simp_all add: demo_proc_def upt_rec)

text \<open>Slot 0 runnable at every turn, the scheduler alternating between it and the end of the table.\<close>

definition demo_ready_pst :: procst where
  "demo_ready_pst = demo_pst\<lparr>procs := demo_proc(0 := (demo_proc 0)\<lparr>pstate := RUNNABLE\<rparr>), cpuproc := None\<rparr>"

lemma demo_turns:
  "scheduler 0 demo_ready_pst = Ret (Some 0, 1, upd_proc 0 (\<lambda>x. x\<lparr>pstate := RUNNING\<rparr>) (demo_ready_pst\<lparr>cpuproc := Some 0, curpid := 1\<rparr>))"
  "scheduler 1 demo_ready_pst = Ret (None, 0, demo_ready_pst)"
  by (simp_all add: scheduler_def demo_ready_pst_def demo_proc_def upt_rec switchuvm_def Let_def)

theorem scheduler_fair_witness:
  "\<exists>k \<le> NPROC. (if even k then Some 0 else None) = Some (0 :: nat) \<and>
     pstate (procs (if even k then upd_proc 0 (\<lambda>x. x\<lparr>pstate := RUNNING\<rparr>) (demo_ready_pst\<lparr>cpuproc := Some 0, curpid := 1\<rparr>)
       else demo_ready_pst) 0) = RUNNING"
proof -
  let ?a = "\<lambda>k :: nat. if even k then upd_proc 0 (\<lambda>x. x\<lparr>pstate := RUNNING\<rparr>) (demo_ready_pst\<lparr>cpuproc := Some 0, curpid := 1\<rparr>) else demo_ready_pst"
  have "scheduler (k mod 2) demo_ready_pst = Ret (if even k then Some 0 else None, Suc k mod 2, ?a k)" for k
    using demo_turns by (cases "even k") (auto simp: odd_iff_mod_2_eq_one)
  from scheduler_fair [of "\<lambda>k. k mod 2" "\<lambda>_. demo_ready_pst" "\<lambda>k. if even k then Some 0 else None" ?a 0, OF this]
  show ?thesis by (auto simp: demo_ready_pst_def)
qed

end
