(* ===== verification/Syscall.thy ===== *)
theory Syscall
  imports Proc_Table
begin

text \<open>
  Fetching the arguments of system calls (\<^verbatim>\<open>syscall.c\<close>) and the calls on processes
  (\<^verbatim>\<open>sysproc.c\<close>). A user address is read through the page table of the current process; an
  address that is not mapped makes the kernel trap, which is a panic (\<open>trap\<close>). A result \<open>None\<close>
  stands for the return value -1.
\<close>

section \<open>Definitions\<close>

subsection \<open>User memory\<close>

text \<open>What the hardware does with an access of the kernel; with write protection on, as \<^verbatim>\<open>entry.S\<close> sets it.\<close>

definition user_addr :: "mem \<Rightarrow> u32 \<Rightarrow> bool \<Rightarrow> u32 \<Rightarrow> u32 outcome" where
  "user_addr m d w a =
     (case translate m d a of
        None \<Rightarrow> Panic ''trap''
      | Some (pa, fl) \<Rightarrow> if w \<and> fl AND PTE_W = 0 then Panic ''trap'' else Ret (P2V pa + (a AND 0xFFF)))"

definition uload8 :: "mem \<Rightarrow> u32 \<Rightarrow> u32 \<Rightarrow> u8 outcome" where
  "uload8 m d a = and_then (user_addr m d False a) (\<lambda>k. Ret (m k))"

definition uload32 :: "mem \<Rightarrow> u32 \<Rightarrow> u32 \<Rightarrow> u32 outcome" where
  "uload32 m d a =
     and_then (uload8 m d a) (\<lambda>b0. and_then (uload8 m d (a + 1)) (\<lambda>b1.
     and_then (uload8 m d (a + 2)) (\<lambda>b2. and_then (uload8 m d (a + 3)) (\<lambda>b3.
     Ret (le32 b0 b1 b2 b3)))))"

primrec uread :: "mem \<Rightarrow> u32 \<Rightarrow> u32 \<Rightarrow> nat \<Rightarrow> bytes outcome" where
  "uread m d a 0 = Ret []"
| "uread m d a (Suc n) = and_then (uload8 m d a) (\<lambda>b. and_then (uread m d (a + 1) n) (\<lambda>bs. Ret (b # bs)))"

primrec uwrite :: "u32 \<Rightarrow> u32 \<Rightarrow> bytes \<Rightarrow> mem \<Rightarrow> mem outcome" where
  "uwrite d a [] m = Ret m"
| "uwrite d a (b # bs) m = and_then (user_addr m d True a) (\<lambda>k. uwrite d (a + 1) bs (m(k := b)))"

definition user_write :: "nat \<Rightarrow> u32 \<Rightarrow> bytes \<Rightarrow> 'a procst_scheme \<Rightarrow> 'a procst_scheme outcome" where
  "user_write p a bs s =
     and_then (uwrite (pgdir (procs s p)) a bs (memory (km s))) (\<lambda>m. Ret (upd_mem (\<lambda>_. m) s))"

subsection \<open>syscall.c\<close>

definition fetchint :: "nat \<Rightarrow> u32 \<Rightarrow> 'a procst_scheme \<Rightarrow> u32 option outcome" where
  "fetchint p addr s =
     (if addr \<ge> psz (procs s p) \<or> addr + 4 > psz (procs s p) then Ret None
      else and_then (uload32 (memory (km s)) (pgdir (procs s p)) addr) (\<lambda>v. Ret (Some v)))"

lemma below_next: "a < (ep :: u32) \<Longrightarrow> unat ep - unat (a + 1) < unat ep - unat a"
proof -
  assume "a < ep"
  then have "unat (a + 1) = unat a + 1" using unat_u32_less [of ep] by (subst unat_add_u32) (auto simp: word_less_nat_alt)
  then show ?thesis using \<open>a < ep\<close> by (simp add: word_less_nat_alt)
qed

function fetchstr_loop :: "mem \<Rightarrow> u32 \<Rightarrow> u32 \<Rightarrow> u32 \<Rightarrow> bytes option outcome" where
  "fetchstr_loop m d a ep =
     (if a < ep then
        and_then (uload8 m d a) (\<lambda>c.
        if c = 0 then Ret (Some [])
        else and_then (fetchstr_loop m d (a + 1) ep) (\<lambda>r. Ret (map_option (Cons c) r)))
      else Ret None)"
  by pat_completeness auto

termination
  using below_next by (relation "measure (\<lambda>(m, d, a, ep). unat ep - unat a)") auto

declare fetchstr_loop.simps [simp del]

text \<open>The string found, whose length the code returns.\<close>

definition fetchstr :: "nat \<Rightarrow> u32 \<Rightarrow> 'a procst_scheme \<Rightarrow> bytes option outcome" where
  "fetchstr p addr s =
     (if addr \<ge> psz (procs s p) then Ret None
      else fetchstr_loop (memory (km s)) (pgdir (procs s p)) addr (psz (procs s p)))"

definition argint :: "nat \<Rightarrow> u32 \<Rightarrow> 'a procst_scheme \<Rightarrow> u32 option outcome" where
  "argint p n s = fetchint p (load32 (memory (km s)) (ptf (procs s p) + TF_ESP) + 4 + 4 * n) s"

definition argptr :: "nat \<Rightarrow> u32 \<Rightarrow> int \<Rightarrow> 'a procst_scheme \<Rightarrow> u32 option outcome" where
  "argptr p n sz s =
     and_then (argint p n s) (\<lambda>r. case r of
       None \<Rightarrow> Ret None
     | Some i \<Rightarrow>
         if sz < 0 \<or> i \<ge> psz (procs s p) \<or> i + of_int sz > psz (procs s p) then Ret None
         else Ret (Some i))"

definition argstr :: "nat \<Rightarrow> u32 \<Rightarrow> 'a procst_scheme \<Rightarrow> bytes option outcome" where
  "argstr p n s = and_then (argint p n s) (\<lambda>r. case r of None \<Rightarrow> Ret None | Some addr \<Rightarrow> fetchstr p addr s)"

text \<open>Continuing with an argument, or returning -1.\<close>

definition arg :: "'b option outcome \<Rightarrow> 's \<Rightarrow> ('b \<Rightarrow> (int \<times> 's) outcome) \<Rightarrow> (int \<times> 's) outcome" where
  "arg m s f = and_then m (\<lambda>r. case r of None \<Rightarrow> Ret (- 1, s) | Some x \<Rightarrow> f x)"

subsection \<open>sysproc.c\<close>

text \<open>\<open>exit\<close> does not return; a \<open>wait\<close> or \<open>sleep\<close> that has to sleep is \<open>Block\<close>.\<close>

definition sys_fork :: "('a procst_scheme, 'e) penv_scheme \<Rightarrow> 'a procst_scheme \<Rightarrow> (int \<times> 'a procst_scheme) outcome" where
  "sys_fork e s = fork e s"

definition sys_exit :: "('a procst_scheme, 'e) penv_scheme \<Rightarrow> 'a procst_scheme \<Rightarrow> (int \<times> 'a procst_scheme) outcome" where
  "sys_exit e s = and_then (exit (kern_end e) s) (\<lambda>s. Ret (0, s))"

definition sys_wait :: "('a procst_scheme, 'e) penv_scheme \<Rightarrow> 'a procst_scheme \<Rightarrow> (int \<times> 'a procst_scheme) outcome" where
  "sys_wait e s = and_then (wait (kern_end e) s) (\<lambda>(r, s). case r of Some pid \<Rightarrow> Ret (pid, s) | None \<Rightarrow> Block ''wait'')"

definition sys_kill :: "'a procst_scheme \<Rightarrow> (int \<times> 'a procst_scheme) outcome" where
  "sys_kill s = and_then (curproc s) (\<lambda>p. arg (argint p 0 s) s (\<lambda>pid. Ret (kill (sint pid) s)))"

definition sys_getpid :: "'a procst_scheme \<Rightarrow> (int \<times> 'a procst_scheme) outcome" where
  "sys_getpid s = and_then (curproc s) (\<lambda>p. Ret (ppid (procs s p), s))"

definition sys_sbrk :: "('a procst_scheme, 'e) penv_scheme \<Rightarrow> 'a procst_scheme \<Rightarrow> (int \<times> 'a procst_scheme) outcome" where
  "sys_sbrk e s =
     and_then (curproc s) (\<lambda>p.
     arg (argint p 0 s) s (\<lambda>n.
     let addr = sint (psz (procs s p)) in
     and_then (growproc e (sint n) s) (\<lambda>(r, s).
     if r < 0 then Ret (- 1, s) else Ret (addr, s))))"

text \<open>The loop of \<open>sys_sleep\<close>: \<open>ticks - ticks0 < n\<close> compares as unsigned.\<close>

definition sys_sleep_turn :: "nat \<Rightarrow> u32 \<Rightarrow> u32 \<Rightarrow> 'a procst_scheme \<Rightarrow> (int option \<times> 'a procst_scheme) outcome" where
  "sys_sleep_turn p ticks0 n s =
     (if ticks s - ticks0 < n then
        if killed (procs s p) then Ret (Some (- 1), s)
        else and_then (sleep ChTicks s) (\<lambda>s. Ret (None, s))
      else Ret (Some 0, s))"

definition sys_sleep :: "'a procst_scheme \<Rightarrow> (int \<times> 'a procst_scheme) outcome" where
  "sys_sleep s =
     and_then (curproc s) (\<lambda>p.
     arg (argint p 0 s) s (\<lambda>n.
     and_then (sys_sleep_turn p (ticks s) n s) (\<lambda>(r, s).
     case r of Some v \<Rightarrow> Ret (v, s) | None \<Rightarrow> Block ''sleep'')))"

definition sys_uptime :: "'a procst_scheme \<Rightarrow> (int \<times> 'a procst_scheme) outcome" where
  "sys_uptime s = Ret (sint (ticks s), s)"

section \<open>Arguments stay within the process\<close>

text \<open>Every address below the size of the process is mapped, as \<open>allocuvm\<close> and \<open>copyuvm\<close> leave it.\<close>

definition user_mapped :: "nat \<Rightarrow> 'a procst_scheme \<Rightarrow> bool" where
  "user_mapped p s \<longleftrightarrow> psz (procs s p) \<le> KERNBASE \<and>
     (\<forall>a < psz (procs s p). translate (memory (km s)) (pgdir (procs s p)) a \<noteq> None)"

lemma uload8_mapped: "user_mapped p s \<Longrightarrow> a < psz (procs s p) \<Longrightarrow>
    \<exists>b. uload8 (memory (km s)) (pgdir (procs s p)) a = Ret b"
  by (auto simp: user_mapped_def uload8_def user_addr_def)

lemma add_below:
  assumes "a < sz" and "sz \<le> (KERNBASE :: u32)" and "k < 2 ^ 31"
  shows "unat (a + of_nat k) = unat a + k"
proof -
  have "unat a < 2147483648" using assms(1,2) by (simp add: word_less_nat_alt word_le_nat_alt)
  then show ?thesis using assms(3) by (subst unat_add_u32) (simp_all add: unat_of_nat_u32)
qed

lemma fetchint_mapped:
  assumes m: "user_mapped p s"
  shows "\<exists>r. fetchint p addr s = Ret r"
proof (cases "addr \<ge> psz (procs s p) \<or> addr + 4 > psz (procs s p)")
  case False
  let ?sz = "psz (procs s p)"
  have sz: "?sz \<le> KERNBASE" "addr < ?sz" using m False by (auto simp: user_mapped_def)
  have "unat (addr + 4) \<le> unat ?sz" using False by (simp add: word_le_nat_alt not_less)
  then have "addr + of_nat k < ?sz" if "k < 4" for k
    using add_below [OF sz(2,1), of k] add_below [OF sz(2,1), of 4] that by (simp add: word_less_nat_alt)
  note b = uload8_mapped [OF m this]
  obtain b0 b1 b2 b3 where "uload8 (memory (km s)) (pgdir (procs s p)) addr = Ret b0"
    "uload8 (memory (km s)) (pgdir (procs s p)) (addr + 1) = Ret b1"
    "uload8 (memory (km s)) (pgdir (procs s p)) (addr + 2) = Ret b2"
    "uload8 (memory (km s)) (pgdir (procs s p)) (addr + 3) = Ret b3"
    using b [of 0] b [of 1] b [of 2] b [of 3] by auto
  then show ?thesis using False by (simp add: fetchint_def uload32_def)
qed (simp add: fetchint_def)

lemma fetchstr_loop_mapped:
  assumes "user_mapped p s" and "ep \<le> psz (procs s p)"
  shows "\<exists>r. fetchstr_loop (memory (km s)) (pgdir (procs s p)) a ep = Ret r \<and>
    (\<forall>cs. r = Some cs \<longrightarrow> 0 \<notin> set cs \<and> unat a + length cs < unat ep)"
proof (induction "unat ep - unat a" arbitrary: a rule: less_induct)
  case less
  show ?case
  proof (cases "a < ep")
    case True
    have lt: "unat (a + 1) = unat a + 1"
      using True unat_u32_less [of ep] by (subst unat_add_u32) (auto simp: word_less_nat_alt)
    obtain c where c: "uload8 (memory (km s)) (pgdir (procs s p)) a = Ret c"
      using uload8_mapped [OF assms(1)] True assms(2) by (meson order_less_le_trans)
    obtain r where r: "fetchstr_loop (memory (km s)) (pgdir (procs s p)) (a + 1) ep = Ret r"
      "\<forall>cs. r = Some cs \<longrightarrow> 0 \<notin> set cs \<and> unat (a + 1) + length cs < unat ep"
      using less.hyps [OF below_next [OF True]] by blast
    have "fetchstr_loop (memory (km s)) (pgdir (procs s p)) a ep =
        Ret (if c = 0 then Some [] else map_option (Cons c) r)"
      using True c r(1) by (subst fetchstr_loop.simps) simp
    moreover have "0 \<notin> set cs \<and> unat a + length cs < unat ep"
      if "(if c = 0 then Some [] else map_option (Cons c) r) = Some cs" for cs
      using that r(2) lt True by (auto simp: word_less_nat_alt split: if_splits)
    ultimately show ?thesis by blast
  qed (subst fetchstr_loop.simps, simp)
qed

lemma fetchstr_mapped:
  assumes "user_mapped p s"
  shows "\<exists>r. fetchstr p a s = Ret r \<and>
    (\<forall>cs. r = Some cs \<longrightarrow> 0 \<notin> set cs \<and> unat a + length cs < unat (psz (procs s p)))"
  using fetchstr_loop_mapped [OF assms order_refl] by (simp add: fetchstr_def)

lemma in_range:
  assumes "user_mapped p s" and "0 \<le> sz" and "sz < 2 ^ 31"
    and "a < psz (procs s p)" and "a + of_int sz \<le> psz (procs s p)"
  shows "unat a + nat sz \<le> unat (psz (procs s p))"
proof -
  have "a + of_int sz = a + of_nat (nat sz)" using assms(2) by simp
  moreover have "unat (a + of_nat (nat sz)) = unat a + nat sz"
    using assms by (intro add_below [OF assms(4)]) (auto simp: user_mapped_def)
  ultimately show ?thesis using assms(5) by (simp add: word_le_nat_alt)
qed

text \<open>
  C33. Whatever a user program puts on its stack, fetching system call arguments neither traps nor
  leaves the process: a pointer that \<open>argptr\<close> accepts, for any size a C \<open>int\<close> holds, has all its
  bytes below the size of the process, without wrap-around, and a string that \<open>argstr\<close> accepts
  ends, with its NUL, below it.
\<close>

theorem syscall_arguments_bounded:
  assumes m: "user_mapped p s" and sz: "sz < 2 ^ 31"
  shows "\<exists>r q t. argint p n s = Ret r \<and> argptr p n sz s = Ret q \<and> argstr p n s = Ret t \<and>
    (\<forall>a. q = Some a \<longrightarrow> r = Some a \<and> 0 \<le> sz \<and> unat a + nat sz \<le> unat (psz (procs s p))) \<and>
    (\<forall>cs. t = Some cs \<longrightarrow> 0 \<notin> set cs \<and>
       (\<exists>a. r = Some a \<and> unat a + length cs < unat (psz (procs s p))))"
proof -
  obtain r where r: "argint p n s = Ret r" unfolding argint_def using fetchint_mapped [OF m] by blast
  show ?thesis
  proof (cases r)
    case None
    then show ?thesis using r by (simp add: argptr_def argstr_def)
  next
    case (Some a)
    obtain t where t: "fetchstr p a s = Ret t"
      "\<forall>cs. t = Some cs \<longrightarrow> 0 \<notin> set cs \<and> unat a + length cs < unat (psz (procs s p))"
      using fetchstr_mapped [OF m] by blast
    have "argstr p n s = Ret t" using r Some t by (simp add: argstr_def)
    moreover have "argptr p n sz s = Ret None \<or> argptr p n sz s = Ret (Some a) \<and> 0 \<le> sz \<and>
        unat a + nat sz \<le> unat (psz (procs s p))"
      using in_range [OF m _ sz, of a] r Some by (simp add: argptr_def not_le not_less)
    ultimately show ?thesis using r Some t(2) by (elim disjE) simp_all
  qed
qed

text \<open>A process all of whose pages are mapped, with an argument on its stack that is a valid pointer.\<close>

definition demo_user :: procst where
  "demo_user = demo_pst\<lparr>km := (km demo_pst)\<lparr>memory := \<lambda>_. 1\<rparr>,
     procs := demo_proc(1 := (demo_proc 1)\<lparr>psz := 0x2000000\<rparr>)\<rparr>"

lemma demo_user_fields [simp]:
  "memory (km demo_user) = (\<lambda>_. 1)" "psz (procs demo_user (Suc 0)) = 0x2000000"
  by (simp_all add: demo_user_def)

lemma load32_ones [simp]: "load32 (\<lambda>_. 1) a = 0x1010101"
  by (simp add: load32_def le32_def)

lemma translate_ones [simp]: "translate (\<lambda>_. 1) d a = Some (0x1010000, 0x101)"
  by (simp add: translate_def present_def PTE_ADDR_def PTE_FLAGS_def)

lemma demo_user_mapped: "user_mapped 1 demo_user"
  by (simp add: user_mapped_def)

theorem syscall_arguments_bounded_witness:
  "argptr 1 0 8 demo_user = Ret (Some 0x1010101) \<and> unat (0x1010101 :: u32) + 8 \<le> unat (psz (procs demo_user 1))"
proof -
  have "argint 1 0 demo_user = Ret (Some 0x1010101)"
    by (simp add: argint_def fetchint_def uload32_def uload8_def user_addr_def le32_def)
  moreover from this have "argptr 1 0 8 demo_user = Ret (Some 0x1010101)" by (simp add: argptr_def)
  ultimately show ?thesis using syscall_arguments_bounded [OF demo_user_mapped, of 8 0] by (simp; elim exE conjE; simp)
qed

end
