(* ===== verification/Sysfile.thy ===== *)
theory Sysfile
  imports Syscall
begin

text \<open>
  The system calls on files (\<^verbatim>\<open>sysfile.c\<close>) except \<open>sys_exec\<close>: descriptors of the current
  process, and links, directories and devices in the file system. Every call is given its
  arguments through theory \<open>Syscall\<close> and returns what it leaves in \<open>eax\<close>. Files are named by
  their index in the table of open files and inodes by their index in the cache.
\<close>

section \<open>Definitions\<close>

abbreviation (input) O_RDONLY :: u32 where "O_RDONLY \<equiv> 0"
abbreviation (input) O_WRONLY :: u32 where "O_WRONLY \<equiv> 1"
abbreviation (input) O_RDWR :: u32 where "O_RDWR \<equiv> 2"
abbreviation (input) O_CREATE :: u32 where "O_CREATE \<equiv> 0x200"

subsection \<open>Descriptors\<close>

definition argfd :: "nat \<Rightarrow> u32 \<Rightarrow> 'a procst_scheme \<Rightarrow> (nat \<times> nat) option outcome" where
  "argfd p n s =
     and_then (argint p n s) (\<lambda>r. case r of
       None \<Rightarrow> Ret None
     | Some w \<Rightarrow>
         let fd = sint w in
         if fd < 0 \<or> fd \<ge> int NOFILE then Ret None
         else case ofile (procs s p) (nat fd) of
           None \<Rightarrow> Ret None
         | Some f \<Rightarrow> Ret (Some (nat fd, f)))"

definition set_fd :: "nat \<Rightarrow> nat \<Rightarrow> nat option \<Rightarrow> 'a procst_scheme \<Rightarrow> 'a procst_scheme" where
  "set_fd p fd fo s = upd_proc p (\<lambda>x. x\<lparr>ofile := (ofile x)(fd := fo)\<rparr>) s"

definition fdalloc :: "nat \<Rightarrow> nat \<Rightarrow> 'a procst_scheme \<Rightarrow> nat option \<times> 'a procst_scheme" where
  "fdalloc p f s =
     (case find (\<lambda>fd. ofile (procs s p) fd = None) [0..<NOFILE] of
        Some fd \<Rightarrow> (Some fd, set_fd p fd (Some f) s)
      | None \<Rightarrow> (None, s))"

definition sys_dup :: "'a procst_scheme \<Rightarrow> (int \<times> 'a procst_scheme) outcome" where
  "sys_dup s =
     and_then (curproc s) (\<lambda>p.
     arg (argfd p 0 s) s (\<lambda>(_, f).
     case fdalloc p f s of
       (None, s) \<Rightarrow> Ret (- 1, s)
     | (Some fd, s) \<Rightarrow> and_then (filedup f s) (\<lambda>(_, s). Ret (int fd, s))))"

text \<open>
  The kernel reads and writes the buffer of the process through its page table, while the file
  operation runs; the model does so before \<open>filewrite\<close>, which reads nothing when the file is not
  writable, and after \<open>fileread\<close>.
\<close>

definition sys_read :: "('a procst_scheme, 'e) penv_scheme \<Rightarrow> 'a procst_scheme \<Rightarrow> (int \<times> 'a procst_scheme) outcome" where
  "sys_read e s =
     and_then (curproc s) (\<lambda>p.
     arg (argfd p 0 s) s (\<lambda>(_, f).
     arg (argint p 2 s) s (\<lambda>n.
     arg (argptr p 1 (sint n) s) s (\<lambda>a.
     and_then (fileread (kenv.truncate e) (killed (procs s p)) f (sint n) s) (\<lambda>(r, got, s).
     and_then (user_write p a got (deliver_wakeups s)) (\<lambda>s. Ret (r, s)))))))"

definition sys_write :: "('a procst_scheme, 'e) penv_scheme \<Rightarrow> 'a procst_scheme \<Rightarrow> (int \<times> 'a procst_scheme) outcome" where
  "sys_write e s =
     and_then (curproc s) (\<lambda>p.
     arg (argfd p 0 s) s (\<lambda>(_, f).
     arg (argint p 2 s) s (\<lambda>n.
     arg (argptr p 1 (sint n) s) s (\<lambda>a.
     and_then (if writable (ftable s f) then uread (memory (km s)) (pgdir (procs s p)) a (unat n) else Ret []) (\<lambda>buf.
     and_then (filewrite (kenv.truncate e) (killed (procs s p)) f buf (sint n) s) (\<lambda>(r, s).
     Ret (r, deliver_wakeups s)))))))"

definition sys_close :: "('a procst_scheme, 'e) penv_scheme \<Rightarrow> 'a procst_scheme \<Rightarrow> (int \<times> 'a procst_scheme) outcome" where
  "sys_close e s =
     and_then (curproc s) (\<lambda>p.
     arg (argfd p 0 s) s (\<lambda>(fd, f).
     and_then (fileclose (kern_end e) f (set_fd p fd None s)) (\<lambda>s.
     Ret (0, deliver_wakeups s))))"

definition sys_lseek :: "'a procst_scheme \<Rightarrow> (int \<times> 'a procst_scheme) outcome" where
  "sys_lseek s =
     and_then (curproc s) (\<lambda>p.
     arg (argfd p 0 s) s (\<lambda>(_, f).
     arg (argint p 1 s) s (\<lambda>offset.
     arg (argint p 2 s) s (\<lambda>whence.
     filelseek f offset (sint whence) s))))"

text \<open>\<open>struct stat\<close> in memory: the bytes between the fields are not written.\<close>

definition bytes16 :: "u16 \<Rightarrow> bytes" where
  "bytes16 v = [ubyte 0 v, ubyte 1 v]"

definition bytes32 :: "u32 \<Rightarrow> bytes" where
  "bytes32 v = [ubyte 0 v, ubyte 1 v, ubyte 2 v, ubyte 3 v]"

definition put_stat :: "nat \<Rightarrow> u32 \<Rightarrow> stat \<Rightarrow> 'a procst_scheme \<Rightarrow> 'a procst_scheme outcome" where
  "put_stat p a st s =
     and_then (user_write p (a + 4) (bytes32 (st_dev st)) s) (\<lambda>s.
     and_then (user_write p (a + 8) (bytes32 (st_ino st)) s) (\<lambda>s.
     and_then (user_write p a (bytes16 (st_type st)) s) (\<lambda>s.
     and_then (user_write p (a + 12) (bytes16 (st_nlink st)) s) (\<lambda>s.
     user_write p (a + 16) (bytes32 (st_size st)) s))))"

definition sys_fstat :: "'a procst_scheme \<Rightarrow> (int \<times> 'a procst_scheme) outcome" where
  "sys_fstat s =
     and_then (curproc s) (\<lambda>p.
     arg (argfd p 0 s) s (\<lambda>(_, f).
     arg (argptr p 1 20 s) s (\<lambda>a.
     and_then (filestat f s) (\<lambda>(r, st, s).
     and_then (case st of Some st \<Rightarrow> put_stat p a st s | None \<Rightarrow> Ret s) (\<lambda>s. Ret (r, s))))))"

subsection \<open>Paths of the current process\<close>

text \<open>The inode \<open>namex\<close> starts at when the path is relative; \<open>idup\<close> of a null \<open>cwd\<close> is a fault.\<close>

definition cwd_for :: "nat \<Rightarrow> bytes \<Rightarrow> 'a procst_scheme \<Rightarrow> nat outcome" where
  "cwd_for p path s = (if path \<noteq> [] \<and> hd path = SLASH then Ret 0 else the_ip (pcwd (procs s p)))"

definition namei_at :: "('a procst_scheme, 'e) penv_scheme \<Rightarrow> nat \<Rightarrow> bytes \<Rightarrow> 'a procst_scheme \<Rightarrow>
    (nat option \<times> 'a procst_scheme) outcome" where
  "namei_at e p path s = and_then (cwd_for p path s) (\<lambda>cwd. namei (dev_switch e) cwd path s)"

definition nameiparent_at :: "('a procst_scheme, 'e) penv_scheme \<Rightarrow> nat \<Rightarrow> bytes \<Rightarrow> 'a procst_scheme \<Rightarrow>
    ((nat \<times> bytes) option \<times> 'a procst_scheme) outcome" where
  "nameiparent_at e p path s = and_then (cwd_for p path s) (\<lambda>cwd. nameiparent (dev_switch e) cwd path s)"

text \<open>Leaving a call inside a transaction: \<open>end_op\<close> and the result.\<close>

definition finish :: "int \<Rightarrow> 'a procst_scheme \<Rightarrow> (int \<times> 'a procst_scheme) outcome" where
  "finish r s = and_then (end_op s) (\<lambda>s. Ret (r, s))"

definition put_finish :: "nat \<Rightarrow> int \<Rightarrow> 'a procst_scheme \<Rightarrow> (int \<times> 'a procst_scheme) outcome" where
  "put_finish ip r s = and_then (iunlockput ip s) (finish r)"

definition upd_nlink :: "nat \<Rightarrow> u16 \<Rightarrow> 'a procst_scheme \<Rightarrow> 'a procst_scheme outcome" where
  "upd_nlink ip d s = iupdate ip (upd_inode ip (\<lambda>i. i\<lparr>inlink := inlink i + d\<rparr>) s)"

subsection \<open>Links\<close>

definition link_bad :: "nat \<Rightarrow> 'a procst_scheme \<Rightarrow> (int \<times> 'a procst_scheme) outcome" where
  "link_bad ip s =
     and_then (ilock (Some ip) s) (\<lambda>s.
     and_then (upd_nlink ip (- 1) s) (put_finish ip (- 1)))"

definition sys_link :: "('a procst_scheme, 'e) penv_scheme \<Rightarrow> 'a procst_scheme \<Rightarrow> (int \<times> 'a procst_scheme) outcome" where
  "sys_link e s =
     and_then (curproc s) (\<lambda>p.
     arg (argstr p 0 s) s (\<lambda>old.
     arg (argstr p 1 s) s (\<lambda>new.
     and_then (begin_op s) (\<lambda>s.
     and_then (namei_at e p old s) (\<lambda>(r, s).
     case r of
       None \<Rightarrow> finish (- 1) s
     | Some ip \<Rightarrow>
         and_then (ilock (Some ip) s) (\<lambda>s.
         if itype (icache s ip) = T_DIR then put_finish ip (- 1) s
         else
           and_then (upd_nlink ip 1 s) (\<lambda>s.
           and_then (iunlock (Some ip) s) (\<lambda>s.
           and_then (nameiparent_at e p new s) (\<lambda>(r, s).
           case r of
             None \<Rightarrow> link_bad ip s
           | Some (dp, name) \<Rightarrow>
               and_then (ilock (Some dp) s) (\<lambda>s.
               and_then
                 (if idev (icache s dp) \<noteq> idev (icache s ip) then Ret (- 1, s)
                  else dirlink (dev_switch e) dp name (inum (icache s ip)) s) (\<lambda>(r, s).
               if r < 0 then and_then (iunlockput dp s) (link_bad ip)
               else
                 and_then (iunlockput dp s) (\<lambda>s.
                 and_then (iput ip s) (finish 0)))))))))))))"

text \<open>The loop of \<open>isdirempty\<close> over the offsets after \<open>.\<close> and \<open>..\<close>.\<close>

fun isdirempty_loop :: "'a fsst_scheme devsw \<Rightarrow> nat \<Rightarrow> u32 list \<Rightarrow> 'a fsst_scheme \<Rightarrow> (bool \<times> 'a fsst_scheme) outcome" where
  "isdirempty_loop devsw dp [] s = Ret (True, s)"
| "isdirempty_loop devsw dp (off # offs) s =
     and_then (readi devsw dp off 16 s) (\<lambda>(r, de, s).
     if r \<noteq> 16 then Panic ''isdirempty: readi''
     else if de_inum de \<noteq> 0 then Ret (False, s)
     else isdirempty_loop devsw dp offs s)"

definition isdirempty :: "'a fsst_scheme devsw \<Rightarrow> nat \<Rightarrow> 'a fsst_scheme \<Rightarrow> (bool \<times> 'a fsst_scheme) outcome" where
  "isdirempty devsw dp s = isdirempty_loop devsw dp (drop 2 (dir_offs (isize (icache s dp)))) s"

text \<open>\<open>sys_unlink\<close> from the point where the entry is found and both inodes are locked.\<close>

definition unlink_entry :: "('a procst_scheme, 'e) penv_scheme \<Rightarrow> nat \<Rightarrow> nat \<Rightarrow> u32 \<Rightarrow> 'a procst_scheme \<Rightarrow>
    (int \<times> 'a procst_scheme) outcome" where
  "unlink_entry e dp ip off s =
     (if sint (inlink (icache s ip)) < 1 then Panic ''unlink: nlink < 1''
      else
        and_then (if itype (icache s ip) = T_DIR then isdirempty (dev_switch e) ip s else Ret (True, s)) (\<lambda>(empty, s).
        if \<not> empty then and_then (iunlockput ip s) (put_finish dp (- 1))
        else
          and_then (writei (dev_switch e) dp (replicate 16 0) off 16 s) (\<lambda>(r, s).
          if r \<noteq> 16 then Panic ''unlink: writei''
          else
            and_then (if itype (icache s ip) = T_DIR then upd_nlink dp (- 1) s else Ret s) (\<lambda>s.
            and_then (iunlockput dp s) (\<lambda>s.
            and_then (upd_nlink ip (- 1) s) (put_finish ip 0))))))"

definition sys_unlink :: "('a procst_scheme, 'e) penv_scheme \<Rightarrow> 'a procst_scheme \<Rightarrow> (int \<times> 'a procst_scheme) outcome" where
  "sys_unlink e s =
     and_then (curproc s) (\<lambda>p.
     arg (argstr p 0 s) s (\<lambda>path.
     and_then (begin_op s) (\<lambda>s.
     and_then (nameiparent_at e p path s) (\<lambda>(r, s).
     case r of
       None \<Rightarrow> finish (- 1) s
     | Some (dp, name) \<Rightarrow>
         and_then (ilock (Some dp) s) (\<lambda>s.
         if namecmp name [46] = 0 \<or> namecmp name [46, 46] = 0 then put_finish dp (- 1) s
         else
           and_then (dirlookup (dev_switch e) dp name s) (\<lambda>(r, s).
           case r of
             None \<Rightarrow> put_finish dp (- 1) s
           | Some (ip, off) \<Rightarrow> and_then (ilock (Some ip) s) (unlink_entry e dp ip off)))))))"

subsection \<open>Creating and opening\<close>

text \<open>The part of \<open>create\<close> for a new name; both inodes are locked, only \<open>dp\<close> is given up.\<close>

definition create_new :: "('a procst_scheme, 'e) penv_scheme \<Rightarrow> nat \<Rightarrow> bytes \<Rightarrow> u16 \<Rightarrow> u16 \<Rightarrow> u16 \<Rightarrow> 'a procst_scheme \<Rightarrow>
    (nat option \<times> 'a procst_scheme) outcome" where
  "create_new e dp name type mjr mnr s =
     and_then (ialloc (idev (icache s dp)) type s) (\<lambda>(ip, s).
     and_then (ilock (Some ip) s) (\<lambda>s.
     and_then (iupdate ip (upd_inode ip (\<lambda>i. i\<lparr>major := mjr, minor := mnr, inlink := 1\<rparr>) s)) (\<lambda>s.
     and_then
       (if type = T_DIR then
          and_then (upd_nlink dp 1 s) (\<lambda>s.
          and_then (dirlink (dev_switch e) ip [46] (inum (icache s ip)) s) (\<lambda>(r, s).
          if r < 0 then Panic ''create dots''
          else
            and_then (dirlink (dev_switch e) ip [46, 46] (inum (icache s dp)) s) (\<lambda>(r, s).
            if r < 0 then Panic ''create dots'' else Ret s)))
        else Ret s) (\<lambda>s.
     and_then (dirlink (dev_switch e) dp name (inum (icache s ip)) s) (\<lambda>(r, s).
     if r < 0 then Panic ''create: dirlink''
     else and_then (iunlockput dp s) (\<lambda>s. Ret (Some ip, s)))))))"

definition create :: "('a procst_scheme, 'e) penv_scheme \<Rightarrow> nat \<Rightarrow> bytes \<Rightarrow> u16 \<Rightarrow> u16 \<Rightarrow> u16 \<Rightarrow> 'a procst_scheme \<Rightarrow>
    (nat option \<times> 'a procst_scheme) outcome" where
  "create e p path type mjr mnr s =
     and_then (nameiparent_at e p path s) (\<lambda>(r, s).
     case r of
       None \<Rightarrow> Ret (None, s)
     | Some (dp, name) \<Rightarrow>
         and_then (ilock (Some dp) s) (\<lambda>s.
         and_then (dirlookup (dev_switch e) dp name s) (\<lambda>(r, s).
         case r of
           Some (ip, _) \<Rightarrow>
             and_then (iunlockput dp s) (\<lambda>s.
             and_then (ilock (Some ip) s) (\<lambda>s.
             if type = T_FILE \<and> itype (icache s ip) = T_FILE then Ret (Some ip, s)
             else and_then (iunlockput ip s) (\<lambda>s. Ret (None, s))))
         | None \<Rightarrow> create_new e dp name type mjr mnr s)))"

text \<open>
  \<open>sys_open\<close>: the inode, locked, or nothing after the error paths that end the transaction;
  then the descriptor.
\<close>

definition open_inode :: "('a procst_scheme, 'e) penv_scheme \<Rightarrow> nat \<Rightarrow> bytes \<Rightarrow> u32 \<Rightarrow> 'a procst_scheme \<Rightarrow>
    (nat option \<times> 'a procst_scheme) outcome" where
  "open_inode e p path omode s =
     (if omode AND O_CREATE \<noteq> 0 then
        and_then (create e p path T_FILE 0 0 s) (\<lambda>(r, s).
        case r of None \<Rightarrow> and_then (end_op s) (\<lambda>s. Ret (None, s)) | Some ip \<Rightarrow> Ret (Some ip, s))
      else
        and_then (namei_at e p path s) (\<lambda>(r, s).
        case r of
          None \<Rightarrow> and_then (end_op s) (\<lambda>s. Ret (None, s))
        | Some ip \<Rightarrow>
            and_then (ilock (Some ip) s) (\<lambda>s.
            if itype (icache s ip) = T_DIR \<and> omode \<noteq> O_RDONLY then
              and_then (iunlockput ip s) (\<lambda>s.
              and_then (end_op s) (\<lambda>s. Ret (None, s)))
            else Ret (Some ip, s))))"

definition open_fd :: "('a procst_scheme, 'e) penv_scheme \<Rightarrow> nat \<Rightarrow> nat \<Rightarrow> u32 \<Rightarrow> 'a procst_scheme \<Rightarrow>
    (int \<times> 'a procst_scheme) outcome" where
  "open_fd e p ip omode s =
     (case filealloc s of
        (None, s) \<Rightarrow> put_finish ip (- 1) s
      | (Some f, s) \<Rightarrow>
          (case fdalloc p f s of
             (None, s) \<Rightarrow> and_then (fileclose (kern_end e) f s) (put_finish ip (- 1))
           | (Some fd, s) \<Rightarrow>
               and_then (iunlock (Some ip) s) (\<lambda>s.
               and_then (end_op s) (\<lambda>s.
               Ret (int fd, upd_file f (\<lambda>x. x\<lparr>ftype := FD_INODE, fip := Some ip, foff := 0,
                 readable := (omode AND O_WRONLY = 0),
                 writable := (omode AND O_WRONLY \<noteq> 0 \<or> omode AND O_RDWR \<noteq> 0)\<rparr>) s)))))"

definition sys_open :: "('a procst_scheme, 'e) penv_scheme \<Rightarrow> 'a procst_scheme \<Rightarrow> (int \<times> 'a procst_scheme) outcome" where
  "sys_open e s =
     and_then (curproc s) (\<lambda>p.
     arg (argstr p 0 s) s (\<lambda>path.
     arg (argint p 1 s) s (\<lambda>omode.
     and_then (begin_op s) (\<lambda>s.
     and_then (open_inode e p path omode s) (\<lambda>(r, s).
     case r of None \<Rightarrow> Ret (- 1, s) | Some ip \<Rightarrow> open_fd e p ip omode s)))))"

text \<open>
  \<open>sys_mkdir\<close>, \<open>sys_mknod\<close> and \<open>sys_chdir\<close> begin the transaction before they look at their
  arguments, so that a bad argument ends it.
\<close>

definition arg_op :: "'b option outcome \<Rightarrow> 'a procst_scheme \<Rightarrow> ('b \<Rightarrow> (int \<times> 'a procst_scheme) outcome) \<Rightarrow>
    (int \<times> 'a procst_scheme) outcome" where
  "arg_op m s f = and_then m (\<lambda>r. case r of None \<Rightarrow> finish (- 1) s | Some x \<Rightarrow> f x)"

definition sys_mkdir :: "('a procst_scheme, 'e) penv_scheme \<Rightarrow> 'a procst_scheme \<Rightarrow> (int \<times> 'a procst_scheme) outcome" where
  "sys_mkdir e s =
     and_then (curproc s) (\<lambda>p.
     and_then (begin_op s) (\<lambda>s.
     arg_op (argstr p 0 s) s (\<lambda>path.
     and_then (create e p path T_DIR 0 0 s) (\<lambda>(r, s).
     case r of None \<Rightarrow> finish (- 1) s | Some ip \<Rightarrow> put_finish ip 0 s))))"

definition sys_mknod :: "('a procst_scheme, 'e) penv_scheme \<Rightarrow> 'a procst_scheme \<Rightarrow> (int \<times> 'a procst_scheme) outcome" where
  "sys_mknod e s =
     and_then (curproc s) (\<lambda>p.
     and_then (begin_op s) (\<lambda>s.
     arg_op (argstr p 0 s) s (\<lambda>path.
     arg_op (argint p 1 s) s (\<lambda>mjr.
     arg_op (argint p 2 s) s (\<lambda>mnr.
     and_then (create e p path T_DEV (ucast mjr) (ucast mnr) s) (\<lambda>(r, s).
     case r of None \<Rightarrow> finish (- 1) s | Some ip \<Rightarrow> put_finish ip 0 s))))))"

definition sys_chdir :: "('a procst_scheme, 'e) penv_scheme \<Rightarrow> 'a procst_scheme \<Rightarrow> (int \<times> 'a procst_scheme) outcome" where
  "sys_chdir e s =
     and_then (curproc s) (\<lambda>p.
     and_then (begin_op s) (\<lambda>s.
     arg_op (argstr p 0 s) s (\<lambda>path.
     and_then (namei_at e p path s) (\<lambda>(r, s).
     case r of
       None \<Rightarrow> finish (- 1) s
     | Some ip \<Rightarrow>
         and_then (ilock (Some ip) s) (\<lambda>s.
         if itype (icache s ip) \<noteq> T_DIR then put_finish ip (- 1) s
         else
           and_then (iunlock (Some ip) s) (\<lambda>s.
           and_then (the_ip (pcwd (procs s p))) (\<lambda>cwd.
           and_then (iput cwd s) (\<lambda>s.
           and_then (end_op s) (\<lambda>s.
           Ret (0, upd_proc p (\<lambda>x. x\<lparr>pcwd := Some ip\<rparr>) s))))))))))"

definition sys_pipe :: "('a procst_scheme, 'e) penv_scheme \<Rightarrow> 'a procst_scheme \<Rightarrow> (int \<times> 'a procst_scheme) outcome" where
  "sys_pipe e s =
     and_then (curproc s) (\<lambda>p.
     arg (argptr p 0 8 s) s (\<lambda>a.
     and_then (pipealloc (kern_end e) s) (\<lambda>(r, rfl, wfl, s).
     case (rfl, wfl) of
       (Some rfl, Some wfl) \<Rightarrow>
         if r < 0 then Ret (- 1, deliver_wakeups s)
         else
           let bad = (\<lambda>s. and_then (fileclose (kern_end e) rfl s) (\<lambda>s.
                     and_then (fileclose (kern_end e) wfl s) (\<lambda>s. Ret (- 1, deliver_wakeups s))))
           in (case fdalloc p rfl s of
                 (None, s) \<Rightarrow> bad s
               | (Some fd0, s) \<Rightarrow>
                   (case fdalloc p wfl s of
                      (None, s) \<Rightarrow> bad (set_fd p fd0 None s)
                    | (Some fd1, s) \<Rightarrow>
                        and_then (user_write p a (bytes32 (of_nat fd0)) s) (\<lambda>s.
                        and_then (user_write p (a + 4) (bytes32 (of_nat fd1)) s) (\<lambda>s.
                        Ret (0, s)))))
     | _ \<Rightarrow> Ret (- 1, deliver_wakeups s))))"

end
