(* ===== verification/Exec.thy ===== *)
theory Exec
  imports Sysfile
begin

text \<open>
  Replacing the image of a process (\<^verbatim>\<open>exec.c\<close>, \<open>loaduvm\<close> of \<^verbatim>\<open>vm.c\<close>, \<open>sys_exec\<close>), and the
  dispatch of system calls (\<open>syscall\<close>). The headers of an ELF file are read as bytes and decoded
  field by field; arguments are the strings the caller's memory holds when they are fetched. A
  failing \<open>exec\<close> leaves through one of two exits, with the inode still locked or already put.
\<close>

section \<open>Definitions\<close>

record elfhdr =
  eh_magic :: u32
  eh_entry :: u32
  eh_phoff :: u32
  eh_phnum :: u16

record proghdr =
  ph_type :: u32
  ph_off :: u32
  ph_vaddr :: u32
  ph_filesz :: u32
  ph_memsz :: u32

abbreviation (input) ELF_MAGIC :: u32 where "ELF_MAGIC \<equiv> 0x464C457F"

definition get_elfhdr :: "bytes \<Rightarrow> elfhdr" where
  "get_elfhdr d = \<lparr>eh_magic = get32 d 0, eh_entry = get32 d 24, eh_phoff = get32 d 28, eh_phnum = get16 d 44\<rparr>"

definition get_proghdr :: "bytes \<Rightarrow> proghdr" where
  "get_proghdr d = \<lparr>ph_type = get32 d 0, ph_off = get32 d 4, ph_vaddr = get32 d 8, ph_filesz = get32 d 16,
     ph_memsz = get32 d 20\<rparr>"

subsection \<open>Loading a segment\<close>

text \<open>
  The offsets \<open>i\<close> in steps of a page below \<open>sz\<close>. For the sizes that passed \<open>allocuvm\<close>, all below
  \<open>KERNBASE\<close>, the counter of the code does not wrap.
\<close>

fun loaduvm_loop :: "'a procst_scheme devsw \<Rightarrow> u32 \<Rightarrow> u32 \<Rightarrow> nat \<Rightarrow> u32 \<Rightarrow> u32 \<Rightarrow> u32 list \<Rightarrow> 'a procst_scheme \<Rightarrow>
    (int \<times> 'a procst_scheme) outcome" where
  "loaduvm_loop devsw d addr ip offset sz [] s = Ret (0, s)"
| "loaduvm_loop devsw d addr ip offset sz (i # is) s =
     (case walkpgdir d (addr + i) False (km s) of
        (pte, _) \<Rightarrow>
          if pte = 0 then Panic ''loaduvm: address should exist''
          else
            let pa = PTE_ADDR (load32 (memory (km s)) pte);
                n = (if sz - i < PGSIZE then sz - i else PGSIZE)
            in and_then (readi devsw ip (offset + i) n s) (\<lambda>(r, dst, s).
               let s = upd_mem (put_bytes (P2V pa) dst) s in
               if r \<noteq> int (unat n) then Ret (- 1, s) else loaduvm_loop devsw d addr ip offset sz is s))"

definition loaduvm :: "'a procst_scheme devsw \<Rightarrow> u32 \<Rightarrow> u32 \<Rightarrow> nat \<Rightarrow> u32 \<Rightarrow> u32 \<Rightarrow> 'a procst_scheme \<Rightarrow>
    (int \<times> 'a procst_scheme) outcome" where
  "loaduvm devsw d addr ip offset sz s =
     (if addr mod PGSIZE \<noteq> 0 then Panic ''loaduvm: addr must be page aligned''
      else loaduvm_loop devsw d addr ip offset sz (uvm_pages 0 sz) s)"

text \<open>Running an operation on memory in the whole state.\<close>

definition on_km :: "(kmem \<Rightarrow> ('b \<times> kmem) outcome) \<Rightarrow> 'a procst_scheme \<Rightarrow> ('b \<times> 'a procst_scheme) outcome" where
  "on_km f s = and_then (f (km s)) (\<lambda>(r, m). Ret (r, s\<lparr>km := m\<rparr>))"

text \<open>The loop over the program headers: the size reached, \<open>None\<close> for \<open>goto bad\<close>.\<close>

primrec exec_load :: "('a procst_scheme, 'e) penv_scheme \<Rightarrow> u32 \<Rightarrow> nat \<Rightarrow> nat \<Rightarrow> u32 \<Rightarrow> u32 \<Rightarrow> 'a procst_scheme \<Rightarrow>
    (u32 option \<times> 'a procst_scheme) outcome" where
  "exec_load e d ip 0 off sz s = Ret (Some sz, s)"
| "exec_load e d ip (Suc k) off sz s =
     and_then (readi (dev_switch e) ip off 32 s) (\<lambda>(r, b, s).
     let ph = get_proghdr b in
     if r \<noteq> 32 then Ret (None, s)
     else if ph_type ph \<noteq> 1 then exec_load e d ip k (off + 32) sz s
     else if ph_memsz ph < ph_filesz ph then Ret (None, s)
     else if ph_vaddr ph + ph_memsz ph < ph_vaddr ph then Ret (None, s)
     else
       and_then (on_km (allocuvm (kern_end e) d sz (ph_vaddr ph + ph_memsz ph)) s) (\<lambda>(sz, s).
       if sz = 0 then Ret (None, s)
       else if ph_vaddr ph mod PGSIZE \<noteq> 0 then Ret (None, s)
       else
         and_then (loaduvm (dev_switch e) d (ph_vaddr ph) ip (ph_off ph) (ph_filesz ph) s) (\<lambda>(r, s).
         if r < 0 then Ret (None, s) else exec_load e d ip k (off + 32) sz s)))"

subsection \<open>The new stack\<close>

text \<open>
  Pushing the argument strings: the stack pointer and the addresses of the strings, in order.
  The word array \<open>ustack\<close> has room for \<open>MAXARG\<close> of them.
\<close>

primrec exec_push :: "u32 \<Rightarrow> bytes list \<Rightarrow> nat \<Rightarrow> u32 \<Rightarrow> 'a kmem_scheme \<Rightarrow>
    ((u32 \<times> u32 list) option \<times> 'a kmem_scheme) outcome" where
  "exec_push d [] argc sp m = Ret (Some (sp, []), m)"
| "exec_push d (v # vs) argc sp m =
     (if argc \<ge> MAXARG then Ret (None, m)
      else
        let sp = (sp - of_nat (length v + 1)) AND NOT 3 in
        and_then (copyout d sp (v @ [0]) m) (\<lambda>(r, m).
        if r < 0 then Ret (None, m)
        else
          and_then (exec_push d vs (Suc argc) sp m) (\<lambda>(q, m).
          Ret (map_option (\<lambda>(sp', ps). (sp', sp # ps)) q, m))))"

definition exec_ustack :: "u32 \<Rightarrow> u32 list \<Rightarrow> bytes" where
  "exec_ustack sp ps =
     (let argc = of_nat (length ps) in
      concat (map bytes32 ([0xFFFFFFFF, argc, sp - (argc + 1) * 4] @ ps @ [0])))"

definition exec_stack :: "u32 \<Rightarrow> u32 \<Rightarrow> bytes list \<Rightarrow> 'a kmem_scheme \<Rightarrow> (u32 option \<times> 'a kmem_scheme) outcome" where
  "exec_stack d sz argv m =
     and_then (exec_push d argv 0 sz m) (\<lambda>(q, m).
     case q of
       None \<Rightarrow> Ret (None, m)
     | Some (sp, ps) \<Rightarrow>
         let sp' = sp - (3 + of_nat (length ps) + 1) * 4 in
         and_then (copyout d sp' (exec_ustack sp ps) m) (\<lambda>(r, m).
         if r < 0 then Ret (None, m) else Ret (Some sp', m)))"

text \<open>The program's name: what follows the last slash of the path.\<close>

definition last_elem :: "bytes \<Rightarrow> bytes" where
  "last_elem path = rev (takeWhile (\<lambda>c. c \<noteq> SLASH) (rev path))"

subsection \<open>exec\<close>

definition exec_bad :: "('a procst_scheme, 'e) penv_scheme \<Rightarrow> u32 \<Rightarrow> nat option \<Rightarrow> 'a procst_scheme \<Rightarrow>
    (int \<times> 'a procst_scheme) outcome" where
  "exec_bad e d ipo s =
     and_then (if d \<noteq> 0 then and_then (freevm (kern_end e) d (km s)) (\<lambda>m. Ret (s\<lparr>km := m\<rparr>)) else Ret s) (\<lambda>s.
     case ipo of Some ip \<Rightarrow> put_finish ip (- 1) s | None \<Rightarrow> Ret (- 1, s))"

definition exec_commit :: "('a procst_scheme, 'e) penv_scheme \<Rightarrow> nat \<Rightarrow> bytes \<Rightarrow> u32 \<Rightarrow> u32 \<Rightarrow> u32 \<Rightarrow> u32 \<Rightarrow>
    'a procst_scheme \<Rightarrow> (int \<times> 'a procst_scheme) outcome" where
  "exec_commit e p path d sz entry sp s =
     (let oldpgdir = pgdir (procs s p);
          tf = ptf (procs s p);
          s = upd_proc p (\<lambda>x. x\<lparr>pname := safestrcpy (cp (last_elem path)) 16, pgdir := d, psz := sz\<rparr>) s;
          s = upd_mem (\<lambda>m. store32 (tf + TF_ESP) sp (store32 (tf + TF_EIP) entry m)) s
      in and_then (switchuvm p s) (\<lambda>_.
         and_then (freevm (kern_end e) oldpgdir (km s)) (\<lambda>m.
         Ret (0, s\<lparr>km := m\<rparr>))))"

text \<open>From the point where the program is loaded and the file closed.\<close>

definition exec_finish :: "('a procst_scheme, 'e) penv_scheme \<Rightarrow> nat \<Rightarrow> bytes \<Rightarrow> bytes list \<Rightarrow> u32 \<Rightarrow> u32 \<Rightarrow> u32 \<Rightarrow>
    'a procst_scheme \<Rightarrow> (int \<times> 'a procst_scheme) outcome" where
  "exec_finish e p path argv d entry sz s =
     (let sz = PGROUNDUP sz in
      and_then (on_km (allocuvm (kern_end e) d sz (sz + 2 * PGSIZE)) s) (\<lambda>(sz, s).
      if sz = 0 then exec_bad e d None s
      else
        and_then (clearpteu d (sz - 2 * PGSIZE) (km s)) (\<lambda>m.
        and_then (on_km (exec_stack d sz argv) (s\<lparr>km := m\<rparr>)) (\<lambda>(q, s).
        case q of
          None \<Rightarrow> exec_bad e d None s
        | Some sp \<Rightarrow> exec_commit e p path d sz entry sp s))))"

definition exec :: "('a procst_scheme, 'e) penv_scheme \<Rightarrow> bytes \<Rightarrow> bytes list \<Rightarrow> 'a procst_scheme \<Rightarrow>
    (int \<times> 'a procst_scheme) outcome" where
  "exec e path argv s =
     and_then (curproc s) (\<lambda>p.
     and_then (begin_op s) (\<lambda>s.
     and_then (namei_at e p path s) (\<lambda>(r, s).
     case r of
       None \<Rightarrow> finish (- 1) s
     | Some ip \<Rightarrow>
         and_then (ilock (Some ip) s) (\<lambda>s.
         and_then (readi (dev_switch e) ip 0 52 s) (\<lambda>(r, b, s).
         let elf = get_elfhdr b in
         if r \<noteq> 52 then exec_bad e 0 (Some ip) s
         else if eh_magic elf \<noteq> ELF_MAGIC then exec_bad e 0 (Some ip) s
         else
           and_then (on_km (setupkvm (kern_end e) (kern_data e)) s) (\<lambda>(d, s).
           if d = 0 then exec_bad e 0 (Some ip) s
           else
             and_then (exec_load e d ip (unat (eh_phnum elf)) (eh_phoff elf) 0 s) (\<lambda>(q, s).
             case q of
               None \<Rightarrow> exec_bad e d (Some ip) s
             | Some sz \<Rightarrow>
                 and_then (iunlockput ip s) (\<lambda>s.
                 and_then (end_op s) (\<lambda>s.
                 exec_finish e p path argv d (eh_entry elf) sz s)))))))))"

text \<open>Fetching \<open>argv\<close>: at most \<open>MAXARG\<close> turns, the last of which must find the null pointer.\<close>

primrec fetch_argv :: "nat \<Rightarrow> nat \<Rightarrow> u32 \<Rightarrow> 'a procst_scheme \<Rightarrow> bytes list option outcome" where
  "fetch_argv 0 p uargv s = Ret None"
| "fetch_argv (Suc k) p uargv s =
     and_then (fetchint p uargv s) (\<lambda>r. case r of
       None \<Rightarrow> Ret None
     | Some uarg \<Rightarrow>
         if uarg = 0 then Ret (Some [])
         else
           and_then (fetchstr p uarg s) (\<lambda>r. case r of
             None \<Rightarrow> Ret None
           | Some v \<Rightarrow> and_then (fetch_argv k p (uargv + 4) s) (\<lambda>r. Ret (map_option (Cons v) r))))"

definition sys_exec :: "('a procst_scheme, 'e) penv_scheme \<Rightarrow> 'a procst_scheme \<Rightarrow> (int \<times> 'a procst_scheme) outcome" where
  "sys_exec e s =
     and_then (curproc s) (\<lambda>p.
     arg (argstr p 0 s) s (\<lambda>path.
     arg (argint p 1 s) s (\<lambda>uargv.
     arg (fetch_argv MAXARG p uargv s) s (\<lambda>argv. exec e path argv s))))"

subsection \<open>The dispatch table\<close>

definition syscalls :: "('a procst_scheme, 'e) penv_scheme \<Rightarrow> ('a procst_scheme \<Rightarrow> (int \<times> 'a procst_scheme) outcome) list" where
  "syscalls e = [sys_fork e, sys_exit e, sys_wait e, sys_pipe e, sys_read e, sys_kill, sys_exec e, sys_fstat,
     sys_chdir e, sys_dup, sys_getpid, sys_sbrk e, sys_sleep, sys_uptime, sys_open e, sys_write e, sys_mknod e,
     sys_unlink e, sys_link e, sys_mkdir e, sys_close e, sys_lseek]"

text \<open>
  \<open>syscall\<close>: the result goes to \<open>eax\<close> of the trap frame, unless the call does not return (\<open>exit\<close>).
  Entry 0 of the table of the code is empty.
\<close>

definition set_eax :: "nat \<Rightarrow> u32 \<Rightarrow> 'a procst_scheme \<Rightarrow> 'a procst_scheme" where
  "set_eax p v s = upd_mem (store32 (ptf (procs s p) + TF_EAX) v) s"

definition syscall :: "('a procst_scheme, 'e) penv_scheme \<Rightarrow> 'a procst_scheme \<Rightarrow> 'a procst_scheme outcome" where
  "syscall e s =
     and_then (curproc s) (\<lambda>p.
     let num = sint (load32 (memory (km s)) (ptf (procs s p) + TF_EAX)) in
     if num > 0 \<and> num < 23 then
       and_then ((syscalls e ! nat (num - 1)) s) (\<lambda>(r, s).
       Ret (if cpuproc s = None then s else set_eax p (of_int r) s))
     else Ret (set_eax p (- 1) s))"

end
