(* ===== verification/Ulib.thy ===== *)
theory Ulib
  imports Xv6_String
begin

text \<open>
  The library of the user programs: formatted output (\<^verbatim>\<open>printf.c\<close>) and the routines of
  \<^verbatim>\<open>ulib.c\<close>. \<open>printint\<close> of \<^verbatim>\<open>console.c\<close> is the same code with other letters, so the digits are
  an argument here. A C string argument is the list of the bytes before its NUL; where a routine
  may run past any bound it is a partial function of the pointer. The number arithmetic of
  \<open>atoi\<close> wraps around at 32 bits, as on the machine.
\<close>

section \<open>Definitions\<close>

definition ascii :: "string \<Rightarrow> bytes" where
  "ascii cs = map (\<lambda>c. of_nat (of_char c)) cs"

subsection \<open>printf.c\<close>

definition digits_upper :: bytes where
  "digits_upper = ascii ''0123456789ABCDEF''"

text \<open>
  The digits of \<open>x\<close>, last first, into the array \<open>buf\<close> of 16 bytes, of which the list holds those
  stored so far; storing past its end is a fault.
\<close>

function printint_loop :: "bytes \<Rightarrow> u32 \<Rightarrow> u32 \<Rightarrow> bytes \<Rightarrow> bytes outcome" where
  "printint_loop digits base x buf =
     (if length buf \<ge> 16 then Fault ''buf''
      else
        let buf = buf @ [digits ! unat (x mod base)]; x = x div base in
        if x \<noteq> 0 then printint_loop digits base x buf else Ret buf)"
  by pat_completeness auto

termination
  by (relation "measure (\<lambda>(digits, base, x, buf). 16 - length buf)") auto

declare printint_loop.simps [simp del]

definition printint :: "bytes \<Rightarrow> u32 \<Rightarrow> u32 \<Rightarrow> bool \<Rightarrow> bytes outcome" where
  "printint digits xx base sg =
     (let neg = (sg \<and> sint xx < 0);
          x = (if neg then - xx else xx)
      in and_then (printint_loop digits base x []) (\<lambda>buf.
         if neg then if length buf \<ge> 16 then Fault ''buf'' else Ret (rev (buf @ [45]))
         else Ret (rev buf)))"

text \<open>
  The arguments after the format: words, and pointers to strings, which may be null. A
  conversion that finds no argument of its kind reads past the arguments or through a word.
\<close>

datatype parg = PInt u32 | PStr "bytes option"

definition str_arg :: "bytes option \<Rightarrow> bytes" where
  "str_arg so = (case so of None \<Rightarrow> ascii ''(null)'' | Some cs \<Rightarrow> cs)"

text \<open>What \<open>printf\<close> writes; after a \<open>%\<close> (\<open>state\<close>) the next character is a conversion.\<close>

fun printf :: "bytes \<Rightarrow> bool \<Rightarrow> parg list \<Rightarrow> bytes outcome" where
  "printf [] state ap = Ret []"
| "printf (c # fmt) False ap =
     (if c = 37 then printf fmt True ap
      else and_then (printf fmt False ap) (\<lambda>out. Ret (c # out)))"
| "printf (c # fmt) True ap =
     (if c = 100 then
        (case ap of
           PInt v # ap \<Rightarrow> and_then (printint digits_upper v 10 True) (\<lambda>ds.
             and_then (printf fmt False ap) (\<lambda>out. Ret (ds @ out)))
         | _ \<Rightarrow> Fault ''argument'')
      else if c = 120 \<or> c = 112 then
        (case ap of
           PInt v # ap \<Rightarrow> and_then (printint digits_upper v 16 False) (\<lambda>ds.
             and_then (printf fmt False ap) (\<lambda>out. Ret (ds @ out)))
         | _ \<Rightarrow> Fault ''argument'')
      else if c = 115 then
        (case ap of
           PStr v # ap \<Rightarrow> and_then (printf fmt False ap) (\<lambda>out. Ret (str_arg v @ out))
         | _ \<Rightarrow> Fault ''argument'')
      else if c = 99 then
        (case ap of
           PInt v # ap \<Rightarrow> and_then (printf fmt False ap) (\<lambda>out. Ret (ucast v # out))
         | _ \<Rightarrow> Fault ''argument'')
      else if c = 37 then and_then (printf fmt False ap) (\<lambda>out. Ret (c # out))
      else and_then (printf fmt False ap) (\<lambda>out. Ret (37 # c # out)))"

subsection \<open>ulib.c\<close>

text \<open>The bytes \<open>strcpy\<close> stores.\<close>

partial_function (option) ustrcpy :: "cptr \<Rightarrow> bytes option" where
  "ustrcpy t = (if t 0 = 0 then Some [0] else Option.bind (ustrcpy (inc t)) (\<lambda>cs. Some (t 0 # cs)))"

partial_function (option) ustrcmp :: "cptr \<Rightarrow> cptr \<Rightarrow> int option" where
  "ustrcmp p q =
     (if p 0 \<noteq> 0 \<and> p 0 = q 0 then ustrcmp (inc p) (inc q) else Some (uint (p 0) - uint (q 0)))"

text \<open>\<open>strlen\<close> is the same loop as in the kernel.\<close>

definition ustrlen :: "cptr \<Rightarrow> nat option" where
  "ustrlen s = strlen_from s 0"

definition umemset :: "u32 \<Rightarrow> u32 \<Rightarrow> u32 \<Rightarrow> mem \<Rightarrow> mem" where
  "umemset dst c n m = stosb (unat n) dst (ucast c) m"

text \<open>The position of the character, if the string has it.\<close>

fun strchr :: "bytes \<Rightarrow> u8 \<Rightarrow> nat option" where
  "strchr [] c = None"
| "strchr (b # bs) c = (if b = c then Some 0 else map_option Suc (strchr bs c))"

text \<open>\<open>gets\<close>, with the call \<open>read(0, &c, 1)\<close> an argument: a byte, or none for a result below 1.\<close>

fun gets_loop :: "('s \<Rightarrow> u8 option \<times> 's) \<Rightarrow> nat \<Rightarrow> 's \<Rightarrow> bytes \<times> 's" where
  "gets_loop rd 0 s = ([], s)"
| "gets_loop rd (Suc k) s =
     (case rd s of
        (None, s) \<Rightarrow> ([], s)
      | (Some c, s) \<Rightarrow>
          if c = 10 \<or> c = 13 then ([c], s)
          else (case gets_loop rd k s of (cs, s) \<Rightarrow> (c # cs, s)))"

definition gets :: "('s \<Rightarrow> u8 option \<times> 's) \<Rightarrow> nat \<Rightarrow> 's \<Rightarrow> bytes \<times> 's" where
  "gets rd mx s = (case gets_loop rd (mx - 1) s of (cs, s) \<Rightarrow> (cs @ [0], s))"

fun atoi_loop :: "u32 \<Rightarrow> bytes \<Rightarrow> u32" where
  "atoi_loop n [] = n"
| "atoi_loop n (c # cs) = (if 48 \<le> c \<and> c \<le> 57 then atoi_loop (n * 10 + ucast c - 48) cs else n)"

definition atoi :: "bytes \<Rightarrow> u32" where
  "atoi s = (case s of c # cs \<Rightarrow> if c = 45 then - atoi_loop 0 cs else atoi_loop 0 s | [] \<Rightarrow> atoi_loop 0 s)"

text \<open>\<open>memmove\<close> of the library copies upwards whatever the overlap.\<close>

definition umemmove :: "u32 \<Rightarrow> u32 \<Rightarrow> int \<Rightarrow> mem \<Rightarrow> mem" where
  "umemmove vdst vsrc n m = copy_up (nat n) vdst vsrc m"

section \<open>Printing a number and reading it\<close>

text \<open>The digits of a number, last first.\<close>

fun digs :: "nat \<Rightarrow> nat \<Rightarrow> nat list" where
  "digs b n = (if b < 2 \<or> n < b then [n] else n mod b # digs b (n div b))"

declare digs.simps [simp del]

lemma digs_step: "2 \<le> b \<Longrightarrow> digs b n = n mod b # (if n div b = 0 then [] else digs b (n div b))"
  by (subst digs.simps) (auto simp: div_eq_0_iff)

lemma length_digs: "2 \<le> b \<Longrightarrow> n < b ^ Suc k \<Longrightarrow> length (digs b n) \<le> Suc k"
proof (induction k arbitrary: n)
  case 0
  then show ?case by (subst digs.simps) simp
next
  case (Suc k)
  then have "n div b < b ^ Suc k" by (simp add: less_mult_imp_div_less mult.commute)
  then show ?case using Suc by (subst digs_step) auto
qed

lemma digs_less: "2 \<le> b \<Longrightarrow> d \<in> set (digs b n) \<Longrightarrow> d < b"
  by (induction b n rule: digs.induct) (subst (asm) (2) digs.simps, auto split: if_splits)

lemma printint_loop_digs:
  assumes "2 \<le> unat base" and "length buf + length (digs (unat base) (unat x)) \<le> 16"
  shows "printint_loop ds base x buf = Ret (buf @ map ((!) ds) (digs (unat base) (unat x)))"
  using assms(2)
proof (induction "unat x" arbitrary: x buf rule: less_induct)
  case less
  have q: "unat (x div base) = unat x div unat base" "unat (x mod base) = unat x mod unat base"
    by (simp_all add: unat_div unat_mod)
  have step: "digs (unat base) (unat x) = unat (x mod base) # (if x div base = 0 then [] else digs (unat base) (unat (x div base)))"
    using digs_step [OF assms(1), of "unat x"] by (simp add: q [symmetric] unat_eq_0)
  show ?case
  proof (cases "x div base = 0")
    case True
    then show ?thesis using step less.prems by (subst printint_loop.simps) (simp add: Let_def)
  next
    case False
    then have "unat x div unat base \<noteq> 0" unfolding q(1) [symmetric] by (simp add: unat_eq_0)
    then have "unat (x div base) < unat x" unfolding q(1) using assms(1) by (intro div_less_dividend) (auto intro: gr0I)
    note IH = less.hyps [OF this, of "buf @ [ds ! unat (x mod base)]"]
    then show ?thesis using step less.prems False by (subst printint_loop.simps) (simp add: Let_def)
  qed
qed

text \<open>Any alphabet whose first ten letters are the decimal digits will do.\<close>

definition decimal :: "bytes \<Rightarrow> bool" where
  "decimal ds \<longleftrightarrow> (\<forall>d < 10. ds ! d = 48 + of_nat d)"

lemma decimal_byte:
  assumes "decimal ds" and "d < 10"
  shows "48 \<le> ds ! d \<and> ds ! d \<le> 57 \<and> ucast (ds ! d) = (48 + of_nat d :: u32)"
proof -
  have "d \<in> {0, 1, 2, 3, 4, 5, 6, 7, 8, 9}" using assms(2) by auto
  then show ?thesis using assms by (auto simp: decimal_def)
qed

lemma atoi_loop_digits:
  "decimal ds \<Longrightarrow> \<forall>d \<in> set l. d < 10 \<Longrightarrow>
     atoi_loop n (map ((!) ds) l) = foldl (\<lambda>n d. n * 10 + of_nat d) n l"
  by (induction l arbitrary: n) (simp_all add: decimal_byte algebra_simps)

lemma value_digs: "foldl (\<lambda>n d. n * 10 + of_nat d) (0 :: u32) (rev (digs 10 v)) = of_nat v"
proof (induction v rule: less_induct)
  case (less v)
  have "of_nat v = of_nat (v div 10) * 10 + (of_nat (v mod 10) :: u32)"
    by (metis div_mult_mod_eq of_nat_add of_nat_mult of_nat_numeral)
  then show ?case using less [of "v div 10"] by (subst digs_step) (auto simp: div_eq_0_iff)
qed

lemma printint_decimal:
  assumes "decimal ds"
  shows "\<exists>bs. printint_loop ds 10 x [] = Ret bs \<and> length bs \<le> 10 \<and> bs \<noteq> [] \<and> atoi_loop 0 (rev bs) = x \<and> last bs \<noteq> 45"
proof -
  let ?l = "digs 10 (unat x)"
  have l: "length ?l \<le> 10" using length_digs [of 10 "unat x" 9] unat_u32_less [of x] by simp
  have ne: "?l \<noteq> []" by (subst digs_step) simp_all
  have d: "\<forall>d \<in> set ?l. d < 10" using digs_less by auto
  have "printint_loop ds 10 x [] = Ret (map ((!) ds) ?l)" using printint_loop_digs [of 10 "[]" x ds] l by simp
  moreover have "atoi_loop 0 (rev (map ((!) ds) ?l)) = x"
    using atoi_loop_digits [OF assms, of "rev ?l" 0] d value_digs [of "unat x"] by (simp add: rev_map)
  moreover have "48 \<le> last (map ((!) ds) ?l)" using decimal_byte [OF assms] d ne by (simp add: last_map)
  then have "last (map ((!) ds) ?l) \<noteq> 45" by auto
  ultimately show ?thesis using l ne by (intro exI [of _ "map ((!) ds) ?l"]) simp
qed

lemma digits_upper_decimal: "decimal digits_upper"
  by (auto simp: decimal_def digits_upper_def ascii_def nth_Cons' numeral_eq_Suc less_Suc_eq)

text \<open>
  C34. Printing any 32-bit number in decimal stays within the 16 bytes of the buffer and \<open>atoi\<close> reads
  back the same number, negative ones, the smallest included; in hexadecimal it takes at most
  eight digits.
\<close>

theorem printint_then_atoi:
  "\<exists>bs hs. printint digits_upper xx 10 True = Ret bs \<and> length bs \<le> 11 \<and> atoi bs = xx \<and>
     printint digits_upper xx 16 False = Ret hs \<and> length hs \<le> 8"
proof -
  let ?x = "if sint xx < 0 then - xx else xx"
  obtain bs where bs: "printint_loop digits_upper 10 ?x [] = Ret bs" "length bs \<le> 10" "bs \<noteq> []"
      "atoi_loop 0 (rev bs) = ?x" "last bs \<noteq> 45"
    using printint_decimal [OF digits_upper_decimal] by blast
  let ?r = "rev (bs @ (if sint xx < 0 then [45] else []))"
  have p: "printint digits_upper xx 10 True = Ret ?r" using bs(1,2) by (simp add: printint_def Let_def)
  have "atoi ?r = xx"
    using bs(3-5) by (cases "rev bs") (auto simp: atoi_def last_rev simp flip: hd_rev)
  moreover obtain hs where "printint digits_upper xx 16 False = Ret hs" "length hs \<le> 8"
    using length_digs [of 16 "unat xx" 7] unat_u32_less [of xx] printint_loop_digs [of 16 "[]" xx]
    by (simp add: printint_def)
  ultimately show ?thesis using p bs(2) by auto
qed

end
