(* ===== verification/Console.thy ===== *)
theory Console
  imports Exec Ulib
begin

text \<open>
  The console (\<^verbatim>\<open>console.c\<close>) with its keyboard (\<^verbatim>\<open>kbd.c\<close>, \<^verbatim>\<open>kbd.h\<close>) and serial port (\<^verbatim>\<open>uart.c\<close>).

  The state of the console is a record: the screen memory and the cursor register of the display,
  the bytes sent to the serial port, and the ring of 128 input characters with its three indices,
  which count upwards and wrap around at $2^{32}$. It is added to the state of the processes, as
  input wakes the processes that wait for it. What a device has to deliver at an interrupt is an
  argument: the scan codes waiting at the keyboard, the bytes at the port. Waiting for the port to
  be ready and the other accesses to its registers are left out.
\<close>

section \<open>Definitions\<close>

record console =
  panicked :: bool
  crt :: "nat \<Rightarrow> u16"
  crtpos :: u16
  uart_on :: bool
  sent :: bytes
  inbuf :: bytes
  in_r :: u32
  in_w :: u32
  in_e :: u32
  kshift :: u32

record consst = procst +
  con :: console

abbreviation (input) BACKSPACE :: int where "BACKSPACE \<equiv> 0x100"
abbreviation (input) INPUT_BUF :: nat where "INPUT_BUF \<equiv> 128"

subsection \<open>Output\<close>

definition uartputc :: "int \<Rightarrow> console \<Rightarrow> console" where
  "uartputc c k = (if uart_on k then k\<lparr>sent := sent k @ [of_int c]\<rparr> else k)"

definition uartinit :: "u8 \<Rightarrow> console \<Rightarrow> console" where
  "uartinit status k =
     (if status = 0xFF then k
      else fold (\<lambda>c. uartputc (sint c)) (ascii ''xv6...'' @ [10]) (k\<lparr>uart_on := True\<rparr>))"

text \<open>
  Scrolling moves 23 lines of 80 cells up, and clears from the new position to the end of the last.
  The position is never negative, so that only its upper bound can fail.
\<close>

definition cga_scroll :: "nat \<Rightarrow> (nat \<Rightarrow> u16) \<Rightarrow> nat \<Rightarrow> u16" where
  "cga_scroll pos m = (\<lambda>i. if pos \<le> i \<and> i < 24 * 80 then 0 else if i < 23 * 80 then m (i + 80) else m i)"

definition cgaputc :: "int \<Rightarrow> console \<Rightarrow> console outcome" where
  "cgaputc c k =
     (let pos = unat (crtpos k);
          (pos, m) =
            (if c = 10 then (pos + (80 - pos mod 80), crt k)
             else if c = BACKSPACE then (if pos > 0 then pos - 1 else pos, crt k)
             else (pos + 1, (crt k)(pos := (of_int c AND 0xFF) OR 0x700)))
      in if pos > 25 * 80 then Panic ''pos under/overflow''
         else
           let (pos, m) = (if pos div 80 \<ge> 24 then (pos - 80, cga_scroll (pos - 80) m) else (pos, m))
           in Ret (k\<lparr>crtpos := of_nat pos, crt := m(pos := 0x720)\<rparr>))"

definition consputc :: "int \<Rightarrow> console \<Rightarrow> console outcome" where
  "consputc c k =
     (if panicked k then Hang
      else
        let k = (if c = BACKSPACE then uartputc 8 (uartputc 32 (uartputc 8 k)) else uartputc c k)
        in cgaputc c k)"

text \<open>Characters of strings are signed, as \<open>char\<close> is.\<close>

definition consputs :: "bytes \<Rightarrow> console \<Rightarrow> console outcome" where
  "consputs cs k = foldo (\<lambda>c. consputc (sint c)) cs k"

definition digits_lower :: bytes where
  "digits_lower = ascii ''0123456789abcdef''"

definition cons_printint :: "u32 \<Rightarrow> u32 \<Rightarrow> bool \<Rightarrow> console \<Rightarrow> console outcome" where
  "cons_printint xx base sg k = and_then (printint digits_lower xx base sg) (\<lambda>ds. consputs ds k)"

fun cprintf :: "bytes \<Rightarrow> parg list \<Rightarrow> console \<Rightarrow> console outcome" where
  "cprintf [] argp k = Ret k"
| "cprintf [c] argp k = (if c \<noteq> 37 then consputc (uint c) k else Ret k)"
| "cprintf (c # d # fmt) argp k =
     (if c \<noteq> 37 then and_then (consputc (uint c) k) (cprintf (d # fmt) argp)
      else if d = 100 then
        (case argp of
           PInt v # argp \<Rightarrow> and_then (cons_printint v 10 True k) (cprintf fmt argp)
         | _ \<Rightarrow> Fault ''argument'')
      else if d = 120 \<or> d = 112 then
        (case argp of
           PInt v # argp \<Rightarrow> and_then (cons_printint v 16 False k) (cprintf fmt argp)
         | _ \<Rightarrow> Fault ''argument'')
      else if d = 115 then
        (case argp of
           PStr v # argp \<Rightarrow> and_then (consputs (str_arg v) k) (cprintf fmt argp)
         | _ \<Rightarrow> Fault ''argument'')
      else if d = 37 then and_then (consputc 37 k) (cprintf fmt argp)
      else and_then (consputc 37 k) (\<lambda>k. and_then (consputc (uint d) k) (cprintf fmt argp)))"

text \<open>What \<open>panic\<close> leaves before it stops for good; \<open>pcs\<close> is the call stack it prints.\<close>

definition kpanic :: "u32 \<Rightarrow> string \<Rightarrow> u32 list \<Rightarrow> console \<Rightarrow> console outcome" where
  "kpanic lapicid msg pcs k =
     and_then (cprintf (ascii ''lapicid %d: panic: '') [PInt lapicid] k) (\<lambda>k.
     and_then (cprintf (ascii msg) [] k) (\<lambda>k.
     and_then (cprintf [10] [] k) (\<lambda>k.
     and_then (foldo (\<lambda>pc. cprintf (ascii '' %p'') [PInt pc]) (take 10 pcs) k) (\<lambda>k.
     Ret (k\<lparr>panicked := True\<rparr>)))))"

subsection \<open>Input\<close>

text \<open>\<open>input.buf[i % INPUT_BUF]\<close>, and storing a character at the edit index.\<close>

definition in_at :: "u32 \<Rightarrow> console \<Rightarrow> u8" where
  "in_at i k = inbuf k ! unat (i mod of_nat INPUT_BUF)"

definition in_put :: "u8 \<Rightarrow> console \<Rightarrow> console" where
  "in_put c k = k\<lparr>inbuf := (inbuf k)[unat (in_e k mod of_nat INPUT_BUF) := c], in_e := in_e k + 1\<rparr>"

text \<open>The loop of \<open>C('U')\<close>: the characters it takes back from the line.\<close>

lemma back_one: "(e :: u32) \<noteq> w \<Longrightarrow> unat (e - 1 - w) < unat (e - w)"
proof -
  assume "e \<noteq> w"
  then have "e - w \<noteq> 0" by simp
  then have "unat (e - w - 1) = unat (e - w) - 1" "0 < unat (e - w)"
    by (auto simp: unat_minus_one unat_gt_0)
  moreover have "e - 1 - w = e - w - 1" by (simp add: diff_right_commute)
  ultimately show ?thesis by (simp only:)
qed

function kill_line :: "bytes \<Rightarrow> u32 \<Rightarrow> u32 \<Rightarrow> nat" where
  "kill_line buf w e =
     (if e \<noteq> w \<and> buf ! unat ((e - 1) mod of_nat INPUT_BUF) \<noteq> 10 then Suc (kill_line buf w (e - 1)) else 0)"
  by pat_completeness auto

termination
  using back_one by (relation "measure (\<lambda>(buf, w, e). unat (e - w))") auto

declare kill_line.simps [simp del]

text \<open>
  One character of \<open>consoleintr\<close>. The flag says that \<open>wakeup(&input.r)\<close> is called. \<open>C('P')\<close> leaves
  the console as it is; the loop below records that the listing is asked for.
\<close>

definition cons_key :: "int \<Rightarrow> console \<Rightarrow> (console \<times> bool) outcome" where
  "cons_key c k =
     (if c = 16 then Ret (k, False)
      else if c = 21 then
        let n = kill_line (inbuf k) (in_w k) (in_e k) in
        and_then (foldo (\<lambda>_. consputc BACKSPACE) [0..<n] (k\<lparr>in_e := in_e k - of_nat n\<rparr>)) (\<lambda>k. Ret (k, False))
      else if c = 8 \<or> c = 0x7F then
        if in_e k \<noteq> in_w k then
          and_then (consputc BACKSPACE (k\<lparr>in_e := in_e k - 1\<rparr>)) (\<lambda>k. Ret (k, False))
        else Ret (k, False)
      else if c \<noteq> 0 \<and> in_e k - in_r k < of_nat INPUT_BUF then
        let c = (if c = 13 then 10 else c) in
        and_then (consputc c (in_put (of_int c) k)) (\<lambda>k.
        if c = 10 \<or> c = 4 \<or> in_e k = in_r k + of_nat INPUT_BUF then Ret (k\<lparr>in_w := in_e k\<rparr>, True)
        else Ret (k, False))
      else Ret (k, False))"

text \<open>The listing of \<open>procdump\<close> on the console.\<close>

definition procdump_line :: "int \<times> string \<times> bytes \<times> u32 list \<Rightarrow> console \<Rightarrow> console outcome" where
  "procdump_line r k =
     (case r of (pid, state, name, pcs) \<Rightarrow>
        and_then (cprintf (ascii ''%d %s %s'') [PInt (of_int pid), PStr (Some (ascii state)),
          PStr (Some (takeWhile (\<lambda>c. c \<noteq> 0) name))] k) (\<lambda>k.
        and_then (foldo (\<lambda>pc. cprintf (ascii '' %p'') [PInt pc]) pcs k) (cprintf [10] [])))"

text \<open>\<open>consoleintr\<close>, given the characters that \<open>getc\<close> returns before a negative result.\<close>

fun consoleintr_loop :: "int list \<Rightarrow> bool \<Rightarrow> 'a consst_scheme \<Rightarrow> (bool \<times> 'a consst_scheme) outcome" where
  "consoleintr_loop [] doprocdump s = Ret (doprocdump, s)"
| "consoleintr_loop (c # cs) doprocdump s =
     and_then (cons_key c (con s)) (\<lambda>(k, woken).
     let s = s\<lparr>con := k\<rparr> in
     consoleintr_loop cs (doprocdump \<or> c = 16) (if woken then wakeup ChInput s else s))"

definition consoleintr :: "int list \<Rightarrow> 'a consst_scheme \<Rightarrow> 'a consst_scheme outcome" where
  "consoleintr cs s =
     and_then (consoleintr_loop cs False s) (\<lambda>(doprocdump, s).
     if doprocdump then and_then (foldo procdump_line (procdump s) (con s)) (\<lambda>k. Ret (s\<lparr>con := k\<rparr>))
     else Ret s)"

text \<open>
  The loop of \<open>consoleread\<close> with \<open>n\<close> bytes to go and \<open>got\<close> already stored: it is done, has to
  sleep, or finds the process killed.
\<close>

datatype cread = CDone bytes | CSleep bytes | CKilled bytes

fun consoleread_loop :: "bool \<Rightarrow> nat \<Rightarrow> nat \<Rightarrow> bytes \<Rightarrow> console \<Rightarrow> cread \<times> console" where
  "consoleread_loop kld target 0 got k = (CDone got, k)"
| "consoleread_loop kld target (Suc n) got k =
     (if in_r k = in_w k then (if kld then CKilled got else CSleep got, k)
      else
        let c = in_at (in_r k) k;
            k = k\<lparr>in_r := in_r k + 1\<rparr>
        in if c = 4 then (CDone got, if Suc n < target then k\<lparr>in_r := in_r k - 1\<rparr> else k)
           else if c = 10 then (CDone (got @ [c]), k)
           else consoleread_loop kld target n (got @ [c]) k)"

definition consoleread :: "nat \<Rightarrow> u32 \<Rightarrow> u32 \<Rightarrow> 'a consst_scheme \<Rightarrow> (int \<times> bytes \<times> 'a consst_scheme) outcome" where
  "consoleread ip n off s =
     and_then (curproc s) (\<lambda>p.
     and_then (iunlock (Some ip) s) (\<lambda>s.
     case consoleread_loop (killed (procs s p)) (nat (sint n)) (nat (sint n)) [] (con s) of
       (CDone got, k) \<Rightarrow> and_then (ilock (Some ip) (s\<lparr>con := k\<rparr>)) (\<lambda>s. Ret (int (length got), got, s))
     | (CKilled got, k) \<Rightarrow> and_then (ilock (Some ip) (s\<lparr>con := k\<rparr>)) (\<lambda>s. Ret (- 1, got, s))
     | (CSleep got, k) \<Rightarrow> Block ''consoleread''))"

definition consolewrite :: "nat \<Rightarrow> bytes \<Rightarrow> u32 \<Rightarrow> 'a consst_scheme \<Rightarrow> (int \<times> 'a consst_scheme) outcome" where
  "consolewrite ip buf off s =
     and_then (iunlock (Some ip) s) (\<lambda>s.
     and_then (foldo (\<lambda>c. consputc (uint c)) buf (con s)) (\<lambda>k.
     and_then (ilock (Some ip) (s\<lparr>con := k\<rparr>)) (\<lambda>s.
     Ret (int (length buf), s))))"

text \<open>The entry of the device switch that \<open>consoleinit\<close> fills.\<close>

definition consoleinit :: "'a consst_scheme devsw \<Rightarrow> 'a consst_scheme devsw" where
  "consoleinit devsw = devsw(1 := \<lparr>dev_read = Some consoleread, dev_write = Some consolewrite\<rparr>)"

subsection \<open>The keyboard and the serial port\<close>

text \<open>The tables of \<^verbatim>\<open>kbd.h\<close>: the first entries in order, the others by index, the rest 0.\<close>

definition key_table :: "'a :: zero list \<Rightarrow> (u8 \<times> 'a) list \<Rightarrow> u8 \<Rightarrow> 'a" where
  "key_table front others d =
     (case map_of others d of
        Some v \<Rightarrow> v
      | None \<Rightarrow> if unat d < length front then front ! unat d else 0)"

definition shiftcode :: "u8 \<Rightarrow> u32" where
  "shiftcode = key_table [] [(0x1D, 2), (0x2A, 1), (0x36, 1), (0x38, 4), (0x9D, 2), (0xB8, 4)]"

definition togglecode :: "u8 \<Rightarrow> u32" where
  "togglecode = key_table [] [(0x3A, 8), (0x45, 16), (0x46, 32)]"

text \<open>The arrow and paging keys, and the number pad.\<close>

definition special_keys :: "(u8 \<times> u8) list" where
  "special_keys = [(0xC8, 0xE2), (0xD0, 0xE3), (0xC9, 0xE6), (0xD1, 0xE7), (0xCB, 0xE4), (0xCD, 0xE5),
     (0x97, 0xE0), (0xCF, 0xE1), (0xD2, 0xE8), (0xD3, 0xE9)]"

definition pad_keys :: bytes where
  "pad_keys = [0, 42, 0, 32] @ replicate 13 0 @ ascii ''789-456+1230.''"

definition normalmap :: "u8 \<Rightarrow> u8" where
  "normalmap = key_table
     ([0, 0x1B] @ ascii ''1234567890-='' @ [8, 9] @ ascii ''qwertyuiop[]'' @ [10, 0] @ ascii ''asdfghjkl;'' @
      [39, 96, 0, 92] @ ascii ''zxcvbnm,./'' @ pad_keys)
     ([(0x9C, 10), (0xB5, 47)] @ special_keys)"

definition shiftmap :: "u8 \<Rightarrow> u8" where
  "shiftmap = key_table
     ([0, 27] @ ascii ''!@#$%^&*()_+'' @ [8, 9] @ ascii ''QWERTYUIOP{}'' @ [10, 0] @ ascii ''ASDFGHJKL:'' @
      [34, 126, 0, 124] @ ascii ''ZXCVBNM<>?'' @ pad_keys)
     ([(0x9C, 10), (0xB5, 47)] @ special_keys)"

definition ctl :: "string \<Rightarrow> bytes" where
  "ctl cs = map (\<lambda>c. c - 64) (ascii cs)"

definition ctlmap :: "u8 \<Rightarrow> u8" where
  "ctlmap = key_table
     (replicate 16 0 @ ctl ''QWERTYUIOP'' @ [0, 0, 13, 0] @ ctl ''ASDFGHJKL'' @ [0, 0, 0, 0, 28] @
      ctl ''ZXCVBNM'' @ [0, 0] @ ctl ''/'' @ [0, 0])
     ([(0x9C, 13), (0xB5, 47 - 64)] @ special_keys)"

definition charcode :: "u32 \<Rightarrow> u8 \<Rightarrow> u8" where
  "charcode i = (if i = 0 then normalmap else if i = 1 then shiftmap else ctlmap)"

text \<open>The scan code \<open>data\<close> with the modifiers held: the character, 0 for none, and the new modifiers.\<close>

definition kbdgetc :: "u8 \<Rightarrow> u32 \<Rightarrow> int \<times> u32" where
  "kbdgetc data shift =
     (if data = 0xE0 then (0, shift OR 0x40)
      else if data AND 0x80 \<noteq> 0 then
        let data = (if shift AND 0x40 \<noteq> 0 then data else data AND 0x7F) in
        (0, shift AND NOT (shiftcode data OR 0x40))
      else
        let (data, shift) = (if shift AND 0x40 \<noteq> 0 then (data OR 0x80, shift AND NOT 0x40) else (data, shift));
            shift = (shift OR shiftcode data) XOR togglecode data;
            c = charcode (shift AND 3) data;
            c = (if shift AND 8 \<noteq> 0 then
                   if 97 \<le> c \<and> c \<le> 122 then c - 32 else if 65 \<le> c \<and> c \<le> 90 then c + 32 else c
                 else c)
        in (uint c, shift))"

fun kbd_chars :: "bytes \<Rightarrow> u32 \<Rightarrow> int list \<times> u32" where
  "kbd_chars [] shift = ([], shift)"
| "kbd_chars (d # ds) shift =
     (case kbdgetc d shift of
        (c, shift) \<Rightarrow> (case kbd_chars ds shift of (cs, shift) \<Rightarrow> (c # cs, shift)))"

definition kbdintr :: "bytes \<Rightarrow> 'a consst_scheme \<Rightarrow> 'a consst_scheme outcome" where
  "kbdintr data s =
     (case kbd_chars data (kshift (con s)) of
        (cs, shift) \<Rightarrow> consoleintr cs (s\<lparr>con := (con s)\<lparr>kshift := shift\<rparr>\<rparr>))"

definition uartgetc :: "bytes \<Rightarrow> console \<Rightarrow> int list" where
  "uartgetc data k = (if uart_on k then map uint data else [])"

definition uartintr :: "bytes \<Rightarrow> 'a consst_scheme \<Rightarrow> 'a consst_scheme outcome" where
  "uartintr data s = consoleintr (uartgetc data (con s)) s"

section \<open>The input ring\<close>

text \<open>
  The characters typed and not yet read, and where the lines that may be read end. The ring is
  well-formed when its indices are in order and at most 128 apart, which the wrap-around of
  the counters keeps, and the line being edited holds no newline.
\<close>

definition in_len :: "console \<Rightarrow> nat" where
  "in_len k = unat (in_e k - in_r k)"

definition in_ready :: "console \<Rightarrow> nat" where
  "in_ready k = unat (in_w k - in_r k)"

definition typed :: "console \<Rightarrow> bytes" where
  "typed k = map (\<lambda>i. in_at (in_r k + of_nat i) k) [0..<in_len k]"

definition committed :: "console \<Rightarrow> bytes" where
  "committed k = take (in_ready k) (typed k)"

definition editing :: "console \<Rightarrow> bytes" where
  "editing k = drop (in_ready k) (typed k)"

definition ring_ok :: "console \<Rightarrow> bool" where
  "ring_ok k \<longleftrightarrow> length (inbuf k) = INPUT_BUF \<and> in_ready k \<le> in_len k \<and> in_len k \<le> INPUT_BUF"

definition input_ok :: "console \<Rightarrow> bool" where
  "input_ok k \<longleftrightarrow> ring_ok k \<and> 10 \<notin> set (editing k)"

lemma in_index: "unat ((x + of_nat i) mod 128 :: u32) = (unat x + i) mod 128"
proof -
  have "unat (x + of_nat i) = (unat x + i) mod 2 ^ 32"
    by (simp add: unat_word_ariths unat_of_nat mod_simps)
  then show ?thesis by (simp add: unat_mod mod_mod_cancel)
qed

lemma length_typed [simp]: "length (typed k) = in_len k"
  by (simp add: typed_def)

lemma typed_nth: "i < in_len k \<Longrightarrow> typed k ! i = inbuf k ! ((unat (in_r k) + i) mod 128)"
  by (simp add: typed_def in_at_def in_index)

lemma typed_parts: "ring_ok k \<Longrightarrow> typed k = committed k @ editing k"
  by (simp add: committed_def editing_def)

text \<open>What does not touch the ring keeps all of this.\<close>

definition same_input :: "console \<Rightarrow> console \<Rightarrow> bool" where
  "same_input k k' \<longleftrightarrow> inbuf k' = inbuf k \<and> in_r k' = in_r k \<and> in_w k' = in_w k \<and> in_e k' = in_e k"

lemma same_inputD:
  assumes "same_input k k'"
  shows "in_len k' = in_len k" "in_ready k' = in_ready k" "typed k' = typed k" "committed k' = committed k"
    "editing k' = editing k" "ring_ok k' = ring_ok k" "input_ok k' = input_ok k" "in_e k' = in_e k" "in_r k' = in_r k"
    "in_w k' = in_w k" "inbuf k' = inbuf k"
  using assms
  by (simp_all add: same_input_def in_len_def in_ready_def typed_def committed_def editing_def ring_ok_def
      input_ok_def in_at_def)

lemma same_input_trans: "same_input k k' \<Longrightarrow> same_input k' k'' \<Longrightarrow> same_input k k''"
  by (simp add: same_input_def)

lemma consputc_same: "consputc c k = Ret k' \<Longrightarrow> same_input k k'"
  by (auto simp: consputc_def cgaputc_def uartputc_def same_input_def Let_def split: if_splits)

lemma consputc_loop_same: "foldo (\<lambda>_. consputc c) xs k = Ret k' \<Longrightarrow> same_input k k'"
proof (induction xs arbitrary: k)
  case (Cons x xs)
  then show ?case by (auto elim!: and_then_RetE dest: consputc_same intro: same_input_trans)
qed (simp add: same_input_def)

text \<open>The screen: the cursor stays on its 24 lines, so that the check of \<open>cgaputc\<close> cannot fail.\<close>

definition screen_ok :: "console \<Rightarrow> bool" where
  "screen_ok k \<longleftrightarrow> \<not> panicked k \<and> unat (crtpos k) < 24 * 80"

lemma unat_of_nat_u16: "n < 2 ^ 16 \<Longrightarrow> unat (of_nat n :: u16) = n"
  by (simp add: unat_of_nat)

lemma cgaputc_ok:
  assumes "screen_ok k"
  shows "\<exists>k'. cgaputc c k = Ret k' \<and> screen_ok k' \<and> same_input k k'"
proof -
  let ?p = "unat (crtpos k)"
  obtain q m where q: "(q, m) = (if c = 10 then (?p + (80 - ?p mod 80), crt k)
      else if c = BACKSPACE then (if ?p > 0 then ?p - 1 else ?p, crt k)
      else (?p + 1, (crt k)(?p := (of_int c AND 0xFF) OR 0x700)))" by (metis surj_pair)
  have p: "?p < 1920" using assms by (simp add: screen_ok_def)
  have "?p + (80 - ?p mod 80) = 80 * (?p div 80 + 1)"
    using div_mult_mod_eq [of ?p 80] mod_less_divisor [of 80 ?p] by arith
  moreover have "?p div 80 < 24" using p by auto
  ultimately have "q \<le> 1920" using q p by (auto split: if_splits)
  then consider "q = 1920" | "q < 1920" "\<not> 24 \<le> q div 80" by linarith
  then show ?thesis
    using assms
    by cases (auto simp: cgaputc_def q [symmetric] Let_def screen_ok_def same_input_def unat_of_nat_u16 not_le)
qed

lemma consputc_ok:
  assumes "screen_ok k"
  shows "\<exists>k'. consputc c k = Ret k' \<and> screen_ok k' \<and> same_input k k'"
proof -
  let ?k = "if c = BACKSPACE then uartputc 8 (uartputc 32 (uartputc 8 k)) else uartputc c k"
  have u: "screen_ok (uartputc d k1) = screen_ok k1" "same_input k1 (uartputc d k1)" for d k1
    by (simp_all add: uartputc_def screen_ok_def same_input_def)
  have "screen_ok ?k" "same_input k ?k" using assms u(1) same_input_trans [OF same_input_trans [OF u(2) u(2)] u(2)] u(2) by auto
  then show ?thesis
    using cgaputc_ok [of ?k c] assms same_input_trans by (fastforce simp: consputc_def screen_ok_def)
qed

lemma consputc_loop_ok: "screen_ok k \<Longrightarrow> \<exists>k'. foldo (\<lambda>_. consputc c) xs k = Ret k' \<and> screen_ok k' \<and> same_input k k'"
proof (induction xs arbitrary: k)
  case (Cons x xs)
  obtain k1 where "consputc c k = Ret k1" "screen_ok k1" "same_input k k1" using consputc_ok [OF Cons.prems] by blast
  then show ?case using Cons.IH [of k1] same_input_trans by fastforce
qed (simp add: same_input_def)

text \<open>The ring as a queue: adding at the edit index, taking back, committing, and reading.\<close>

lemma in_e_eq: "in_e k = in_r k + of_nat (in_len k)" and in_w_eq: "in_w k = in_r k + of_nat (in_ready k)"
  by (simp_all add: in_len_def in_ready_def)

lemma in_e_iff:
  assumes "ring_ok k"
  shows "in_e k = in_w k \<longleftrightarrow> in_len k = in_ready k" "in_r k = in_w k \<longleftrightarrow> in_ready k = 0"
    "in_e k - in_r k < 128 \<longleftrightarrow> in_len k < 128"
proof -
  show "in_e k = in_w k \<longleftrightarrow> in_len k = in_ready k"
    unfolding in_len_def in_ready_def word_unat_eq_iff [symmetric] by simp
  show "in_r k = in_w k \<longleftrightarrow> in_ready k = 0" by (auto simp: in_ready_def unat_eq_0)
  show "in_e k - in_r k < 128 \<longleftrightarrow> in_len k < 128" by (simp add: in_len_def word_less_nat_alt)
qed

lemma mod_apart:
  assumes "i < j" and "j < m + i"
  shows "(x + i) mod m \<noteq> (x + j) mod (m :: nat)"
proof
  assume "(x + i) mod m = (x + j) mod m"
  then have "m dvd (x + j) - (x + i)"
    using assms by (metis add_le_cancel_left less_imp_le mod_eq_dvd_iff_nat)
  with assms show False by (auto dest: dvd_imp_le)
qed

lemma in_put_ring:
  assumes ok: "ring_ok k" and room: "in_len k < 128"
  shows "typed (in_put c k) = typed k @ [c]" "in_len (in_put c k) = Suc (in_len k)" "in_ready (in_put c k) = in_ready k"
    "length (inbuf (in_put c k)) = length (inbuf k)" "in_r (in_put c k) = in_r k"
proof -
  have "unat (in_e k + 1 - in_r k) = unat (in_e k - in_r k) + 1"
    using room unat_add_u32 [of "in_e k - in_r k" 1] by (simp add: in_len_def algebra_simps)
  then show len: "in_len (in_put c k) = Suc (in_len k)" by (simp add: in_len_def in_put_def)
  show "in_ready (in_put c k) = in_ready k" "length (inbuf (in_put c k)) = length (inbuf k)" "in_r (in_put c k) = in_r k"
    by (simp_all add: in_ready_def in_put_def)
  have idx: "unat (in_e k mod 128) = (unat (in_r k) + in_len k) mod 128"
    using in_index [of "in_r k" "in_len k"] in_e_eq [of k] by simp
  show "typed (in_put c k) = typed k @ [c]"
  proof (rule nth_equalityI)
    fix i assume "i < length (typed (in_put c k))"
    then have i: "i \<le> in_len k" by (simp add: len)
    have "inbuf (in_put c k) = (inbuf k)[(unat (in_r k) + in_len k) mod 128 := c]" by (simp add: in_put_def idx)
    then have "typed (in_put c k) ! i = (inbuf k)[(unat (in_r k) + in_len k) mod 128 := c] ! ((unat (in_r k) + i) mod 128)"
      using typed_nth [of i "in_put c k"] i by (simp add: len) (simp add: in_put_def)
    also have "\<dots> = (typed k @ [c]) ! i"
    proof (cases "i = in_len k")
      case True
      then show ?thesis using ok by (simp add: ring_ok_def nth_append)
    next
      case False
      then have "(unat (in_r k) + i) mod 128 \<noteq> (unat (in_r k) + in_len k) mod 128" using i room by (intro mod_apart) auto
      then show ?thesis using False i by (simp add: typed_nth nth_append)
    qed
    finally show "typed (in_put c k) ! i = (typed k @ [c]) ! i" .
  qed (simp add: len)
qed

lemma typed_take:
  assumes "m \<le> in_len k" and "e = in_r k + of_nat m"
  shows "in_len (k\<lparr>in_e := e\<rparr>) = m" "typed (k\<lparr>in_e := e\<rparr>) = take m (typed k)"
    "in_ready (k\<lparr>in_e := e\<rparr>) = in_ready k"
proof -
  have "unat (of_nat m :: u32) = m" using assms(1) unat_u32_less [of "in_e k - in_r k"] by (simp add: unat_of_nat_u32 in_len_def)
  then show len: "in_len (k\<lparr>in_e := e\<rparr>) = m" by (simp add: in_len_def assms(2))
  show "typed (k\<lparr>in_e := e\<rparr>) = take m (typed k)"
    using assms(1) len by (intro nth_equalityI) (auto simp: typed_nth)
  show "in_ready (k\<lparr>in_e := e\<rparr>) = in_ready k" by (simp add: in_ready_def)
qed

lemma typed_commit: "typed (k\<lparr>in_w := w\<rparr>) = typed k" "in_len (k\<lparr>in_w := w\<rparr>) = in_len k"
  by (simp_all add: typed_def in_len_def in_at_def)

lemma in_read_ring:
  assumes "ring_ok k" and "0 < in_ready k"
  shows "in_len (k\<lparr>in_r := in_r k + 1\<rparr>) = in_len k - 1" "in_ready (k\<lparr>in_r := in_r k + 1\<rparr>) = in_ready k - 1"
    "typed k = in_at (in_r k) k # typed (k\<lparr>in_r := in_r k + 1\<rparr>)"
proof -
  have pos: "0 < in_len k" using assms by (simp add: ring_ok_def)
  have "unat (x - 1) = unat x - 1" if "0 < unat x" for x :: u32
    using that by (intro unat_minus_one) auto
  from this [of "in_e k - in_r k"] this [of "in_w k - in_r k"]
  show len: "in_len (k\<lparr>in_r := in_r k + 1\<rparr>) = in_len k - 1"
    and "in_ready (k\<lparr>in_r := in_r k + 1\<rparr>) = in_ready k - 1"
    using pos assms(2) by (simp_all add: in_len_def in_ready_def diff_diff_eq)
  show "typed k = in_at (in_r k) k # typed (k\<lparr>in_r := in_r k + 1\<rparr>)"
  proof (rule nth_equalityI)
    fix i assume i: "i < length (typed k)"
    show "typed k ! i = (in_at (in_r k) k # typed (k\<lparr>in_r := in_r k + 1\<rparr>)) ! i"
    proof (cases i)
      case 0
      then show ?thesis using pos by (simp add: typed_def)
    next
      case (Suc j)
      then show ?thesis using i len pos
        by (simp add: typed_def in_at_def algebra_simps)
    qed
  qed (use len pos in simp)
qed

lemma kill_line_from:
  assumes ok: "input_ok k"
  shows "in_ready k \<le> m \<Longrightarrow> m \<le> in_len k \<Longrightarrow> kill_line (inbuf k) (in_w k) (in_r k + of_nat m) = m - in_ready k"
proof (induction m)
  case 0
  then show ?case by (subst kill_line.simps) (simp add: in_ready_def unat_eq_0)
next
  case (Suc m)
  have small: "in_len k \<le> 128" using ok by (simp add: input_ok_def ring_ok_def)
  have eq: "in_r k + of_nat (Suc m) = in_w k \<longleftrightarrow> Suc m = in_ready k"
  proof -
    have "in_r k + of_nat (Suc m) = in_w k \<longleftrightarrow> (of_nat (Suc m) :: u32) = of_nat (in_ready k)"
      unfolding in_w_eq [of k] by simp
    also have "\<dots> \<longleftrightarrow> Suc m = in_ready k"
    proof -
      have "unat (of_nat (Suc m) :: u32) = Suc m" "unat (of_nat (in_ready k) :: u32) = in_ready k"
        using Suc.prems small by (intro unat_of_nat_u32; simp)+
      then show ?thesis by (simp only: word_unat_eq_iff)
    qed
    finally show ?thesis .
  qed
  show ?case
  proof (cases "Suc m = in_ready k")
    case True
    then show ?thesis using eq by (subst kill_line.simps) simp
  next
    case False
    have "editing k ! (m - in_ready k) \<in> set (editing k)" using False Suc.prems by (intro nth_mem) (simp add: editing_def)
    then have "typed k ! m \<noteq> 10" using ok False Suc.prems by (auto simp: input_ok_def editing_def)
    then have "inbuf k ! unat ((in_r k + of_nat m) mod 128) \<noteq> 10" using Suc.prems by (simp add: typed_nth in_index)
    then show ?thesis using Suc eq False by (subst kill_line.simps) (simp add: Suc_diff_le)
  qed
qed

text \<open>
  What a key does to the two queues, the lines to be read and the line being edited, and what a
  read does to the first.
\<close>

definition key_spec :: "int \<Rightarrow> bytes \<times> bytes \<Rightarrow> bytes \<times> bytes" where
  "key_spec c q = (case q of (com, ed) \<Rightarrow>
     if c = 16 then (com, ed)
     else if c = 21 then (com, [])
     else if c = 8 \<or> c = 0x7F then (com, butlast ed)
     else if c \<noteq> 0 \<and> length com + length ed < INPUT_BUF then
       let b = of_int (if c = 13 then 10 else c) in
       if b = 10 \<or> b = 4 \<or> length com + length ed + 1 = INPUT_BUF then (com @ ed @ [b], [])
       else (com, ed @ [b])
     else (com, ed))"

fun read_spec :: "bool \<Rightarrow> nat \<Rightarrow> nat \<Rightarrow> bytes \<Rightarrow> bytes \<Rightarrow> cread \<times> bytes" where
  "read_spec kld target 0 got com = (CDone got, com)"
| "read_spec kld target (Suc n) got [] = (if kld then CKilled got else CSleep got, [])"
| "read_spec kld target (Suc n) got (c # com) =
     (if c = 4 then (CDone got, if Suc n < target then c # com else com)
      else if c = 10 then (CDone (got @ [c]), com)
      else read_spec kld target n (got @ [c]) com)"

lemma input_ok_lengths:
  assumes "ring_ok k"
  shows "length (committed k) = in_ready k" "length (editing k) = in_len k - in_ready k"
    "length (committed k) + length (editing k) = in_len k"
  using assms by (auto simp: committed_def editing_def ring_ok_def)

text \<open>Taking \<open>n\<close> characters back from the line being edited.\<close>

lemma take_back:
  assumes ok: "input_ok k" and n: "n \<le> in_len k - in_ready k"
  shows "input_ok (k\<lparr>in_e := in_e k - of_nat n\<rparr>)" "committed (k\<lparr>in_e := in_e k - of_nat n\<rparr>) = committed k"
    "editing (k\<lparr>in_e := in_e k - of_nat n\<rparr>) = take (length (editing k) - n) (editing k)"
proof -
  let ?k = "k\<lparr>in_e := in_e k - of_nat n\<rparr>"
  have r: "ring_ok k" using ok by (simp add: input_ok_def)
  then have le: "in_ready k \<le> in_len k" by (simp add: ring_ok_def)
  have "in_e k - of_nat n = in_r k + of_nat (in_len k - n)" using n in_e_eq [of k] by (simp add: of_nat_diff)
  note t = typed_take [OF diff_le_self this]
  have le2: "in_ready k \<le> in_len k - n" using n le by simp
  show com: "committed ?k = committed k" using le2 by (simp add: committed_def t min_def)
  show ed: "editing ?k = take (length (editing k) - n) (editing k)"
    using n le by (simp add: editing_def t drop_take add.commute)
  have "ring_ok ?k" using r le2 t by (auto simp: ring_ok_def)
  then show "input_ok ?k" using ok ed in_set_takeD by (fastforce simp: input_ok_def)
qed

lemma key_put:
  assumes ok: "input_ok k" and room: "in_len k < 128" and b: "b \<noteq> 10"
  shows "input_ok (in_put b k)" "committed (in_put b k) = committed k" "editing (in_put b k) = editing k @ [b]"
proof -
  have r: "ring_ok k" using ok by (simp add: input_ok_def)
  note p = in_put_ring [OF r room]
  have le: "in_ready k \<le> in_len k" using r by (simp add: ring_ok_def)
  show "committed (in_put b k) = committed k" "editing (in_put b k) = editing k @ [b]"
    using le by (simp_all add: committed_def editing_def p)
  then show "input_ok (in_put b k)" using ok b r room le by (simp add: input_ok_def ring_ok_def p)
qed

lemma key_commit:
  assumes r: "ring_ok k" and room: "in_len k < 128" and s: "same_input (in_put b k) k'"
  shows "input_ok (k'\<lparr>in_w := in_e k'\<rparr>)" "committed (k'\<lparr>in_w := in_e k'\<rparr>) = committed k @ editing k @ [b]"
    "editing (k'\<lparr>in_w := in_e k'\<rparr>) = []"
proof -
  let ?k = "k'\<lparr>in_w := in_e k'\<rparr>"
  note p = in_put_ring [OF r room] and d = same_inputD [OF s]
  have n: "in_ready ?k = in_len ?k" by (simp add: in_ready_def in_len_def)
  have t: "typed ?k = committed k @ editing k @ [b]" using p(1) d(3) typed_parts [OF r] by (simp add: typed_commit)
  have l: "in_len ?k = Suc (in_len k)" using p(2) d(1) by (simp add: typed_commit)
  show "committed ?k = committed k @ editing k @ [b]" 
    unfolding committed_def [of ?k] n t [symmetric] by simp
  show "editing ?k = []" unfolding editing_def n by simp
  then show "input_ok ?k" using r room l n d p by (simp add: input_ok_def ring_ok_def)
qed

definition con_ok :: "console \<Rightarrow> bool" where
  "con_ok k \<longleftrightarrow> input_ok k \<and> screen_ok k"

lemma con_ok_same: "input_ok k \<Longrightarrow> same_input k k' \<Longrightarrow> screen_ok k' \<Longrightarrow> con_ok k'"
  by (simp add: con_ok_def same_inputD)

lemma key_erase:
  assumes ok: "con_ok k" and c: "c = 21 \<or> c = 8 \<or> c = 0x7F"
  shows "\<exists>k'. cons_key c k = Ret (k', False) \<and> con_ok k' \<and>
    (committed k', editing k') = key_spec c (committed k, editing k)"
proof -
  have i: "input_ok k" "ring_ok k" and sc: "screen_ok k" using ok by (auto simp: con_ok_def input_ok_def)
  note len = input_ok_lengths [OF i(2)] and e = in_e_iff [OF i(2)]
  define n where "n = (if c = 21 then in_len k - in_ready k else if in_len k = in_ready k then 0 else 1)"
  let ?k = "k\<lparr>in_e := in_e k - of_nat n\<rparr>"
  have le: "in_ready k \<le> in_len k" using i(2) by (simp add: ring_ok_def)
  have n: "n \<le> in_len k - in_ready k" using le by (auto simp: n_def)
  note t = take_back [OF i(1) n]
  have "screen_ok ?k" using sc by (simp add: screen_ok_def)
  then obtain k' where k': "foldo (\<lambda>_. consputc BACKSPACE) [0..<n] ?k = Ret k'" "screen_ok k'" "same_input ?k k'"
    using consputc_loop_ok by blast
  have "cons_key c k = Ret (k', False)"
  proof (cases "c = 21")
    case True
    have "kill_line (inbuf k) (in_w k) (in_e k) = n" using kill_line_from [OF i(1) le order_refl] True in_e_eq [of k] by (simp add: n_def)
    then show ?thesis using True k'(1) by (simp add: cons_key_def Let_def)
  next
    case False
    then show ?thesis using c k'(1) e(1) by (auto simp: cons_key_def n_def elim!: and_then_RetE)
  qed
  moreover have "take (length (editing k) - n) (editing k) = (if c = 21 then [] else butlast (editing k))"
    using len(2) by (auto simp: n_def butlast_conv_take)
  then have "(committed k', editing k') = key_spec c (committed k, editing k)"
    using t(2,3) same_inputD [OF k'(3)] c by (auto simp: key_spec_def)
  ultimately show ?thesis using con_ok_same [OF t(1) k'(3,2)] by blast
qed

lemma of_int_byte: "0 \<le> c \<Longrightarrow> c < 256 \<Longrightarrow> 0 \<le> d \<Longrightarrow> d < 256 \<Longrightarrow> (of_int c :: u8) = of_int d \<longleftrightarrow> c = d"
  by (simp add: word_of_int_eq_iff take_bit_eq_mod)

lemma key_insert:
  assumes ok: "con_ok k" and c: "c \<notin> {16, 21, 8, 0x7F}" "0 \<le> c" "c < 256"
  shows "\<exists>k' wk. cons_key c k = Ret (k', wk) \<and> con_ok k' \<and>
    (committed k', editing k') = key_spec c (committed k, editing k) \<and> (wk \<longleftrightarrow> committed k' \<noteq> committed k)"
proof (cases "c \<noteq> 0 \<and> in_len k < 128")
  case False
  have "ring_ok k" using ok by (simp add: con_ok_def input_ok_def)
  then show ?thesis using False ok c(1) in_e_iff(3) input_ok_lengths(3) by (auto simp: cons_key_def key_spec_def)
next
  case True
  have i: "input_ok k" "ring_ok k" and sc: "screen_ok k" using ok by (auto simp: con_ok_def input_ok_def)
  define d where "d = (if c = 13 then 10 else c)"
  let ?b = "of_int d :: u8" and ?k = "in_put (of_int d) k"
  have bytes: "?b = 10 \<longleftrightarrow> d = 10" "?b = 4 \<longleftrightarrow> d = 4"
    using of_int_byte [of d 10] of_int_byte [of d 4] c by (auto simp: d_def)
  have "screen_ok ?k" using sc by (simp add: screen_ok_def in_put_def)
  then obtain k' where k': "consputc d ?k = Ret k'" "screen_ok k'" "same_input ?k k'" using consputc_ok by blast
  note p = in_put_ring [OF i(2), of ?b] and s = same_inputD [OF k'(3)]
  have full: "in_e k' = in_r k' + 128 \<longleftrightarrow> Suc (in_len k) = 128"
  proof -
    have "in_e k' = in_r k' + 128 \<longleftrightarrow> in_e k' - in_r k' = 128" by (auto simp: algebra_simps)
    then have "in_e k' = in_r k' + 128 \<longleftrightarrow> in_len k' = 128" by (simp add: in_len_def word_unat_eq_iff)
    then show ?thesis using s(1) p(2) True by simp
  qed
  let ?commit = "d = 10 \<or> d = 4 \<or> Suc (in_len k) = 128"
  have key: "cons_key c k = Ret (if ?commit then (k'\<lparr>in_w := in_e k'\<rparr>, True) else (k', False))"
    using True c(1) k'(1) full in_e_iff(3) [OF i(2)] by (simp add: cons_key_def d_def [symmetric] Let_def)
  have spec: "key_spec c (committed k, editing k) =
      (if ?commit then (committed k @ editing k @ [?b], []) else (committed k, editing k @ [?b]))"
    using True c(1) input_ok_lengths(3) [OF i(2)] bytes by (simp add: key_spec_def d_def [symmetric] Let_def)
  show ?thesis
  proof (cases ?commit)
    case commit: True
    then show ?thesis using key spec key_commit [OF i(2) _ k'(3)] True k'(2) by (simp add: con_ok_def screen_ok_def)
  next
    case False
    then have "?b \<noteq> 10" using bytes by simp
    note kp = key_put [OF i(1) _ this]
    show ?thesis using False key spec kp True s con_ok_same [OF kp(1) k'(3,2)] by simp
  qed
qed

lemma read_one:
  assumes ok: "con_ok k" and ne: "in_r k \<noteq> in_w k"
  shows "con_ok (k\<lparr>in_r := in_r k + 1\<rparr>)" "editing (k\<lparr>in_r := in_r k + 1\<rparr>) = editing k"
    "committed k = in_at (in_r k) k # committed (k\<lparr>in_r := in_r k + 1\<rparr>)"
proof -
  let ?k = "k\<lparr>in_r := in_r k + 1\<rparr>"
  have r: "ring_ok k" "10 \<notin> set (editing k)" using ok by (auto simp: con_ok_def input_ok_def)
  have pos: "0 < in_ready k" using ne in_e_iff(2) [OF r(1)] by simp
  note t = in_read_ring [OF r(1) pos]
  show com: "committed k = in_at (in_r k) k # committed ?k"
    using t(3) pos by (simp add: committed_def t(2)) (cases "in_ready k", simp_all)
  show ed: "editing ?k = editing k"
    using t(3) pos by (simp add: editing_def t(2)) (cases "in_ready k", simp_all)
  have "ring_ok ?k" using r(1) pos t(1,2) by (auto simp: ring_ok_def)
  then show "con_ok ?k" using ok r(2) ed by (simp add: con_ok_def input_ok_def screen_ok_def)
qed

lemma consoleread_refines:
  "con_ok k \<Longrightarrow> consoleread_loop kld target n got k = (res, k') \<Longrightarrow>
     con_ok k' \<and> (res, committed k') = read_spec kld target n got (committed k) \<and> editing k' = editing k"
proof (induction n arbitrary: got k)
  case (Suc n)
  have r: "ring_ok k" using Suc.prems(1) by (simp add: con_ok_def input_ok_def)
  show ?case
  proof (cases "in_r k = in_w k")
    case True
    then have "committed k = []" using in_e_iff(2) [OF r] by (simp add: committed_def)
    then show ?thesis using True Suc.prems by auto
  next
    case False
    note one = read_one [OF Suc.prems(1) False]
    have undo: "k\<lparr>in_r := in_r k + 1, in_r := in_r k + 1 - 1\<rparr> = k" by simp
    show ?thesis
      using Suc.prems False one undo Suc.IH [OF one(1)] by (auto simp: Let_def split: if_splits)
  qed
qed simp

lemma key_step:
  assumes "con_ok k" and "0 \<le> c" "c < 256"
  shows "\<exists>k' wk. cons_key c k = Ret (k', wk) \<and> con_ok k' \<and>
    (committed k', editing k') = key_spec c (committed k, editing k) \<and> (wk \<longleftrightarrow> committed k' \<noteq> committed k)"
proof -
  consider "c = 16" | "c \<in> {21, 8, 0x7F}" | "c \<notin> {16, 21, 8, 0x7F}" by auto
  then show ?thesis
  proof cases
    case 1
    then show ?thesis using assms(1) by (simp add: cons_key_def key_spec_def)
  next
    case 2
    then show ?thesis using key_erase [OF assms(1), of c] by (auto simp: key_spec_def)
  qed (use key_insert [OF assms(1)] assms(2,3) in blast)
qed

lemma con_wakeup: "con (wakeup ch s) = con s"
  by (simp add: wakeup_def wakeup1_def Let_def)

lemma consoleintr_refines:
  "con_ok (con s) \<Longrightarrow> \<forall>c \<in> set cs. 0 \<le> c \<and> c < 256 \<Longrightarrow>
   \<exists>s'. consoleintr_loop cs d s = Ret (d \<or> 16 \<in> set cs, s') \<and> con_ok (con s') \<and>
     (committed (con s'), editing (con s')) = fold key_spec cs (committed (con s), editing (con s))"
proof (induction cs arbitrary: d s)
  case (Cons c cs)
  obtain k' wk where k: "cons_key c (con s) = Ret (k', wk)" "con_ok k'"
      "(committed k', editing k') = key_spec c (committed (con s), editing (con s))"
    using key_step [OF Cons.prems(1), of c] Cons.prems(2) by auto
  let ?s = "if wk then wakeup ChInput (s\<lparr>con := k'\<rparr>) else s\<lparr>con := k'\<rparr>"
  have con: "con ?s = k'" by (simp add: con_wakeup)
  show ?case using Cons.IH [of ?s "d \<or> c = 16"] Cons.prems(2) k unfolding con by (auto simp: Let_def)
qed simp

text \<open>
  C37. The console's input stays well-formed while its counters wrap around, and the cursor stays
  on the screen, whatever is typed and read. A key always finishes; it changes the line being
  edited and the lines to be read as \<open>key_spec\<close> says, never touching what is already committed
  except to add to it, and wakes the readers exactly then. An interrupt that delivers any number of
  characters handles each of them so, in order, and asks for the process listing exactly when one
  of them is \<open>C('P')\<close>, which goes into neither queue. A read takes what \<open>read_spec\<close> says from the
  front of the committed characters.
\<close>

theorem console_input_wellformed:
  assumes "con_ok k"
  shows "(0 \<le> c \<and> c < 256 \<longrightarrow> (\<exists>k' wk. cons_key c k = Ret (k', wk) \<and> con_ok k' \<and>
        (committed k', editing k') = key_spec c (committed k, editing k) \<and> (wk \<longleftrightarrow> committed k' \<noteq> committed k))) \<and>
    (\<forall>s :: 'a consst_scheme. con s = k \<and> (\<forall>c \<in> set cs. 0 \<le> c \<and> c < 256) \<longrightarrow>
      (\<exists>s'. consoleintr_loop cs False s = Ret (16 \<in> set cs, s') \<and> con_ok (con s') \<and>
        (committed (con s'), editing (con s')) = fold key_spec cs (committed k, editing k))) \<and>
    (\<forall>res k'. consoleread_loop kld target n got k = (res, k') \<longrightarrow> con_ok k' \<and>
        (res, committed k') = read_spec kld target n got (committed k) \<and> editing k' = editing k)"
proof (intro conjI allI impI, goal_cases)
  case 1
  then show ?case using key_step [OF assms] by blast
next
  case (2 s)
  then show ?case using consoleintr_refines [of s cs False] assms by simp
qed (use consoleread_refines [OF assms] in blast)+

text \<open>Counters about to wrap around, with \<open>l\<close> and a newline committed and \<open>x\<close> being edited.\<close>

definition demo_con :: console where
  "demo_con = \<lparr>panicked = False, crt = \<lambda>_. 0, crtpos = 1919, uart_on = True, sent = [],
     inbuf = ((replicate 128 0)[126 := 108, 127 := 10, 0 := 120]), in_r = - 2, in_w = 0, in_e = 1, kshift = 0\<rparr>"

lemma demo_con_ok: "con_ok demo_con" "committed demo_con = [108, 10]" "editing demo_con = [120]"
proof -
  have t: "typed demo_con = [108, 10, 120]" "in_ready demo_con = 2" "in_len demo_con = 3"
    by (simp_all add: demo_con_def typed_def in_at_def in_ready_def in_len_def upt_rec)
  then show "committed demo_con = [108, 10]" "editing demo_con = [120]" by (simp_all add: committed_def editing_def)
  with t show "con_ok demo_con" by (simp add: con_ok_def input_ok_def ring_ok_def screen_ok_def) (simp add: demo_con_def)
qed

theorem console_input_wellformed_witness:
  "(\<exists>k'. cons_key 13 demo_con = Ret (k', True) \<and> con_ok k' \<and> committed k' = [108, 10, 120, 10] \<and> editing k' = []) \<and>
   (\<exists>s'. consoleintr_loop [16, 8, 121] False (procst.extend demo_pst (consst.fields demo_con)) = Ret (True, s') \<and>
      committed (con s') = [108, 10] \<and> editing (con s') = [121])"
proof
  show "\<exists>k'. cons_key 13 demo_con = Ret (k', True) \<and> con_ok k' \<and> committed k' = [108, 10, 120, 10] \<and> editing k' = []"
    using console_input_wellformed [OF demo_con_ok(1), of 13 "[]" False 0 0 "[]"] by (auto simp: key_spec_def demo_con_ok)
  have "con (procst.extend demo_pst (consst.fields demo_con)) = demo_con" by (simp add: procst.defs consst.defs)
  then show "\<exists>s'. consoleintr_loop [16, 8, 121] False (procst.extend demo_pst (consst.fields demo_con)) = Ret (True, s') \<and>
      committed (con s') = [108, 10] \<and> editing (con s') = [121]"
    using console_input_wellformed [OF demo_con_ok(1), of 0 "[16, 8, 121]" False 0 0 "[]"]
    by (fastforce simp: key_spec_def demo_con_ok simp del: consoleintr_loop.simps)
qed

end
