(* ===== verification/Trap.thy ===== *)
theory Trap
  imports Console
begin

text \<open>
  Traps and interrupts (\<^verbatim>\<open>trap.c\<close>): system calls, the clock, the devices, and faults of user
  programs. The trap frame is in memory at \<open>tf\<close>, where \<open>trapasm.S\<close> has pushed it. What the
  interrupting device has to deliver is an argument (\<open>data\<close>), as is whether the CPU is the first
  one (\<open>cpu0\<close>), which alone counts clock ticks. What the scheduler and the other processes do
  from the moment \<open>yield\<close> gives the CPU away until this process has it again is an argument too
  (\<open>resume\<close>), and may be anything. A disk request is complete when \<open>iderw\<close> returns in this model,
  which runs \<open>ideintr\<close> while it waits, so nobody sleeps for a buffer when the interrupt comes through
  \<open>trap\<close>. Acknowledging an interrupt and the messages on the console are left out. The gates of \<open>tvinit\<close> have the bit fields of \<^verbatim>\<open>mmu.h\<close>; the entry
  points \<open>vectors\<close> are generated assembly and so an argument.
\<close>

section \<open>Definitions\<close>

abbreviation (input) T_SYSCALL :: u32 where "T_SYSCALL \<equiv> 64"
abbreviation (input) T_TIMER :: u32 where "T_TIMER \<equiv> 32"
abbreviation (input) T_KBD :: u32 where "T_KBD \<equiv> 33"
abbreviation (input) T_COM1 :: u32 where "T_COM1 \<equiv> 36"
abbreviation (input) T_IDE :: u32 where "T_IDE \<equiv> 46"

record gatedesc =
  off_15_0 :: "16 word"
  gate_cs :: "16 word"
  gate_args :: "5 word"
  gate_rsv1 :: "3 word"
  gate_type :: "4 word"
  gate_s :: "1 word"
  gate_dpl :: "2 word"
  gate_p :: "1 word"
  off_31_16 :: "16 word"

definition SETGATE :: "bool \<Rightarrow> u32 \<Rightarrow> u32 \<Rightarrow> u32 \<Rightarrow> gatedesc" where
  "SETGATE istrap sel off d =
     \<lparr>off_15_0 = ucast (off AND 0xffff), gate_cs = ucast sel, gate_args = 0, gate_rsv1 = 0,
      gate_type = (if istrap then 0xF else 0xE), gate_s = 0, gate_dpl = ucast d, gate_p = 1,
      off_31_16 = ucast (drop_bit 16 off)\<rparr>"

definition tvinit :: "(nat \<Rightarrow> u32) \<Rightarrow> gatedesc list" where
  "tvinit vectors =
     (map (\<lambda>i. SETGATE False (push_bit 3 1) (vectors i) 0) [0..<256])
       [unat T_SYSCALL := SETGATE True (push_bit 3 1) (vectors (unat T_SYSCALL)) 3]"

text \<open>\<open>(tf->cs & 3) == DPL_USER\<close> and \<open>(tf->cs & 3) == 0\<close>.\<close>

definition from_user :: "u32 \<Rightarrow> 'a procst_scheme \<Rightarrow> bool" where
  "from_user tf s \<longleftrightarrow> memory (km s) (tf + TF_CS) AND 3 = 3"

definition from_kernel :: "u32 \<Rightarrow> 'a procst_scheme \<Rightarrow> bool" where
  "from_kernel tf s \<longleftrightarrow> memory (km s) (tf + TF_CS) AND 3 = 0"

text \<open>The switch: what each trap does itself.\<close>

definition trap_dispatch :: "bool \<Rightarrow> bytes \<Rightarrow> u32 \<Rightarrow> 'a consst_scheme \<Rightarrow> 'a consst_scheme outcome" where
  "trap_dispatch cpu0 data tf s =
     (let no = load32 (memory (km s)) (tf + TF_TRAPNO) in
      if no = T_TIMER then Ret (if cpu0 then wakeup ChTicks (s\<lparr>ticks := ticks s + 1\<rparr>) else s)
      else if no = T_IDE then ideintr s
      else if no = T_IDE + 1 then Ret s
      else if no = T_KBD then kbdintr data s
      else if no = T_COM1 then uartintr data s
      else if no = 39 \<or> no = 63 then Ret s
      else case cpuproc s of
        None \<Rightarrow> Panic ''trap''
      | Some p \<Rightarrow>
          if from_kernel tf s then Panic ''trap''
          else Ret (upd_proc p (\<lambda>x. x\<lparr>killed := True\<rparr>) s))"

text \<open>\<open>exit\<close> when the process has been killed and was in user space; it does not come back.\<close>

definition exit_if_killed :: "('a consst_scheme, 'e) penv_scheme \<Rightarrow> u32 \<Rightarrow> 'a consst_scheme \<Rightarrow> 'a consst_scheme outcome" where
  "exit_if_killed e tf s =
     (case cpuproc s of
        Some p \<Rightarrow> if killed (procs s p) \<and> from_user tf s then exit (kern_end e) s else Ret s
      | None \<Rightarrow> Ret s)"

text \<open>
  \<open>trap\<close>, for a system call and otherwise. After a process has left the CPU for good, in \<open>exit\<close>,
  \<open>cpuproc\<close> is empty and the remaining steps do nothing.
\<close>

definition trap_syscall :: "('a consst_scheme, 'e) penv_scheme \<Rightarrow> u32 \<Rightarrow> 'a consst_scheme \<Rightarrow> 'a consst_scheme outcome" where
  "trap_syscall e tf s =
     and_then (curproc s) (\<lambda>p.
     if killed (procs s p) then exit (kern_end e) s
     else
       and_then (syscall e (upd_proc p (\<lambda>x. x\<lparr>ptf := tf\<rparr>) s)) (\<lambda>s.
       case cpuproc s of
         None \<Rightarrow> Ret s
       | Some p \<Rightarrow> if killed (procs s p) then exit (kern_end e) s else Ret s))"

definition trap :: "('a consst_scheme, 'e) penv_scheme \<Rightarrow> ('a consst_scheme \<Rightarrow> 'a consst_scheme outcome) \<Rightarrow>
    bool \<Rightarrow> bytes \<Rightarrow> u32 \<Rightarrow> 'a consst_scheme \<Rightarrow> 'a consst_scheme outcome" where
  "trap e resume cpu0 data tf s =
     (if load32 (memory (km s)) (tf + TF_TRAPNO) = T_SYSCALL then trap_syscall e tf s
      else
        and_then (trap_dispatch cpu0 data tf s) (\<lambda>s.
        and_then (exit_if_killed e tf s) (\<lambda>s.
        and_then
          (case cpuproc s of
             Some p \<Rightarrow>
               if pstate (procs s p) = RUNNING \<and> load32 (memory (km s)) (tf + TF_TRAPNO) = T_TIMER
               then and_then (yield s) resume
               else Ret s
           | None \<Rightarrow> Ret s)
          (exit_if_killed e tf))))"

section \<open>Killed processes do not return to user space\<close>

lemma exit_switches: "exit kend s = Ret s' \<Longrightarrow> cpuproc s' = None"
  by (auto simp: exit_def exit_table_def sched_def Let_def elim!: and_then_RetE split: if_splits)

lemma exit_if_killed_alive:
  "exit_if_killed e tf s = Ret s' \<Longrightarrow> cpuproc s' = Some p \<Longrightarrow> from_user tf s' \<Longrightarrow> \<not> killed (procs s' p)"
  by (auto simp: exit_if_killed_def split: option.splits if_splits dest: exit_switches)

lemma trap_returns_alive:
  assumes "trap e resume cpu0 data tf s = Ret s'" and "cpuproc s' = Some p" and "from_user tf s'"
  shows "\<not> killed (procs s' p)"
proof (cases "load32 (memory (km s)) (tf + TF_TRAPNO) = T_SYSCALL")
  case True
  then show ?thesis
    using assms(1,2)
    by (auto simp: trap_def trap_syscall_def elim!: and_then_RetE split: if_splits option.splits dest!: exit_switches)
next
  case False
  then obtain t where "exit_if_killed e tf t = Ret s'"
    using assms(1) by (auto simp: trap_def elim!: and_then_RetE)
  then show ?thesis using assms(2,3) by (rule exit_if_killed_alive)
qed

text \<open>A clock tick from user space, the process not killed: it gives the CPU up and is looked at once more.\<close>

lemma tick_trap:
  assumes "load32 (memory (km s)) (tf + TF_TRAPNO) = T_TIMER" and "cpuproc s = Some p"
    and "pstate (procs s p) = RUNNING" and "\<not> killed (procs s p)"
  shows "trap e resume cpu0 data tf s =
    and_then (and_then (yield (if cpu0 then wakeup ChTicks (s\<lparr>ticks := ticks s + 1\<rparr>) else s)) resume) (exit_if_killed e tf)"
proof -
  let ?s = "if cpu0 then wakeup ChTicks (s\<lparr>ticks := ticks s + 1\<rparr>) else s"
  have "cpuproc ?s = Some p" "pstate (procs ?s p) = RUNNING" "\<not> killed (procs ?s p)" "memory (km ?s) = memory (km s)"
    using assms(2-4) by (simp_all add: wakeup_def wakeup1_def Let_def)
  then show ?thesis using assms(1) by (simp add: trap_def trap_dispatch_def exit_if_killed_def)
qed

text \<open>The traps that have a case of their own in the switch; any other is a fault.\<close>

definition handled :: "u32 \<Rightarrow> bool" where
  "handled no \<longleftrightarrow> no \<in> {T_SYSCALL, T_TIMER, T_KBD, T_COM1, T_IDE, T_IDE + 1, 39, 63}"

lemma fault_dispatch:
  assumes "\<not> handled (load32 (memory (km s)) (tf + TF_TRAPNO))"
  shows "trap_dispatch cpu0 data tf s =
    (case cpuproc s of
       None \<Rightarrow> Panic ''trap''
     | Some p \<Rightarrow> if from_kernel tf s then Panic ''trap'' else Ret (upd_proc p (\<lambda>x. x\<lparr>killed := True\<rparr>) s))"
  using assms by (simp add: handled_def trap_dispatch_def Let_def)

lemma fault_trap:
  assumes "\<not> handled (load32 (memory (km s)) (tf + TF_TRAPNO))" and "cpuproc s = Some p" and "from_user tf s"
  shows "trap e resume cpu0 data tf s = exit (kern_end e) (upd_proc p (\<lambda>x. x\<lparr>killed := True\<rparr>) s)"
proof -
  let ?s = "upd_proc p (\<lambda>x. x\<lparr>killed := True\<rparr>) s"
  have u: "from_user tf ?s" "\<not> from_kernel tf s" "cpuproc ?s = Some p" "killed (procs ?s p)"
    using assms(2,3) by (auto simp: from_user_def from_kernel_def upd_proc_def)
  have d: "trap_dispatch cpu0 data tf s = Ret ?s" using fault_dispatch [OF assms(1)] assms(2) u(2) by simp
  have x: "exit_if_killed e tf ?s = exit (kern_end e) ?s" using u by (simp add: exit_if_killed_def)
  have "load32 (memory (km s)) (tf + TF_TRAPNO) \<noteq> T_SYSCALL" using assms(1) by (auto simp: handled_def)
  then show ?thesis unfolding trap_def d and_then_simps x if_False
    by (cases "exit (kern_end e) ?s") (auto simp: exit_if_killed_def dest: exit_switches)
qed

lemma fault_trap_kernel:
  assumes "\<not> handled (load32 (memory (km s)) (tf + TF_TRAPNO))" and "cpuproc s = None \<or> from_kernel tf s"
  shows "trap e resume cpu0 data tf s = Panic ''trap''"
  using assms fault_dispatch [OF assms(1), of cpu0 data]
  by (auto simp: trap_def Let_def handled_def split: option.splits)

text \<open>The gates: entered through \<open>vectors\<close> in kernel code, and only the system call's from user mode.\<close>

lemma tvinit_gates:
  assumes "i < 256"
  shows "unat (off_15_0 (tvinit vectors ! i)) + 65536 * unat (off_31_16 (tvinit vectors ! i)) = unat (vectors i)"
    and "gate_cs (tvinit vectors ! i) = 8"
    and "gate_dpl (tvinit vectors ! i) = 3 \<longleftrightarrow> i = 64"
proof -
  have "unat (ucast (w AND 0xffff) :: 16 word) + 65536 * unat (ucast (drop_bit 16 w) :: 16 word) = unat w" for w :: u32
  proof -
    have "unat (ucast (w AND 0xffff) :: 16 word) = unat w mod 65536"
      using take_bit_eq_mask [of 16 "unat w"]
      by (simp add: mask_eq_exp_minus_1 unsigned_ucast_eq unsigned_and_eq take_bit_eq_mod)
    moreover have "unat (ucast (drop_bit 16 w) :: 16 word) = unat w div 65536"
      using unsigned_less [of w, where 'a = nat]
      by (simp add: unsigned_ucast_eq unat_div drop_bit_eq_div take_bit_eq_mod less_mult_imp_div_less)
    ultimately show ?thesis by simp
  qed
  then show "unat (off_15_0 (tvinit vectors ! i)) + 65536 * unat (off_31_16 (tvinit vectors ! i)) = unat (vectors i)"
    using assms by (cases "i = 64") (simp_all add: tvinit_def SETGATE_def)
  show "gate_cs (tvinit vectors ! i) = 8" "gate_dpl (tvinit vectors ! i) = 3 \<longleftrightarrow> i = 64"
    using assms by (cases "i = 64"; simp add: tvinit_def SETGATE_def)+
qed

text \<open>
  C38. Faults and killed processes: a trap that returns to a process in user space returns to one
  that is not killed, also when the process has lost the CPU in between and whatever happened then.
  A clock tick makes a running process that has not been killed give the CPU up, and it exits when it has the CPU
  again and has been killed meanwhile. A trap that is neither a system call nor an interrupt stops
  the kernel when it happened in the kernel, and otherwise marks the process killed and makes it
  exit, so that no process runs on after its fault.
\<close>

theorem trap_contains_faults:
  fixes s :: "'a consst_scheme" and tf :: u32
  defines "no \<equiv> load32 (memory (km s)) (tf + TF_TRAPNO)"
  shows "(\<forall>s' p. trap e resume cpu0 data tf s = Ret s' \<and> cpuproc s' = Some p \<and> from_user tf s' \<longrightarrow> \<not> killed (procs s' p)) \<and>
    (\<forall>p t u q. no = T_TIMER \<and> cpuproc s = Some p \<and> pstate (procs s p) = RUNNING \<and> \<not> killed (procs s p) \<and>
      yield (if cpu0 then wakeup ChTicks (s\<lparr>ticks := ticks s + 1\<rparr>) else s) = Ret t \<and>
      resume t = Ret u \<and> cpuproc u = Some q \<and> from_user tf u \<longrightarrow>
      trap e resume cpu0 data tf s = (if killed (procs u q) then exit (kern_end e) u else Ret u)) \<and>
    (\<not> handled no \<and> (cpuproc s = None \<or> from_kernel tf s) \<longrightarrow> trap e resume cpu0 data tf s = Panic ''trap'') \<and>
    (\<forall>p. \<not> handled no \<and> cpuproc s = Some p \<and> from_user tf s \<longrightarrow>
      trap e resume cpu0 data tf s = exit (kern_end e) (upd_proc p (\<lambda>x. x\<lparr>killed := True\<rparr>) s))"
proof (intro conjI allI impI, goal_cases)
  case (1 s' p)
  then show ?case using trap_returns_alive by blast
next
  case (2 p t u q)
  then show ?case using tick_trap [of s tf p e resume cpu0 data] by (simp add: no_def exit_if_killed_def)
next
  case 3
  then show ?case unfolding no_def by (intro fault_trap_kernel) auto
next
  case (4 p)
  then show ?case unfolding no_def by (intro fault_trap) auto
qed

text \<open>The demonstration process, in user mode with a trap frame at \<open>0x80301000\<close>.\<close>

definition demo_trap :: "u8 \<Rightarrow> consst" where
  "demo_trap no = procst.extend
     (demo_pst\<lparr>km := (km demo_pst)\<lparr>memory := (\<lambda>a. if a = 0x80301030 then no else if a = 0x8030103C then 3 else 0)\<rparr>\<rparr>)
     (consst.fields demo_con)"

lemma le32_byte: "le32 b 0 0 0 = ucast b"
  by (simp add: le32_def)

lemma demo_trap_fields:
  "load32 (memory (km (demo_trap no))) (0x80301000 + TF_TRAPNO) = ucast no" "cpuproc (demo_trap no) = Some 1"
  "from_user 0x80301000 (demo_trap no)" "procs (demo_trap no) = demo_proc" "con (demo_trap no) = demo_con"
  by (simp_all add: demo_trap_def procst.defs consst.defs load32_def le32_byte from_user_def)

text \<open>A keyboard interrupt with nothing to read comes back; a general protection fault ends the process.\<close>

definition demo_cenv :: "consst penv" where
  "demo_cenv = \<lparr>kern_end = KERNLINK, dev_switch = (\<lambda>k. \<lparr>dev_read = None, dev_write = None\<rparr>), kern_data = 0x80108000,
     trapret_at = 0x80105000, forkret_at = 0x80103000, initcode = []\<rparr>"

text \<open>While process 1 is off the CPU it is killed; then it runs again.\<close>

definition demo_resume :: "consst \<Rightarrow> consst outcome" where
  "demo_resume s = Ret (upd_proc 1 (\<lambda>x. x\<lparr>killed := True, pstate := RUNNING\<rparr>) (s\<lparr>cpuproc := Some 1\<rparr>))"

lemma demo_yield: "yield (demo_trap no) = Ret ((upd_proc 1 (\<lambda>x. x\<lparr>pstate := RUNNABLE\<rparr>) (demo_trap no))\<lparr>cpuproc := None\<rparr>)"
  using demo_trap_fields(2) by (simp add: yield_def curproc_def sched_def)

lemma demo_kbd: "trap demo_cenv Ret True [] 0x80301000 (demo_trap 33) = Ret (demo_trap 33)"
  using demo_trap_fields [of 33]
  by (simp add: trap_def trap_dispatch_def kbdintr_def consoleintr_def exit_if_killed_def demo_proc_def)

theorem trap_contains_faults_witness:
  "\<not> killed (procs (demo_trap 33) 1) \<and>
   (\<exists>u. trap demo_cenv demo_resume False [] 0x80301000 (demo_trap 32) = exit KERNLINK u \<and>
      cpuproc u = Some 1 \<and> killed (procs u 1)) \<and>
   trap demo_cenv Ret True [] 0x80301000 (demo_trap 13) = exit KERNLINK (upd_proc 1 (\<lambda>x. x\<lparr>killed := True\<rparr>) (demo_trap 13))"
proof (intro conjI)
  have k: "kern_end demo_cenv = KERNLINK" by (simp add: demo_cenv_def)
  show "\<not> killed (procs (demo_trap 33) 1)"
    using trap_contains_faults [of demo_cenv Ret True "[]" "0x80301000" "demo_trap 33"] demo_kbd
    by (simp add: demo_trap_fields)
  define t where "t = (upd_proc 1 (\<lambda>x. x\<lparr>pstate := RUNNABLE\<rparr>) (demo_trap 32))\<lparr>cpuproc := None\<rparr>"
  define u where "u = upd_proc 1 (\<lambda>x. x\<lparr>killed := True, pstate := RUNNING\<rparr>) (t\<lparr>cpuproc := Some 1\<rparr>)"
  have u: "yield (demo_trap 32) = Ret t" "demo_resume t = Ret u" "cpuproc u = Some 1" "killed (procs u 1)"
    by (simp_all add: demo_yield t_def demo_resume_def u_def)
  have "from_user 0x80301000 u"
    using demo_trap_fields(3) [of 32] by (simp add: from_user_def u_def t_def upd_proc_def)
  moreover have "load32 (memory (km (demo_trap 32))) (0x80301000 + TF_TRAPNO) = T_TIMER"
    unfolding demo_trap_fields by simp
  moreover have "pstate (procs (demo_trap 32) 1) = RUNNING" "\<not> killed (procs (demo_trap 32) 1)"
    by (simp_all add: demo_trap_fields(4) demo_proc_def)
  ultimately have "trap demo_cenv demo_resume False [] 0x80301000 (demo_trap 32) = exit KERNLINK u"
    using trap_contains_faults [of demo_cenv demo_resume False "[]" "0x80301000" "demo_trap 32",
        THEN conjunct2, THEN conjunct1, rule_format, of 1 t u 1] demo_trap_fields(2) [of 32] u k by simp
  then show "\<exists>u. trap demo_cenv demo_resume False [] 0x80301000 (demo_trap 32) = exit KERNLINK u \<and>
      cpuproc u = Some 1 \<and> killed (procs u 1)" using u by blast
  have "\<not> handled (load32 (memory (km (demo_trap 13))) (0x80301000 + TF_TRAPNO))"
    unfolding demo_trap_fields by (simp add: handled_def)
  then show "trap demo_cenv Ret True [] 0x80301000 (demo_trap 13) =
      exit KERNLINK (upd_proc 1 (\<lambda>x. x\<lparr>killed := True\<rparr>) (demo_trap 13))"
    using trap_contains_faults [of demo_cenv Ret True "[]" "0x80301000" "demo_trap 13",
        THEN conjunct2, THEN conjunct2, THEN conjunct2, rule_format, of 1] demo_trap_fields(2,3) [of 13] k by simp
qed

end
