(* ===== verification/Grep.thy ===== *)
theory Grep
  imports Ulib
begin

text \<open>
  Searching text (\<^verbatim>\<open>grep.c\<close>): the matcher for \<open>^\<close>, \<open>.\<close>, \<open>*\<close> and \<open>$\<close>, and the loop that reads a file
  through a buffer of 1024 bytes and prints the matching lines. Pattern and text are the lists of
  the bytes before their NUL.

  The meaning of a pattern is given independently of the matcher: it is a sequence of items, each
  of which denotes a set of strings.
\<close>

section \<open>Definitions\<close>

text \<open>The characters \<open>^\<close>, \<open>.\<close>, \<open>*\<close> and \<open>$\<close>.\<close>

abbreviation (input) CARET :: u8 where "CARET \<equiv> 94"
abbreviation (input) DOT :: u8 where "DOT \<equiv> 46"
abbreviation (input) STAR :: u8 where "STAR \<equiv> 42"
abbreviation (input) DOLLAR :: u8 where "DOLLAR \<equiv> 36"

function matchhere :: "bytes \<Rightarrow> bytes \<Rightarrow> bool"
  and matchstar :: "u8 \<Rightarrow> bytes \<Rightarrow> bytes \<Rightarrow> bool" where
  "matchhere re tx =
     (case re of
        [] \<Rightarrow> True
      | c # re \<Rightarrow>
          if re \<noteq> [] \<and> hd re = STAR then matchstar c (tl re) tx
          else if c = DOLLAR \<and> re = [] then tx = []
          else (case tx of [] \<Rightarrow> False | t # tx \<Rightarrow> (c = DOT \<or> c = t) \<and> matchhere re tx))"
| "matchstar c re tx =
     (matchhere re tx \<or>
      (case tx of [] \<Rightarrow> False | t # tx \<Rightarrow> (t = c \<or> c = DOT) \<and> matchstar c re tx))"
  by pat_completeness auto

termination
  by (relation "measure (\<lambda>x. case x of Inl (re, tx) \<Rightarrow> 2 * (length re + length tx)
        | Inr (c, re, tx) \<Rightarrow> 2 * (length re + length tx) + 1)") auto

declare matchhere.simps [simp del] matchstar.simps [simp del]

fun match_from :: "bytes \<Rightarrow> bytes \<Rightarrow> bool" where
  "match_from re [] = matchhere re []"
| "match_from re (t # tx) = (matchhere re (t # tx) \<or> match_from re tx)"

definition match :: "bytes \<Rightarrow> bytes \<Rightarrow> bool" where
  "match re tx = (if re \<noteq> [] \<and> hd re = CARET then matchhere (tl re) tx else match_from re tx)"

text \<open>
  The lines of the buffer, up to the last newline before a NUL: what is printed, and the rest
  from \<open>p\<close> on. The flag says whether there was a line.
\<close>

function grep_lines :: "bytes \<Rightarrow> bytes \<Rightarrow> bytes \<times> bool \<times> bytes" where
  "grep_lines pattern buf =
     (case strchr (takeWhile (\<lambda>b. b \<noteq> 0) buf) 10 of
        None \<Rightarrow> ([], False, buf)
      | Some k \<Rightarrow>
          let line = take k buf in
          (case grep_lines pattern (drop (Suc k) buf) of
             (out, _, rest) \<Rightarrow> ((if match pattern line then line @ [10] else []) @ out, True, rest)))"
  by pat_completeness auto

termination
  by (relation "measure (\<lambda>(pattern, buf). length buf)") (auto split: list.splits, case_tac buf, auto)

declare grep_lines.simps [simp del]

text \<open>
  The loop of \<open>grep\<close>, given what the successive calls of \<open>read\<close> return until one returns no bytes;
  \<open>kept\<close> is what \<open>buf\<close> holds from the turn before. A read returns at most what it is asked for.
\<close>

fun grep :: "bytes \<Rightarrow> bytes \<Rightarrow> bytes list \<Rightarrow> bytes outcome" where
  "grep pattern kept [] = Ret []"
| "grep pattern kept (c # cs) =
     (if length kept + length c > 1023 then Fault ''read''
      else case grep_lines pattern (kept @ c) of
        (out, found, rest) \<Rightarrow>
          and_then (grep pattern (if found then rest else []) cs) (\<lambda>out'. Ret (out @ out')))"

section \<open>The meaning of patterns\<close>

datatype item = One u8 | Many u8

text \<open>The items of a pattern, and whether it ends in \<open>$\<close>.\<close>

fun items :: "bytes \<Rightarrow> item list \<times> bool" where
  "items [] = ([], False)"
| "items [c] = (if c = DOLLAR then ([], True) else ([One c], False))"
| "items (c # d # re) =
     (if d = STAR then (case items re of (is, e) \<Rightarrow> (Many c # is, e))
      else (case items (d # re) of (is, e) \<Rightarrow> (One c # is, e)))"

definition fits :: "u8 \<Rightarrow> u8 \<Rightarrow> bool" where
  "fits c t \<longleftrightarrow> c = DOT \<or> c = t"

primrec denotes :: "item list \<Rightarrow> bytes set" where
  "denotes [] = {[]}"
| "denotes (i # is) =
     (case i of
        One c \<Rightarrow> {t # u | t u. fits c t \<and> u \<in> denotes is}
      | Many c \<Rightarrow> {ts @ u | ts u. (\<forall>t \<in> set ts. fits c t) \<and> u \<in> denotes is})"

definition starts :: "item list \<times> bool \<Rightarrow> bytes \<Rightarrow> bool" where
  "starts ie tx \<longleftrightarrow> (\<exists>u v. tx = u @ v \<and> u \<in> denotes (fst ie) \<and> (snd ie \<longrightarrow> v = []))"

lemma starts_Nil: "starts ([], e) tx \<longleftrightarrow> (e \<longrightarrow> tx = [])"
  by (auto simp: starts_def)

lemma split_first:
  "(\<exists>u v. tx = u @ v \<and> (u \<in> A \<or> (\<exists>t w. u = t # w \<and> P t \<and> w \<in> B)) \<and> E v) \<longleftrightarrow>
   (\<exists>u v. tx = u @ v \<and> u \<in> A \<and> E v) \<or> (\<exists>t w v. tx = t # w @ v \<and> P t \<and> w \<in> B \<and> E v)" (is "?L \<longleftrightarrow> ?R")
proof
  assume ?L
  then consider u v where "tx = u @ v" "u \<in> A" "E v" | t w v where "tx = t # w @ v" "P t" "w \<in> B" "E v" by auto
  then show ?R by cases blast+
next
  assume ?R
  then consider u v where "tx = u @ v" "u \<in> A" "E v" | t w v where "tx = t # w @ v" "P t" "w \<in> B" "E v" by blast
  then show ?L
  proof cases
    case 2
    then have "tx = (t # w) @ v \<and> (t # w \<in> A \<or> (\<exists>t' w'. t # w = t' # w' \<and> P t' \<and> w' \<in> B)) \<and> E v" by simp
    then show ?thesis by blast
  qed blast
qed

lemma starts_One:
  "starts (One c # is, e) tx \<longleftrightarrow> (case tx of [] \<Rightarrow> False | t # tx \<Rightarrow> fits c t \<and> starts (is, e) tx)"
proof -
  have "starts (One c # is, e) tx \<longleftrightarrow>
      (\<exists>u v. tx = u @ v \<and> (u \<in> {} \<or> (\<exists>t w. u = t # w \<and> fits c t \<and> w \<in> denotes is)) \<and> (e \<longrightarrow> v = []))"
    by (simp add: starts_def)
  also have "\<dots> \<longleftrightarrow> (\<exists>t w v. tx = t # w @ v \<and> fits c t \<and> w \<in> denotes is \<and> (e \<longrightarrow> v = []))"
    unfolding split_first by simp
  also have "\<dots> \<longleftrightarrow> (case tx of [] \<Rightarrow> False | t # tx \<Rightarrow> fits c t \<and> starts (is, e) tx)"
    unfolding starts_def fst_conv snd_conv by (cases tx) (simp_all, blast)
  finally show ?thesis .
qed

lemma starts_Many:
  "starts (Many c # is, e) tx \<longleftrightarrow> starts (is, e) tx \<or>
     (case tx of [] \<Rightarrow> False | t # tx \<Rightarrow> fits c t \<and> starts (Many c # is, e) tx)"
proof -
  have "w \<in> denotes (Many c # is) \<longleftrightarrow> w \<in> denotes is \<or> (\<exists>t w'. w = t # w' \<and> fits c t \<and> w' \<in> denotes (Many c # is))" for w
  proof
    assume "w \<in> denotes (Many c # is)"
    then obtain ts u where "w = ts @ u" "\<forall>t \<in> set ts. fits c t" "u \<in> denotes is" by auto
    then show "w \<in> denotes is \<or> (\<exists>t w'. w = t # w' \<and> fits c t \<and> w' \<in> denotes (Many c # is))"
      by (cases ts) auto
  next
    assume "w \<in> denotes is \<or> (\<exists>t w'. w = t # w' \<and> fits c t \<and> w' \<in> denotes (Many c # is))"
    then show "w \<in> denotes (Many c # is)"
    proof
      assume "w \<in> denotes is"
      then have "w = [] @ w \<and> (\<forall>t \<in> set []. fits c t) \<and> w \<in> denotes is" by simp
      then show ?thesis unfolding denotes.simps item.case by blast
    next
      assume "\<exists>t w'. w = t # w' \<and> fits c t \<and> w' \<in> denotes (Many c # is)"
      then obtain t ts u where "w = (t # ts) @ u" "\<forall>x \<in> set (t # ts). fits c x" "u \<in> denotes is" by auto
      then show ?thesis unfolding denotes.simps item.case by blast
    qed
  qed
  then have "starts (Many c # is, e) tx \<longleftrightarrow> (\<exists>u v. tx = u @ v \<and>
      (u \<in> denotes is \<or> (\<exists>t w. u = t # w \<and> fits c t \<and> w \<in> denotes (Many c # is))) \<and> (e \<longrightarrow> v = []))"
    unfolding starts_def fst_conv snd_conv by (intro iff_exI conj_cong refl)
  also have "\<dots> \<longleftrightarrow> starts (is, e) tx \<or>
     (\<exists>t w v. tx = t # w @ v \<and> fits c t \<and> w \<in> denotes (Many c # is) \<and> (e \<longrightarrow> v = []))"
    unfolding starts_def fst_conv snd_conv by (rule split_first)
  also have "\<dots> \<longleftrightarrow> starts (is, e) tx \<or>
     (case tx of [] \<Rightarrow> False | t # tx \<Rightarrow> fits c t \<and> starts (Many c # is, e) tx)"
    unfolding starts_def fst_conv snd_conv by (cases tx) (simp_all del: denotes.simps(2), blast)
  finally show ?thesis .
qed

lemma items_Cons:
  "items (c # re) =
     (if re \<noteq> [] \<and> hd re = STAR then (Many c # fst (items (tl re)), snd (items (tl re)))
      else if c = DOLLAR \<and> re = [] then ([], True)
      else (One c # fst (items re), snd (items re)))"
  by (cases re) (auto split: prod.splits)

lemma matchhere_iff: "matchhere re tx \<longleftrightarrow> starts (items re) tx"
  and matchstar_iff: "matchstar c re tx \<longleftrightarrow> starts (Many c # fst (items re), snd (items re)) tx"
proof (induction re tx and c re tx rule: matchhere_matchstar.induct)
  case (1 re tx)
  show ?case
  proof (cases re)
    case Nil
    then show ?thesis by (simp add: matchhere.simps starts_Nil)
  next
    case (Cons c re')
    show ?thesis
      using 1 [OF Cons] unfolding Cons
      by (subst matchhere.simps) (auto simp: items_Cons starts_Nil starts_One fits_def simp del: items.simps split: list.splits)
  qed
next
  case (2 c re tx)
  show ?case
    by (subst matchstar.simps, subst starts_Many) (use 2 in \<open>auto simp: fits_def split: list.splits\<close>)
qed

lemma match_from_iff: "match_from re tx \<longleftrightarrow> (\<exists>p rest. tx = p @ rest \<and> matchhere re rest)"
proof (induction tx)
  case (Cons t ts)
  then show ?case by (auto simp: Cons_eq_append_conv)
qed simp

text \<open>
  C35. The matcher finds exactly the occurrences of its pattern: \<open>match\<close> succeeds when the text has a
  part, at its start if the pattern begins with \<open>^\<close> and at its end if it ends with \<open>$\<close>, that belongs
  to the set of strings the rest of the pattern denotes.
\<close>

theorem match_iff_occurrence:
  "match re tx \<longleftrightarrow>
     (let anchored = re \<noteq> [] \<and> hd re = CARET;
          (is, at_end) = items (if anchored then tl re else re)
      in \<exists>p u v. tx = p @ u @ v \<and> u \<in> denotes is \<and> (anchored \<longrightarrow> p = []) \<and> (at_end \<longrightarrow> v = []))"
  by (auto simp: match_def match_from_iff matchhere_iff starts_def split_beta Let_def)

text \<open>The pattern \<open>^a*b$\<close>.\<close>

theorem match_iff_occurrence_witness:
  "match (ascii ''^a*b$'') (ascii ''aab'') \<and> ascii ''aab'' \<in> denotes [Many 97, One 98]"
proof -
  have "match (ascii ''^a*b$'') (ascii ''aab'')" by code_simp
  moreover have "items (tl (ascii ''^a*b$'')) = ([Many 97, One 98], True)" by code_simp
  ultimately show ?thesis
    using match_iff_occurrence [of "ascii ''^a*b$''" "ascii ''aab''"]
    by (auto simp: ascii_def Let_def simp del: denotes.simps)
qed

section \<open>Lines across reads\<close>

text \<open>
  A chunk without a newline is forgotten: a line that arrives in two reads is not found although
  it matches, nor is a last line without a newline.
\<close>

lemma grep_split_line:
  "grep (ascii ''ab'') [] [ascii ''abc'' @ [10]] = Ret (ascii ''abc'' @ [10]) \<and>
   grep (ascii ''ab'') [] [ascii ''ab'', ascii ''c'' @ [10]] = Ret []"
  by code_simp

end
