(* ===== verification/Sh.thy ===== *)
theory Sh
  imports Ulib
begin

text \<open>
  The shell (\<^verbatim>\<open>sh.c\<close>): the recursive-descent parser for command lines, the pass that terminates the
  words it found, and what a command does when it is run.

  The line \<open>b\<close> is the list of its bytes before the NUL and a pointer into it is an index, so that
  \<open>es\<close> is the length. The recursive functions of the parser carry a counter of nested calls that
  stands for the stack; running out of it is \<open>Hang\<close>. The message of \<open>panic\<close> is that of \<open>Panic\<close>;
  the line \<open>leftovers: ...\<close> that \<open>parsecmd\<close> prints before \<open>panic("syntax")\<close> is left out.
  Nodes of commands are values: the shell never changes one after it is built, except that an
  \<open>execcmd\<close> is filled with words after redirections have been wrapped around it, for which the
  redirections are collected first. That \<open>malloc\<close> succeeds is assumed, as in the code.
\<close>

section \<open>Definitions\<close>

subsection \<open>Commands\<close>

abbreviation (input) MAXARGS :: nat where "MAXARGS \<equiv> 10"

text \<open>A word is the pair of the pointers to its first byte and past its last.\<close>

datatype cmd =
    EXEC "(nat \<times> nat) list"
  | REDIR cmd nat nat u32 nat
  | PIPE cmd cmd
  | LIST cmd cmd
  | BACK cmd

subsection \<open>Tokens\<close>

definition whitespace :: bytes where "whitespace = [32, 9, 13, 10, 11]"
definition symbols :: bytes where "symbols = [60, 124, 62, 38, 59, 40, 41]"

text \<open>\<open>*s\<close>, the NUL at the end included.\<close>

definition ch :: "bytes \<Rightarrow> nat \<Rightarrow> u8" where
  "ch b s = (if s < length b then b ! s else 0)"

definition is_in :: "bytes \<Rightarrow> u8 \<Rightarrow> bool" where
  "is_in toks c \<longleftrightarrow> strchr toks c \<noteq> None"

function skip_ws :: "bytes \<Rightarrow> nat \<Rightarrow> nat" where
  "skip_ws b s = (if s < length b \<and> is_in whitespace (ch b s) then skip_ws b (s + 1) else s)"
  by pat_completeness auto

termination
  by (relation "measure (\<lambda>(b, s). length b - s)") auto

function skip_word :: "bytes \<Rightarrow> nat \<Rightarrow> nat" where
  "skip_word b s =
     (if s < length b \<and> \<not> is_in whitespace (ch b s) \<and> \<not> is_in symbols (ch b s) then skip_word b (s + 1) else s)"
  by pat_completeness auto

termination
  by (relation "measure (\<lambda>(b, s). length b - s)") auto

declare skip_ws.simps [simp del] skip_word.simps [simp del]

text \<open>The kind of token, where it begins and ends, and the new position.\<close>

definition gettoken :: "bytes \<Rightarrow> nat \<Rightarrow> u8 \<times> nat \<times> nat \<times> nat" where
  "gettoken b s =
     (let q = skip_ws b s;
          c = ch b q;
          (ret, eq) =
            (if c = 0 then (c, q)
             else if c \<in> {124, 40, 41, 59, 38, 60} then (c, q + 1)
             else if c = 62 then if ch b (q + 1) = 62 then (43, q + 2) else (c, q + 1)
             else (97, skip_word b q))
      in (ret, q, eq, skip_ws b eq))"

definition peek :: "bytes \<Rightarrow> nat \<Rightarrow> bytes \<Rightarrow> bool \<times> nat" where
  "peek b s toks = (let s = skip_ws b s in (ch b s \<noteq> 0 \<and> is_in toks (ch b s), s))"

definition after_token :: "bytes \<Rightarrow> nat \<Rightarrow> nat" where
  "after_token b s = snd (snd (snd (gettoken b s)))"

text \<open>The scanner only moves forward, which makes the loops below end.\<close>

lemma skip_ws_mono: "s \<le> skip_ws b s"
  by (induction b s rule: skip_ws.induct) (subst skip_ws.simps, auto)

lemma skip_word_mono: "s \<le> skip_word b s"
  by (induction b s rule: skip_word.induct) (subst skip_word.simps, auto)

lemma skip_ws_bound: "s \<le> length b \<Longrightarrow> skip_ws b s \<le> length b"
  by (induction b s rule: skip_ws.induct) (subst skip_ws.simps, auto)

lemma skip_word_bound: "s \<le> length b \<Longrightarrow> skip_word b s \<le> length b"
  by (induction b s rule: skip_word.induct) (subst skip_word.simps, auto)

lemma ch_bound: "ch b s \<noteq> 0 \<Longrightarrow> s < length b"
  by (simp add: ch_def split: if_splits)

lemma skip_ws_stop: "s < length b \<Longrightarrow> skip_ws b s = s \<or> is_in whitespace (ch b s)"
  by (subst skip_ws.simps) auto

lemma skip_ws_end: "skip_ws b s < length b \<Longrightarrow> \<not> is_in whitespace (ch b (skip_ws b s))"
  by (induction b s rule: skip_ws.induct) (metis skip_ws.simps)

definition ordinary :: "u8 \<Rightarrow> bool" where
  "ordinary c \<longleftrightarrow> \<not> is_in whitespace c \<and> \<not> is_in symbols c"

lemma skip_word_ordinary: "s \<le> i \<Longrightarrow> i < skip_word b s \<Longrightarrow> ordinary (ch b i)"
proof (induction b s rule: skip_word.induct)
  case (1 b s)
  show ?case
  proof (cases "s < length b \<and> ordinary (ch b s)")
    case True
    then have "skip_word b s = skip_word b (s + 1)" by (subst skip_word.simps) (simp add: ordinary_def)
    then show ?thesis using 1 True by (cases "i = s") (auto simp: ordinary_def)
  next
    case False
    then have "skip_word b s = s" by (subst skip_word.simps) (auto simp: ordinary_def)
    then show ?thesis using 1 by simp
  qed
qed

lemma skip_word_end: "skip_word b s < length b \<Longrightarrow> \<not> ordinary (ch b (skip_word b s))"
  by (induction b s rule: skip_word.induct) (metis ordinary_def skip_word.simps)

lemma is_in_iff: "is_in toks c \<longleftrightarrow> c \<in> set toks"
  unfolding is_in_def by (induction toks) auto

lemma gettoken_cases:
  obtains (nul) q s' where "gettoken b s = (0, q, q, s')" "q = skip_ws b s" "ch b q = 0" "s' = skip_ws b q"
    | (word) q eq s' where "gettoken b s = (97, q, eq, s')" "q = skip_ws b s" "q < eq" "q < length b" "eq = skip_word b q"
        "s' = skip_ws b eq"
    | (symbol) t q eq s' where "gettoken b s = (t, q, eq, s')" "q = skip_ws b s" "q < eq" "eq \<le> length b" "t \<noteq> 0" "t \<noteq> 97"
        "s' = skip_ws b eq"
proof -
  let ?q = "skip_ws b s"
  let ?c = "ch b ?q"
  consider "?c = 0" | "?c \<in> {124, 40, 41, 59, 38, 60}" | "?c = 62" "ch b (?q + 1) = 62" | "?c = 62" "ch b (?q + 1) \<noteq> 62"
    | "?c \<noteq> 0" "\<not> is_in symbols ?c" by (auto simp: is_in_iff symbols_def)
  then show thesis
  proof cases
    case 1
    then show ?thesis by (intro nul) (auto simp: gettoken_def Let_def)
  next
    case 2
    then have "?q < length b" by (intro ch_bound) auto
    then show ?thesis using 2 by (intro symbol [of ?c ?q "?q + 1" "skip_ws b (?q + 1)"]) (auto simp: gettoken_def Let_def)
  next
    case 3
    then have "?q + 1 < length b" by (intro ch_bound) auto
    then show ?thesis using 3 by (intro symbol [of 43 ?q "?q + 2" "skip_ws b (?q + 2)"]) (auto simp: gettoken_def Let_def)
  next
    case 4
    then have "?q < length b" by (intro ch_bound) auto
    then show ?thesis using 4 by (intro symbol [of 62 ?q "?q + 1" "skip_ws b (?q + 1)"]) (auto simp: gettoken_def Let_def)
  next
    case 5
    then have q: "?q < length b" by (intro ch_bound)
    then have "\<not> is_in whitespace ?c" by (rule skip_ws_end)
    then have "skip_word b ?q = skip_word b (?q + 1)" using q 5 by (subst skip_word.simps) simp
    then have "?q < skip_word b ?q" using skip_word_mono [of "?q + 1" b] by simp
    then show ?thesis using 5 q by (intro word) (auto simp: gettoken_def Let_def is_in_iff symbols_def)
  qed
qed

lemma token_progress:
  assumes "fst (gettoken b s) \<noteq> 0"
  shows "s < after_token b s \<and> s < length b"
proof (cases rule: gettoken_cases [of b s])
  case nul
  then show ?thesis using assms by simp
next
  case (word q eq s')
  then show ?thesis using skip_ws_mono [of s b] skip_ws_mono [of eq b] by (simp add: after_token_def)
next
  case (symbol t q eq s')
  then show ?thesis using skip_ws_mono [of s b] skip_ws_mono [of eq b] by (simp add: after_token_def)
qed

lemma fst_gettoken: "fst (gettoken b s) = 0 \<longleftrightarrow> ch b (skip_ws b s) = 0"
proof (cases rule: gettoken_cases [of b s])
  case (symbol t q eq s')
  then show ?thesis by (auto simp: gettoken_def Let_def split: if_splits)
qed (auto simp: gettoken_def Let_def split: if_splits)

lemma skip_ws_again [simp]: "skip_ws b (skip_ws b s) = skip_ws b s"
proof (cases "skip_ws b s < length b")
  case True
  then show ?thesis using skip_ws_stop skip_ws_end by blast
qed (subst skip_ws.simps, simp)

lemma peek_progress:
  assumes "peek b s toks = (True, s')"
  shows "s \<le> s' \<and> s' < after_token b s' \<and> s' < length b \<and> ch b s' \<in> set toks"
proof -
  have s': "s' = skip_ws b s" "ch b s' \<noteq> 0" "is_in toks (ch b s')" using assms by (auto simp: peek_def Let_def)
  then have "fst (gettoken b s') \<noteq> 0" by (simp add: fst_gettoken)
  then show ?thesis using s' token_progress skip_ws_mono by (simp add: is_in_iff)
qed

subsection \<open>The parser\<close>

text \<open>The loop of \<open>parseline\<close> over \<open>&\<close>.\<close>

function parse_back :: "bytes \<Rightarrow> cmd \<Rightarrow> nat \<Rightarrow> cmd \<times> nat" where
  "parse_back b cmd s =
     (case peek b s [38] of
        (True, s) \<Rightarrow> parse_back b (BACK cmd) (after_token b s)
      | (False, s) \<Rightarrow> (cmd, s))"
  by pat_completeness auto

termination
  by (relation "measure (\<lambda>(b, cmd, s). length b - s)") (auto dest!: peek_progress [OF sym])

declare parse_back.simps [simp del]

lemma redir_progress:
  assumes p: "peek b s toks = (True, s1)" and t: "gettoken b s1 = (tok, x, y, s2)" "gettoken b s2 = (t, q, eq, s3)" "t = 97"
  shows "length b - s3 < length b - s"
proof -
  have "after_token b s1 = s2" "after_token b s2 = s3" "fst (gettoken b s2) \<noteq> 0" by (simp_all add: after_token_def t)
  then show ?thesis using peek_progress [OF p] token_progress [of b s2] by auto
qed

text \<open>Redirections: file, its end, mode and descriptor, in the order they are written.\<close>

function parseredirs :: "bytes \<Rightarrow> (nat \<times> nat \<times> u32 \<times> nat) list \<Rightarrow> nat \<Rightarrow>
    ((nat \<times> nat \<times> u32 \<times> nat) list \<times> nat) outcome" where
  "parseredirs b rs s =
     (case peek b s [60, 62] of
        (True, s) \<Rightarrow>
          (case gettoken b s of
             (tok, _, _, s) \<Rightarrow>
               (case gettoken b s of
                  (t, q, eq, s) \<Rightarrow>
                    if t \<noteq> 97 then Panic ''missing file for redirection''
                    else parseredirs b (rs @ [if tok = 60 then (q, eq, 0, 0) else (q, eq, 0x201, 1)]) s))
      | (False, s) \<Rightarrow> Ret (rs, s))"
  by pat_completeness auto

termination
  by (relation "measure (\<lambda>(b, rs, s). length b - s)") (auto dest: redir_progress [OF sym sym sym refl])

declare parseredirs.simps [simp del]

definition redircmds :: "(nat \<times> nat \<times> u32 \<times> nat) list \<Rightarrow> cmd \<Rightarrow> cmd" where
  "redircmds rs cmd = fold (\<lambda>(file, efile, mode, fd) cmd. REDIR cmd file efile mode fd) rs cmd"

text \<open>The loop of \<open>parseexec\<close> over words and redirections.\<close>

function parse_args :: "bytes \<Rightarrow> (nat \<times> nat) list \<Rightarrow> (nat \<times> nat \<times> u32 \<times> nat) list \<Rightarrow> nat \<Rightarrow> (cmd \<times> nat) outcome" where
  "parse_args b argv rs s =
     (case peek b s [124, 41, 38, 59] of
        (True, s) \<Rightarrow> Ret (redircmds rs (EXEC argv), s)
      | (False, s) \<Rightarrow>
          (case gettoken b s of
             (tok, q, eq, s) \<Rightarrow>
               if tok = 0 then Ret (redircmds rs (EXEC argv), s)
               else if tok \<noteq> 97 then Panic ''syntax''
               else
                 let argv = argv @ [(q, eq)] in
                 if length argv \<ge> MAXARGS then Panic ''too many args''
                 else and_then (parseredirs b rs s) (\<lambda>(rs, s). parse_args b argv rs s)))"
  by pat_completeness auto

termination
  by (relation "measure (\<lambda>(b, argv, rs, s). MAXARGS - length argv)") auto

declare parse_args.simps [simp del]

fun parseline :: "nat \<Rightarrow> bytes \<Rightarrow> nat \<Rightarrow> (cmd \<times> nat) outcome"
  and parsepipe :: "nat \<Rightarrow> bytes \<Rightarrow> nat \<Rightarrow> (cmd \<times> nat) outcome"
  and parseblock :: "nat \<Rightarrow> bytes \<Rightarrow> nat \<Rightarrow> (cmd \<times> nat) outcome"
  and parseexec :: "nat \<Rightarrow> bytes \<Rightarrow> nat \<Rightarrow> (cmd \<times> nat) outcome" where
  "parseline 0 b s = Hang"
| "parseline (Suc k) b s =
     and_then (parsepipe k b s) (\<lambda>(cmd, s).
     case parse_back b cmd s of
       (cmd, s) \<Rightarrow>
         (case peek b s [59] of
            (True, s) \<Rightarrow> and_then (parseline k b (after_token b s)) (\<lambda>(r, s). Ret (LIST cmd r, s))
          | (False, s) \<Rightarrow> Ret (cmd, s)))"
| "parsepipe 0 b s = Hang"
| "parsepipe (Suc k) b s =
     and_then (parseexec k b s) (\<lambda>(cmd, s).
     case peek b s [124] of
       (True, s) \<Rightarrow> and_then (parsepipe k b (after_token b s)) (\<lambda>(r, s). Ret (PIPE cmd r, s))
     | (False, s) \<Rightarrow> Ret (cmd, s))"
| "parseblock 0 b s = Hang"
| "parseblock (Suc k) b s =
     (case peek b s [40] of
        (False, s) \<Rightarrow> Panic ''parseblock''
      | (True, s) \<Rightarrow>
          and_then (parseline k b (after_token b s)) (\<lambda>(cmd, s).
          case peek b s [41] of
            (False, s) \<Rightarrow> Panic ''syntax - missing )''
          | (True, s) \<Rightarrow>
              and_then (parseredirs b [] (after_token b s)) (\<lambda>(rs, s). Ret (redircmds rs cmd, s))))"
| "parseexec 0 b s = Hang"
| "parseexec (Suc k) b s =
     (case peek b s [40] of
        (True, s) \<Rightarrow> parseblock k b s
      | (False, s) \<Rightarrow> and_then (parseredirs b [] s) (\<lambda>(rs, s). parse_args b [] rs s))"

text \<open>Writing the NULs; \<open>buf\<close> is the array, the NUL at the end of the line included.\<close>

fun nulterminate :: "cmd \<Rightarrow> bytes \<Rightarrow> bytes" where
  "nulterminate (EXEC argv) buf = fold (\<lambda>(q, eq) buf. buf[eq := 0]) argv buf"
| "nulterminate (REDIR cmd file efile mode fd) buf = (nulterminate cmd buf)[efile := 0]"
| "nulterminate (PIPE l r) buf = nulterminate r (nulterminate l buf)"
| "nulterminate (LIST l r) buf = nulterminate r (nulterminate l buf)"
| "nulterminate (BACK cmd) buf = nulterminate cmd buf"

text \<open>The depth allowed is what the longest possible nesting needs, as is proved below.\<close>

definition parsecmd :: "bytes \<Rightarrow> (cmd \<times> bytes) outcome" where
  "parsecmd b =
     and_then (parseline (4 * length b + 4) b 0) (\<lambda>(cmd, s).
     let s = skip_ws b s in
     if s \<noteq> length b then Panic ''syntax''
     else Ret (cmd, nulterminate cmd (b @ [0])))"

subsection \<open>Running a command\<close>

text \<open>
  What a process does: the system calls it makes, with the ways it goes on. A descriptor is a
  number or one of the two that the last call of \<open>pipe\<close> of this process or its parent stored in
  \<open>p\<close>. A fork has the child, the parent and the failure; \<open>exec\<close> goes on only when it fails.
\<close>

datatype pfd = Fd nat | P0 | P1

datatype prog =
    Exit
  | Exec bytes "bytes list" prog
  | Print bytes "parg list" prog
  | Close pfd prog
  | Open bytes u32 prog prog
  | Dup pfd prog
  | MkPipe prog prog
  | Fork prog prog prog
  | Wait prog

definition sh_panic :: "string \<Rightarrow> prog" where
  "sh_panic msg = Print (ascii ''%s'' @ [10]) [PStr (Some (ascii msg))] Exit"

definition fork1 :: "prog \<Rightarrow> prog \<Rightarrow> prog" where
  "fork1 child parent = Fork child parent (sh_panic ''fork'')"

definition str_at :: "bytes \<Rightarrow> nat \<Rightarrow> bytes" where
  "str_at buf q = takeWhile (\<lambda>c. c \<noteq> 0) (drop q buf)"

fun runcmd :: "bytes \<Rightarrow> cmd \<Rightarrow> prog" where
  "runcmd buf (EXEC []) = Exit"
| "runcmd buf (EXEC ((q, eq) # argv)) =
     Exec (str_at buf q) (map (\<lambda>(q, eq). str_at buf q) ((q, eq) # argv))
       (Print (ascii ''exec %s failed'' @ [10]) [PStr (Some (str_at buf q))] Exit)"
| "runcmd buf (REDIR cmd file efile mode fd) =
     Close (Fd fd) (Open (str_at buf file) mode (runcmd buf cmd)
       (Print (ascii ''open %s failed'' @ [10]) [PStr (Some (str_at buf file))] Exit))"
| "runcmd buf (LIST l r) = fork1 (runcmd buf l) (Wait (runcmd buf r))"
| "runcmd buf (PIPE l r) =
     MkPipe
       (fork1 (Close (Fd 1) (Dup P1 (Close P0 (Close P1 (runcmd buf l)))))
       (fork1 (Close (Fd 0) (Dup P0 (Close P0 (Close P1 (runcmd buf r)))))
         (Close P0 (Close P1 (Wait (Wait Exit))))))
       (sh_panic ''pipe'')"
| "runcmd buf (BACK cmd) = fork1 (runcmd buf cmd) Exit"

text \<open>\<open>getcmd\<close>: no line at the end of the input; and what \<open>main\<close> does with a line.\<close>

definition getcmd :: "('s \<Rightarrow> u8 option \<times> 's) \<Rightarrow> nat \<Rightarrow> 's \<Rightarrow> bytes option \<times> 's" where
  "getcmd rd nbuf s =
     (case gets rd nbuf s of
        (buf, s) \<Rightarrow> (if hd buf = 0 then None else Some (takeWhile (\<lambda>c. c \<noteq> 0) buf), s))"

datatype sh_action = Chdir bytes | Run "prog outcome"

definition sh_line :: "bytes \<Rightarrow> sh_action" where
  "sh_line buf =
     (if take 3 buf = ascii ''cd '' then Chdir (drop 3 (butlast buf))
      else Run (and_then (parsecmd buf) (\<lambda>(cmd, buf). Ret (runcmd buf cmd))))"

section \<open>Parsing ends and finds words\<close>

text \<open>A computation that returns a value with \<open>P\<close> or stops with a message.\<close>

definition settles :: "'a outcome \<Rightarrow> ('a \<Rightarrow> bool) \<Rightarrow> bool" where
  "settles m P = (case m of Ret x \<Rightarrow> P x | Panic msg \<Rightarrow> True | _ \<Rightarrow> False)"

lemma settles_simps [simp]: "settles (Ret x) P = P x" "settles (Panic msg) P" "\<not> settles Hang P"
  by (simp_all add: settles_def)

lemma settles_and_then:
  "settles m P \<Longrightarrow> (\<And>x. P x \<Longrightarrow> settles (f x) Q) \<Longrightarrow> settles (and_then m f) Q"
  by (cases m) (simp_all add: settles_def)

lemma settles_weak: "settles m P \<Longrightarrow> (\<And>x. P x \<Longrightarrow> Q x) \<Longrightarrow> settles m Q"
  by (cases m) (simp_all add: settles_def)

definition word_ok :: "bytes \<Rightarrow> nat \<times> nat \<Rightarrow> bool" where
  "word_ok b w \<longleftrightarrow> (case w of (q, eq) \<Rightarrow> q < eq \<and> eq \<le> length b \<and>
     (\<forall>i. q \<le> i \<and> i < eq \<longrightarrow> ordinary (b ! i)) \<and> (eq < length b \<longrightarrow> \<not> ordinary (b ! eq)))"

primrec words :: "cmd \<Rightarrow> (nat \<times> nat) set" where
  "words (EXEC argv) = set argv"
| "words (REDIR cmd file efile mode fd) = insert (file, efile) (words cmd)"
| "words (PIPE l r) = words l \<union> words r"
| "words (LIST l r) = words l \<union> words r"
| "words (BACK cmd) = words cmd"

primrec args_fit :: "cmd \<Rightarrow> bool" where
  "args_fit (EXEC argv) = (length argv < MAXARGS)"
| "args_fit (REDIR cmd file efile mode fd) = args_fit cmd"
| "args_fit (PIPE l r) = (args_fit l \<and> args_fit r)"
| "args_fit (LIST l r) = (args_fit l \<and> args_fit r)"
| "args_fit (BACK cmd) = args_fit cmd"

definition cmd_ok :: "bytes \<Rightarrow> cmd \<Rightarrow> bool" where
  "cmd_ok b cmd \<longleftrightarrow> args_fit cmd \<and> (\<forall>w \<in> words cmd. word_ok b w)"

text \<open>Where a scan that starts at \<open>s\<close> may end.\<close>

definition ahead :: "bytes \<Rightarrow> nat \<Rightarrow> nat \<Rightarrow> bool" where
  "ahead b s s' \<longleftrightarrow> s \<le> s' \<and> s' \<le> length b"

lemma aheadI: "s \<le> s' \<Longrightarrow> s' \<le> length b \<Longrightarrow> ahead b s s'"
  by (simp add: ahead_def)

lemma ahead_trans: "ahead b s s' \<Longrightarrow> ahead b s' s'' \<Longrightarrow> ahead b s s''"
  by (simp add: ahead_def)

lemma ahead_skip_ws: "s \<le> length b \<Longrightarrow> ahead b s (skip_ws b s)"
  using skip_ws_mono skip_ws_bound by (intro aheadI)

lemma gettoken_ahead:
  assumes "s \<le> length b"
  shows "ahead b s (after_token b s)" "fst (gettoken b s) = 97 \<Longrightarrow> word_ok b (fst (snd (gettoken b s)), fst (snd (snd (gettoken b s))))"
proof -
  have q: "skip_ws b s \<le> length b" "s \<le> skip_ws b s" using skip_ws_bound [OF assms] skip_ws_mono by auto
  show "ahead b s (after_token b s)"
  proof (cases rule: gettoken_cases [of b s])
    case (word x eq s')
    then show ?thesis using q skip_word_bound [of x b] skip_ws_mono [of eq b] skip_ws_bound [of eq b]
      by (simp add: ahead_def after_token_def)
  next
    case (symbol t x eq s')
    then show ?thesis using q skip_ws_mono [of eq b] skip_ws_bound [of eq b] by (simp add: ahead_def after_token_def)
  qed (use q in \<open>simp add: ahead_def after_token_def\<close>)
  assume tok: "fst (gettoken b s) = 97"
  show "word_ok b (fst (snd (gettoken b s)), fst (snd (snd (gettoken b s))))"
  proof (cases rule: gettoken_cases [of b s])
    case (word x eq s')
    have e: "eq \<le> length b" using word skip_word_bound [of x b] by simp
    have "ordinary (b ! i)" if "x \<le> i" "i < eq" for i
      using skip_word_ordinary [of x i b] that word e by (simp add: ch_def)
    moreover have "\<not> ordinary (b ! eq)" if "eq < length b" using skip_word_end [of b x] that word by (simp add: ch_def)
    ultimately show ?thesis using word e by (simp add: word_ok_def)
  qed (use tok in auto)
qed

lemma peek_ahead: "peek b s toks = (r, s') \<Longrightarrow> s \<le> length b \<Longrightarrow> ahead b s s'"
  using ahead_skip_ws by (auto simp: peek_def Let_def)

lemma peek_token:
  assumes "peek b s toks = (True, s')"
  shows "after_token b s' \<le> length b" "s < after_token b s'"
  using peek_progress [OF assms] gettoken_ahead(1) [of s' b] by (auto simp: ahead_def)

lemma cmd_ok_simps [simp]:
  "cmd_ok b (EXEC argv) \<longleftrightarrow> length argv < MAXARGS \<and> (\<forall>w \<in> set argv. word_ok b w)"
  "cmd_ok b (REDIR cmd file efile mode fd) \<longleftrightarrow> word_ok b (file, efile) \<and> cmd_ok b cmd"
  "cmd_ok b (PIPE l r) \<longleftrightarrow> cmd_ok b l \<and> cmd_ok b r"
  "cmd_ok b (LIST l r) \<longleftrightarrow> cmd_ok b l \<and> cmd_ok b r"
  "cmd_ok b (BACK cmd) \<longleftrightarrow> cmd_ok b cmd"
  by (auto simp: cmd_ok_def)

lemma parse_back_ok:
  "s \<le> length b \<Longrightarrow> cmd_ok b cmd \<Longrightarrow>
     ahead b s (snd (parse_back b cmd s)) \<and> cmd_ok b (fst (parse_back b cmd s))"
proof (induction b cmd s rule: parse_back.induct)
  case (1 b cmd s)
  obtain r s1 where p: "peek b s [38] = (r, s1)" by fastforce
  show ?case
  proof (cases r)
    case True
    then have p': "peek b s [38] = (True, s1)" using p by simp
    note t = peek_token [OF p']
    have "parse_back b cmd s = parse_back b (BACK cmd) (after_token b s1)"
      using p True by (subst parse_back.simps) simp
    then show ?thesis using 1(1) [OF p' [symmetric] refl] 1(3) t by (simp add: ahead_def)
  next
    case False
    then have "parse_back b cmd s = (cmd, s1)" using p by (subst parse_back.simps) simp
    then show ?thesis using peek_ahead [OF p 1(2)] 1(3) by simp
  qed
qed

definition redir_ok :: "bytes \<Rightarrow> (nat \<times> nat \<times> u32 \<times> nat) list \<Rightarrow> bool" where
  "redir_ok b rs \<longleftrightarrow> (\<forall>(q, eq, mode, fd) \<in> set rs. word_ok b (q, eq))"

lemma redircmds_ok: "redir_ok b rs \<Longrightarrow> cmd_ok b cmd \<Longrightarrow> cmd_ok b (redircmds rs cmd)"
  unfolding redircmds_def by (induction rs arbitrary: cmd) (auto simp: redir_ok_def)

lemma parseredirs_ok:
  "s \<le> length b \<Longrightarrow> redir_ok b rs \<Longrightarrow> settles (parseredirs b rs s) (\<lambda>(rs, s'). redir_ok b rs \<and> ahead b s s')"
proof (induction b rs s rule: parseredirs.induct)
  case (1 b rs s)
  obtain r s1 where p: "peek b s [60, 62] = (r, s1)" by fastforce
  show ?case
  proof (cases r)
    case True
    then have p': "peek b s [60, 62] = (True, s1)" using p by simp
    obtain tok x y s2 where g: "gettoken b s1 = (tok, x, y, s2)" by (metis prod_cases4)
    obtain t q eq s3 where h: "gettoken b s2 = (t, q, eq, s3)" by (metis prod_cases4)
    have s2: "ahead b s s2" "s2 \<le> length b"
      using peek_token [OF p'] g by (auto simp: after_token_def ahead_def)
    have s3: "ahead b s s3" using ahead_trans [OF s2(1) gettoken_ahead(1) [OF s2(2)]] h by (simp add: after_token_def)
    show ?thesis
    proof (cases "t = 97")
      case t: True
      let ?rs = "rs @ [if tok = 60 then (q, eq, 0, 0) else (q, eq, 0x201, 1)]"
      have "word_ok b (q, eq)" using gettoken_ahead(2) [OF s2(2)] h t by simp
      then have rs: "redir_ok b ?rs" using 1 by (auto simp: redir_ok_def)
      have "parseredirs b rs s = parseredirs b ?rs s3"
        using p True g h t by (subst parseredirs.simps) simp
      moreover have "settles (parseredirs b ?rs s3) (\<lambda>(rs, s'). redir_ok b rs \<and> ahead b s3 s')"
        using 1(1) [OF p' [symmetric] refl g [symmetric] refl refl h [symmetric] refl refl] t s3 rs by (simp add: ahead_def)
      ultimately show ?thesis using ahead_trans [OF s3] by (auto elim!: settles_weak)
    qed (use p True g h in \<open>subst parseredirs.simps, simp\<close>)
  next
    case False
    then show ?thesis using 1(3) p peek_ahead [OF p 1(2)] by (subst parseredirs.simps) simp
  qed
qed

lemma parse_args_ok:
  "s \<le> length b \<Longrightarrow> redir_ok b rs \<Longrightarrow> length argv < MAXARGS \<Longrightarrow> \<forall>w \<in> set argv. word_ok b w \<Longrightarrow>
     settles (parse_args b argv rs s) (\<lambda>(cmd, s'). cmd_ok b cmd \<and> ahead b s s')"
proof (induction "MAXARGS - length argv" arbitrary: argv rs s rule: less_induct)
  case less
  obtain r s1 where p: "peek b s [124, 41, 38, 59] = (r, s1)" by fastforce
  obtain tok q eq s2 where g: "gettoken b s1 = (tok, q, eq, s2)" by (metis prod_cases4)
  have s1: "ahead b s s1" "s1 \<le> length b" using peek_ahead [OF p less.prems(1)] by (auto simp: ahead_def)
  have s2: "ahead b s s2" "s2 \<le> length b"
    using ahead_trans [OF s1(1) gettoken_ahead(1) [OF s1(2)]] g by (auto simp: after_token_def ahead_def)
  have ok: "cmd_ok b (redircmds rs (EXEC argv))" using less.prems by (intro redircmds_ok) auto
  consider (stop) r | (finished) "\<not> r" "tok = 0" | (bad) "\<not> r" "tok \<noteq> 0" "tok \<noteq> 97" | (many) "\<not> r" "tok = 97" "length argv + 1 \<ge> MAXARGS"
    | (more) "\<not> r" "tok = 97" "length argv + 1 < MAXARGS" by fastforce
  then show ?case
  proof cases
    case more
    let ?argv = "argv @ [(q, eq)]"
    have w: "\<forall>w \<in> set ?argv. word_ok b w" using gettoken_ahead(2) [OF s1(2)] g more less.prems(4) by simp
    have "settles (and_then (parseredirs b rs s2) (\<lambda>(rs, s). parse_args b ?argv rs s)) (\<lambda>(cmd, s'). cmd_ok b cmd \<and> ahead b s s')"
    proof (rule settles_and_then [OF parseredirs_ok [OF s2(2) less.prems(2)]], clarify)
      fix rs' s3 assume rs': "redir_ok b rs'" and s3: "ahead b s2 s3"
      have "settles (parse_args b ?argv rs' s3) (\<lambda>(cmd, s'). cmd_ok b cmd \<and> ahead b s3 s')"
        using less.hyps [of ?argv s3 rs'] rs' s3 w more less.prems(3) by (simp add: ahead_def)
      then show "settles (parse_args b ?argv rs' s3) (\<lambda>(cmd, s'). cmd_ok b cmd \<and> ahead b s s')"
        by (rule settles_weak) (use ahead_trans [OF ahead_trans [OF s2(1) s3]] in auto)
    qed
    then show ?thesis using p g more by (subst parse_args.simps) simp
  qed (use p g ok s1 s2 in \<open>subst parse_args.simps, simp\<close>)+
qed

text \<open>The nesting of calls is at most four for every character, and four more.\<close>

abbreviation good :: "bytes \<Rightarrow> nat \<Rightarrow> cmd \<times> nat \<Rightarrow> bool" where
  "good b s \<equiv> \<lambda>(cmd, s'). cmd_ok b cmd \<and> ahead b s s'"

lemma good_trans: "good b s' r \<Longrightarrow> ahead b s s' \<Longrightarrow> good b s r"
  using ahead_trans by auto

lemma binary_ok:
  assumes "settles (f (after_token b s1)) (good b (after_token b s1))" and "peek b s [c] = (True, s1)"
    and "cmd_ok b cmd" and "\<And>l r. cmd_ok b (F l r) \<longleftrightarrow> cmd_ok b l \<and> cmd_ok b r"
  shows "settles (and_then (f (after_token b s1)) (\<lambda>(r, s). Ret (F cmd r, s))) (good b s)"
proof (rule settles_and_then [OF assms(1)], clarify)
  fix r s' assume "cmd_ok b r" "ahead b (after_token b s1) s'"
  then show "settles (Ret (F cmd r, s')) (good b s)"
    using assms(3,4) peek_token [OF assms(2)] by (auto simp: ahead_def)
qed

lemma parseline_step:
  assumes "settles (parsepipe k b s) (good b s)"
    and rest: "\<And>s'. s < s' \<Longrightarrow> s' \<le> length b \<Longrightarrow> settles (parseline k b s') (good b s')"
  shows "settles (parseline (Suc k) b s) (good b s)"
  unfolding parseline.simps
proof (rule settles_and_then [OF assms(1)], clarify)
  fix cmd s1 assume c: "cmd_ok b cmd" and s1: "ahead b s s1"
  obtain cmd' s2 where pb: "parse_back b cmd s1 = (cmd', s2)" by fastforce
  then have ok: "cmd_ok b cmd'" "ahead b s s2" "s2 \<le> length b"
    using parse_back_ok [of s1 b cmd] c s1 by (auto simp: ahead_def)
  obtain r s3 where p: "peek b s2 [59] = (r, s3)" by fastforce
  show "settles (case parse_back b cmd s1 of (cmd, s) \<Rightarrow> (case peek b s [59] of
       (True, s) \<Rightarrow> and_then (parseline k b (after_token b s)) (\<lambda>(r, s). Ret (LIST cmd r, s))
     | (False, s) \<Rightarrow> Ret (cmd, s))) (good b s)"
  proof (cases r)
    case True
    then have p: "peek b s2 [59] = (True, s3)" using p by simp
    have "settles (parseline k b (after_token b s3)) (good b (after_token b s3))"
      using peek_token [OF p] ok(2) by (intro rest) (auto simp: ahead_def)
    from binary_ok [of "parseline k b" b, OF this p ok(1), of LIST] show ?thesis
      using pb p good_trans ok(2) by (auto elim: settles_weak)
  next
    case False
    then show ?thesis using pb p ok ahead_trans [OF ok(2) peek_ahead [OF p ok(3)]] by simp
  qed
qed

lemma parsepipe_step:
  assumes "settles (parseexec k b s) (good b s)"
    and rest: "\<And>s'. s < s' \<Longrightarrow> s' \<le> length b \<Longrightarrow> settles (parsepipe k b s') (good b s')"
  shows "settles (parsepipe (Suc k) b s) (good b s)"
  unfolding parsepipe.simps
proof (rule settles_and_then [OF assms(1)], clarify)
  fix cmd s1 assume ok: "cmd_ok b cmd" "ahead b s s1"
  obtain r s2 where p: "peek b s1 [124] = (r, s2)" by fastforce
  show "settles (case peek b s1 [124] of
       (True, s) \<Rightarrow> and_then (parsepipe k b (after_token b s)) (\<lambda>(r, s). Ret (PIPE cmd r, s))
     | (False, s) \<Rightarrow> Ret (cmd, s)) (good b s)"
  proof (cases r)
    case True
    then have p: "peek b s1 [124] = (True, s2)" using p by simp
    have "settles (parsepipe k b (after_token b s2)) (good b (after_token b s2))"
      using peek_token [OF p] ok(2) by (intro rest) (auto simp: ahead_def)
    from binary_ok [of "parsepipe k b" b, OF this p ok(1), of PIPE] show ?thesis
      using p good_trans ok(2) by (auto elim: settles_weak)
  next
    case False
    then show ?thesis using p ok ahead_trans [OF ok(2) peek_ahead [OF p]] by (simp add: ahead_def)
  qed
qed

lemma parseblock_step:
  assumes rest: "\<And>s'. s < s' \<Longrightarrow> s' \<le> length b \<Longrightarrow> settles (parseline k b s') (good b s')"
  shows "settles (parseblock (Suc k) b s) (good b s)"
proof (cases "peek b s [40]")
  case (Pair r s1)
  show ?thesis
  proof (cases r)
    case True
    then have p: "peek b s [40] = (True, s1)" using Pair by simp
    let ?s = "after_token b s1"
    note line = rest [OF peek_token(2,1) [OF p]]
    have "settles (and_then (parseline k b ?s) (\<lambda>(cmd, s).
        case peek b s [41] of
          (False, s) \<Rightarrow> Panic ''syntax - missing )''
        | (True, s) \<Rightarrow> and_then (parseredirs b [] (after_token b s)) (\<lambda>(rs, s). Ret (redircmds rs cmd, s)))) (good b s)"
    proof (rule settles_and_then [OF line], clarify)
      fix cmd s2 assume ok: "cmd_ok b cmd" "ahead b ?s s2"
      obtain r s3 where q: "peek b s2 [41] = (r, s3)" by fastforce
      show "settles (case peek b s2 [41] of
          (False, s) \<Rightarrow> Panic ''syntax - missing )''
        | (True, s) \<Rightarrow> and_then (parseredirs b [] (after_token b s)) (\<lambda>(rs, s). Ret (redircmds rs cmd, s))) (good b s)"
      proof (cases r)
        case True
        then have q: "peek b s2 [41] = (True, s3)" using q by simp
        have a: "after_token b s3 \<le> length b" "ahead b s (after_token b s3)"
          using peek_token [OF q] peek_token [OF p] ok(2) by (auto simp: ahead_def)
        have "settles (and_then (parseredirs b [] (after_token b s3)) (\<lambda>(rs, s). Ret (redircmds rs cmd, s))) (good b s)"
          by (rule settles_and_then [OF parseredirs_ok [OF a(1)]])
            (use redircmds_ok ok(1) ahead_trans [OF a(2)] in \<open>auto simp: redir_ok_def\<close>)
        then show ?thesis using q by simp
      qed (use q in simp)
    qed
    then show ?thesis using p by simp
  qed (use Pair in simp)
qed

lemma parseexec_step:
  assumes "s \<le> length b"
    and block: "\<And>s1. peek b s [40] = (True, s1) \<Longrightarrow> settles (parseblock k b s1) (good b s1)"
  shows "settles (parseexec (Suc k) b s) (good b s)"
proof (cases "peek b s [40]")
  case (Pair r s1)
  have a: "ahead b s s1" "s1 \<le> length b" using peek_ahead [OF Pair assms(1)] by (auto simp: ahead_def)
  show ?thesis
  proof (cases r)
    case True
    then show ?thesis using block Pair good_trans a(1) by (auto elim: settles_weak)
  next
    case False
    have "settles (and_then (parseredirs b [] s1) (\<lambda>(rs, s). parse_args b [] rs s)) (good b s)"
    proof (rule settles_and_then [OF parseredirs_ok [OF a(2)]], simp add: redir_ok_def, clarify)
      fix rs s2 assume rs: "redir_ok b rs" and s2: "ahead b s1 s2"
      have "settles (parse_args b [] rs s2) (good b s2)" using parse_args_ok [of s2 b rs "[]"] rs s2 by (simp add: ahead_def)
      then show "settles (parse_args b [] rs s2) (good b s)"
        by (rule settles_weak) (rule good_trans [OF _ ahead_trans [OF a(1) s2]])
    qed
    then show ?thesis using Pair False by simp
  qed
qed

lemma parsers_settle:
  "s \<le> length b \<Longrightarrow>
     (4 * (length b - s) + 4 \<le> k \<longrightarrow> settles (parseline k b s) (good b s)) \<and>
     (4 * (length b - s) + 3 \<le> k \<longrightarrow> settles (parsepipe k b s) (good b s)) \<and>
     (4 * (length b - s) + 2 \<le> k \<longrightarrow> settles (parseexec k b s) (good b s)) \<and>
     (4 * (length b - s) + 1 \<le> k \<longrightarrow> settles (parseblock k b s) (good b s))"
proof (induction k arbitrary: s)
  case 0
  then show ?case by simp
next
  case (Suc k)
  have line: "settles (parseline k b s') (good b s')" if "s < s'" "s' \<le> length b" "4 * (length b - s) \<le> k" for s'
    using Suc.IH [OF that(2)] that by auto
  have pipe: "settles (parsepipe k b s') (good b s')" if "s < s'" "s' \<le> length b" "4 * (length b - s) \<le> k" for s'
    using Suc.IH [OF that(2)] that by auto
  have block: "settles (parseblock k b s1) (good b s1)" if "peek b s [40] = (True, s1)" "4 * (length b - s) + 1 \<le> k" for s1
    using peek_ahead [OF that(1) Suc.prems] Suc.IH [of s1] that(2) by (auto simp: ahead_def)
  note here = Suc.IH [OF Suc.prems]
  show ?case
    using parseline_step [of k b s, OF _ line] parsepipe_step [of k b s, OF _ pipe]
      parseexec_step [OF Suc.prems block] parseblock_step [of s b k, OF line] here
    by auto
qed

lemma nulterminate_length [simp]: "length (nulterminate cmd buf) = length buf"
proof (induction cmd arbitrary: buf)
  case (EXEC argv)
  show ?case by (induction argv arbitrary: buf) (auto split: prod.splits)
qed auto

text \<open>What the pass leaves: NULs at the ends of the words, all else as it was.\<close>

lemma nulterminate_nth:
  "i < length buf \<Longrightarrow> nulterminate cmd buf ! i = (if i \<in> snd ` words cmd then 0 else buf ! i)"
proof (induction cmd arbitrary: buf)
  case (EXEC argv)
  then show ?case
  proof (induction argv arbitrary: buf)
    case (Cons w argv)
    then show ?case using Cons.IH [of "buf[snd w := 0]"] by (cases w) (auto simp: nth_list_update)
  qed simp
next
  case (REDIR cmd f e mode fd)
  then show ?case by (cases "e = i") simp_all
qed (simp_all add: image_Un)

lemma word_end_outside:
  assumes "word_ok b (q, eq)" and "word_ok b (q', e)" and "q \<le> i" and "i < eq"
  shows "i \<noteq> e"
  using assms by (auto simp: word_ok_def)

lemma nulterminated_word:
  assumes ok: "cmd_ok b cmd" and w: "(q, eq) \<in> words cmd" and b: "0 \<notin> set b"
  shows "takeWhile (\<lambda>c. c \<noteq> 0) (drop q (nulterminate cmd (b @ [0]))) = take (eq - q) (drop q b)"
proof -
  let ?buf = "nulterminate cmd (b @ [0])"
  have wq: "word_ok b (q, eq)" and all: "\<forall>w \<in> words cmd. word_ok b w" using ok w by (auto simp: cmd_ok_def)
  have bounds: "q < eq" "eq \<le> length b" using wq by (auto simp: word_ok_def)
  have inside: "?buf ! i = b ! i" if "q \<le> i" "i < eq" for i
  proof -
    have "i \<notin> snd ` words cmd" using word_end_outside [OF wq _ that] all by fastforce
    then show ?thesis using that bounds nulterminate_nth [of i "b @ [0]" cmd] by (simp add: nth_append)
  qed
  have "eq \<in> snd ` words cmd" using w by force
  then have "?buf ! eq = 0" using bounds nulterminate_nth [of eq "b @ [0]" cmd] by simp
  moreover have "b ! i \<noteq> 0" if "i < length b" for i using b that nth_mem by metis
  ultimately have "takeWhile (\<lambda>c. c \<noteq> 0) (drop q ?buf) = take (eq - q) (drop q ?buf)"
    using bounds inside by (intro takeWhile_eq_take_P_nth) auto
  also have "\<dots> = take (eq - q) (drop q b)"
    using bounds inside by (intro nth_equalityI) auto
  finally show ?thesis .
qed

text \<open>
  C36. Parsing a command line always ends: with a message, or with a command whose words are
  non-empty runs of ordinary characters inside the line, no command having more words than its
  array holds, and after the NULs are written every word reads as the string it was in the line.
\<close>

theorem parsecmd_terminates:
  assumes "0 \<notin> set b"
  shows "(\<exists>msg. parsecmd b = Panic msg) \<or>
    (\<exists>cmd buf. parsecmd b = Ret (cmd, buf) \<and> args_fit cmd \<and>
       (\<forall>(q, eq) \<in> words cmd. word_ok b (q, eq) \<and>
          takeWhile (\<lambda>c. c \<noteq> 0) (drop q buf) = take (eq - q) (drop q b)))"
proof -
  have "settles (parseline (4 * length b + 4) b 0) (good b 0)" using parsers_settle [of 0 b "4 * length b + 4"] by simp
  then consider msg where "parseline (4 * length b + 4) b 0 = Panic msg"
    | cmd s where "parseline (4 * length b + 4) b 0 = Ret (cmd, s)" "cmd_ok b cmd"
    by (cases "parseline (4 * length b + 4) b 0") (auto simp: settles_def)
  then show ?thesis
  proof cases
    case (2 cmd s)
    have "\<forall>(q, eq) \<in> words cmd. word_ok b (q, eq) \<and>
        takeWhile (\<lambda>c. c \<noteq> 0) (drop q (nulterminate cmd (b @ [0]))) = take (eq - q) (drop q b)"
      using nulterminated_word [OF 2(2) _ assms] 2(2) by (auto simp: cmd_ok_def)
    then show ?thesis using 2 by (auto simp: parsecmd_def Let_def cmd_ok_def)
  qed (simp add: parsecmd_def)
qed

text \<open>The line \<open>ls >f|wc\<close>.\<close>

theorem parsecmd_terminates_witness:
  "\<exists>buf. parsecmd (ascii ''ls >f|wc'') = Ret (PIPE (REDIR (EXEC [(0, 2)]) 4 5 0x201 1) (EXEC [(6, 8)]), buf) \<and>
     takeWhile (\<lambda>c. c \<noteq> 0) (drop 6 buf) = ascii ''wc''"
proof -
  have "parsecmd (ascii ''ls >f|wc'') = Ret (PIPE (REDIR (EXEC [(0, 2)]) 4 5 0x201 1) (EXEC [(6, 8)]),
      [108, 115, 0, 62, 102, 0, 119, 99, 0])"
    by code_simp
  moreover have "0 \<notin> set (ascii ''ls >f|wc'')" by (simp add: ascii_def)
  note parsecmd_terminates [OF this]
  ultimately show ?thesis by (auto simp: ascii_def)
qed

end
