(* ===== verification/Mp.thy ===== *)
theory Mp
  imports Xv6_String "HOL-Library.While_Combinator"
begin

text \<open>
  Finding the processors (\<^verbatim>\<open>mp.c\<close>, \<^verbatim>\<open>mp.h\<close>): the search for the floating pointer structure in the
  memory the BIOS leaves, the checks of the configuration table and the walk over its entries. The
  areas searched lie far below the end of the address space, so the walk over an area is recursion
  on the number of its 16-byte steps. The walk over the entries need not end, and is a
  \<open>while_option\<close>, whose value \<open>None\<close> is not ending. Shown: a well-formed table gives the processors
  in its order, at most \<open>NCPU\<close> of them; an entry of unknown type makes the walk run for ever.
\<close>

section \<open>Definitions\<close>

abbreviation (input) NCPU :: nat where "NCPU \<equiv> 8"

definition load16 :: "mem \<Rightarrow> u32 \<Rightarrow> u16" where
  "load16 m a = ucast (m a) OR push_bit 8 (ucast (m (a + 1)))"

definition mp_ptr :: "mem \<Rightarrow> u32 \<Rightarrow> cptr" where
  "mp_ptr m a = (\<lambda>i. m (a + of_nat i))"

text \<open>\<open>sum\<close>, with an \<open>int\<close> for the running sum.\<close>

fun mp_sum_loop :: "mem \<Rightarrow> u32 \<Rightarrow> nat \<Rightarrow> int \<Rightarrow> int" where
  "mp_sum_loop m addr 0 acc = acc"
| "mp_sum_loop m addr (Suc len) acc = mp_sum_loop m (addr + 1) len (acc + uint (m addr))"

definition mp_sum :: "mem \<Rightarrow> u32 \<Rightarrow> nat \<Rightarrow> u8" where
  "mp_sum m addr len = of_int (mp_sum_loop m addr len 0)"

fun mpsearch1_loop :: "mem \<Rightarrow> nat \<Rightarrow> u32 \<Rightarrow> u32 option" where
  "mpsearch1_loop m 0 p = None"
| "mpsearch1_loop m (Suc k) p =
     (if memcmp (mp_ptr m p) ((!) [0x5F, 0x4D, 0x50, 0x5F]) 4 = 0 \<and> mp_sum m p 16 = 0 then Some p
      else mpsearch1_loop m k (p + 16))"

definition mpsearch1 :: "mem \<Rightarrow> u32 \<Rightarrow> nat \<Rightarrow> u32 option" where
  "mpsearch1 m a len = mpsearch1_loop m (len div 16) (P2V a)"

definition mpsearch :: "mem \<Rightarrow> u32 option" where
  "mpsearch m =
     (let bda = P2V 0x400;
          p = push_bit 4 (ucast (load16 m (bda + 0x0E))) :: u32;
          found = (if p \<noteq> 0 then mpsearch1 m p 1024
                   else mpsearch1 m (ucast (load16 m (bda + 0x13)) * 1024 - 1024) 1024)
      in case found of Some mp \<Rightarrow> Some mp | None \<Rightarrow> mpsearch1 m 0xF0000 0x10000)"

definition mpconfig :: "mem \<Rightarrow> (u32 \<times> u32) option" where
  "mpconfig m =
     (case mpsearch m of
        None \<Rightarrow> None
      | Some mp \<Rightarrow>
          let physaddr = load32 m (mp + 4); conf = P2V physaddr in
          if physaddr = 0 then None
          else if memcmp (mp_ptr m conf) ((!) [0x50, 0x43, 0x4D, 0x50]) 4 \<noteq> 0 then None
          else if m (conf + 6) \<noteq> 1 \<and> m (conf + 6) \<noteq> 4 then None
          else if mp_sum m conf (unat (load16 m (conf + 4))) \<noteq> 0 then None
          else Some (mp, conf))"

text \<open>
  What \<open>mpinit\<close> sets: the identifiers of the processors (\<open>cpus[i].apicid\<close> for \<open>i < ncpu\<close>), the
  interrupt controllers, and whether external interrupts are masked.
\<close>

record mpst =
  apicids :: "u8 list"
  ioapicid :: u8
  lapic :: u32
  imcr :: bool

text \<open>One turn of the loop; the \<open>break\<close> of the default case leaves the \<open>switch\<close> only.\<close>

definition mp_entry :: "mem \<Rightarrow> u32 \<times> mpst \<times> bool \<Rightarrow> u32 \<times> mpst \<times> bool" where
  "mp_entry m = (\<lambda>(p, st, ismp).
     if m p = 0 then
       (p + 20, if length (apicids st) < NCPU then st\<lparr>apicids := apicids st @ [m (p + 1)]\<rparr> else st, ismp)
     else if m p = 2 then (p + 8, st\<lparr>ioapicid := m (p + 1)\<rparr>, ismp)
     else if m p = 1 \<or> m p = 3 \<or> m p = 4 then (p + 8, st, ismp)
     else (p, st, False))"

definition mp_walk :: "mem \<Rightarrow> u32 \<Rightarrow> u32 \<times> mpst \<times> bool \<Rightarrow> (u32 \<times> mpst \<times> bool) option" where
  "mp_walk m e = while_option (\<lambda>(p, st, ismp). p < e) (mp_entry m)"

definition mpinit :: "mem \<Rightarrow> mpst \<Rightarrow> mpst outcome" where
  "mpinit m st =
     (case mpconfig m of
        None \<Rightarrow> Panic ''Expect to run on an SMP''
      | Some (mp, conf) \<Rightarrow>
          case mp_walk m (conf + ucast (load16 m (conf + 4))) (conf + 44, st\<lparr>lapic := load32 m (conf + 36)\<rparr>, True) of
            None \<Rightarrow> Hang
          | Some (p, st, ismp) \<Rightarrow>
              if \<not> ismp then Panic ''Didn't find a suitable machine''
              else Ret (if m (mp + 12) \<noteq> 0 then st\<lparr>imcr := True\<rparr> else st))"

section \<open>Tables\<close>

datatype mpentry = Mpproc u8 | Mpioapic u8 | Mpother u8

fun esize :: "mpentry \<Rightarrow> nat" where
  "esize (Mpproc _) = 20"
| "esize _ = 8"

fun entry_at :: "mem \<Rightarrow> u32 \<Rightarrow> mpentry \<Rightarrow> bool" where
  "entry_at m p (Mpproc i) \<longleftrightarrow> m p = 0 \<and> m (p + 1) = i"
| "entry_at m p (Mpioapic i) \<longleftrightarrow> m p = 2 \<and> m (p + 1) = i"
| "entry_at m p (Mpother t) \<longleftrightarrow> m p = t \<and> t \<in> {1, 3, 4}"

fun table_at :: "mem \<Rightarrow> u32 \<Rightarrow> mpentry list \<Rightarrow> bool" where
  "table_at m p [] \<longleftrightarrow> True"
| "table_at m p (en # es) \<longleftrightarrow> entry_at m p en \<and> table_at m (p + of_nat (esize en)) es"

definition table_size :: "mpentry list \<Rightarrow> nat" where
  "table_size es = sum_list (map esize es)"

text \<open>The processors a table lists, and the last I/O interrupt controller.\<close>

fun processors :: "mpentry list \<Rightarrow> u8 list" where
  "processors [] = []"
| "processors (Mpproc i # es) = i # processors es"
| "processors (_ # es) = processors es"

fun controller :: "u8 \<Rightarrow> mpentry list \<Rightarrow> u8" where
  "controller i [] = i"
| "controller i (Mpioapic j # es) = controller j es"
| "controller i (_ # es) = controller i es"

definition of_table :: "mpentry list \<Rightarrow> mpst \<Rightarrow> mpst" where
  "of_table es st = st\<lparr>apicids := take NCPU (apicids st @ processors es), ioapicid := controller (ioapicid st) es\<rparr>"

lemma mp_walk_step: "p < e \<Longrightarrow> mp_walk m e (p, st, b) = mp_walk m e (mp_entry m (p, st, b))"
  unfolding mp_walk_def by (subst while_option_unfold) simp

lemma mp_walk_end: "\<not> p < e \<Longrightarrow> mp_walk m e (p, st, b) = Some (p, st, b)"
  unfolding mp_walk_def by (subst while_option_unfold) simp

lemma of_table_entry:
  assumes "entry_at m p en" and "length (apicids st) \<le> NCPU"
  shows "\<exists>st'. mp_entry m (p, st, b) = (p + of_nat (esize en), st', b) \<and> length (apicids st') \<le> NCPU \<and>
    (\<forall>es. of_table es st' = of_table (en # es) st)"
proof (cases en)
  case (Mpproc i)
  with assms have "mp_entry m (p, st, b) =
      (p + 20, if length (apicids st) < NCPU then st\<lparr>apicids := apicids st @ [i]\<rparr> else st, b)"
    by (simp add: mp_entry_def)
  with Mpproc assms(2) show ?thesis by (auto simp: of_table_def take_Cons')
next
  case (Mpioapic i)
  with assms show ?thesis by (auto simp: mp_entry_def of_table_def)
next
  case (Mpother t)
  then have "m p = 1 \<or> m p = 3 \<or> m p = 4" using assms(1) by auto
  then have "mp_entry m (p, st, b) = (p + 8, st, b)" by (elim disjE) (simp_all add: mp_entry_def)
  with Mpother assms(2) show ?thesis by (simp add: of_table_def)
qed

lemma mp_walk_table:
  assumes "table_at m p es" and "unat p + table_size es \<le> unat e" and "length (apicids st) \<le> NCPU"
  shows "mp_walk m e (p, st, b) = mp_walk m e (p + of_nat (table_size es), of_table es st, b)"
  using assms
proof (induction es arbitrary: p st)
  case Nil
  then show ?case by (simp add: table_size_def of_table_def)
next
  case (Cons en es)
  have pos: "0 < esize en" by (cases en) auto
  obtain st' where st': "mp_entry m (p, st, b) = (p + of_nat (esize en), st', b)" "length (apicids st') \<le> NCPU"
      "\<And>es. of_table es st' = of_table (en # es) st"
    using of_table_entry [of m p en st b] Cons.prems by auto
  have le: "unat p + esize en + table_size es \<le> unat e" using Cons.prems(2) by (simp add: table_size_def)
  then have "p < e" using pos by (simp add: word_less_nat_alt)
  moreover have "unat (p + of_nat (esize en)) = unat p + esize en"
    using le unsigned_less [of e, where 'a = nat] by (simp add: unat_word_ariths unat_of_nat take_bit_eq_mod)
  ultimately have "mp_walk m e (p, st, b) =
      mp_walk m e (p + of_nat (esize en) + of_nat (table_size es), of_table es st', b)"
    using Cons.IH [of "p + of_nat (esize en)" st'] Cons.prems(1) st'(1,2) le mp_walk_step [of p e m st b] by simp
  then show ?case by (simp add: st'(3) table_size_def add.assoc)
qed

text \<open>An entry of unknown type: the walk stays where it is.\<close>

lemma while_option_stuck: "b s \<Longrightarrow> c s = s \<Longrightarrow> while_option b c s = None"
proof -
  assume "b s" "c s = s"
  then have "(c ^^ k) s = s" for k by (induction k) auto
  with \<open>b s\<close> show ?thesis by (simp add: while_option_def)
qed

lemma mp_walk_unknown:
  assumes "p < e" and "m p \<notin> {0, 1, 2, 3, 4}"
  shows "mp_walk m e (p, st, b) = None"
proof -
  have "mp_walk m e (p, st, False) = None"
    unfolding mp_walk_def using assms by (intro while_option_stuck) (simp_all add: mp_entry_def)
  moreover have "mp_entry m (p, st, b) = (p, st, False)" using assms(2) by (simp add: mp_entry_def)
  ultimately show ?thesis using mp_walk_step [OF assms(1), of m st b] by simp
qed

lemma mp_walk_suitable:
  assumes "mp_walk m e (p, st, True) = Some (p', st', b)"
  shows b
proof -
  let ?P = "\<lambda>(p, st :: mpst, b). b \<or> p < e \<and> m p \<notin> {0, 1, 2, 3, 4}"
  have "?P (p', st', b)"
    by (rule while_option_rule [OF _ assms [unfolded mp_walk_def]]) (auto simp: mp_entry_def split: if_splits)
  moreover have "\<not> p' < e" using while_option_stop [OF assms [unfolded mp_walk_def]] by simp
  ultimately show ?thesis by simp
qed

lemma unat_add_fits: "unat a + unat b < 2 ^ 32 \<Longrightarrow> unat (a + b) = unat a + unat b" for a b :: u32
  by (simp add: unat_word_ariths)

lemma unat_ucast_16: "unat (ucast v :: u32) = unat v" for v :: u16
  using unsigned_less [of v, where 'a = nat] by (simp add: unsigned_ucast_eq take_bit_eq_mod)

text \<open>
  C39. Reading the configuration table: when the entries fill the table, \<open>mpinit\<close> records its
  processors in order, up to \<open>NCPU\<close> of them, and its last I/O interrupt controller. When an entry of
  an unknown type comes before the end of the table, \<open>mpinit\<close> never returns; so the panic that is
  meant for such a machine cannot happen.
\<close>

theorem mpinit_reads_table:
  assumes "mpconfig m = Some (mp, conf)" and "length (apicids st) \<le> NCPU"
    and "unat conf + unat (load16 m (conf + 4)) < 2 ^ 32" and "table_at m (conf + 44) es"
  shows "(unat (load16 m (conf + 4)) = 44 + table_size es \<longrightarrow>
      mpinit m st = Ret (of_table es st\<lparr>lapic := load32 m (conf + 36), imcr := imcr st \<or> m (mp + 12) \<noteq> 0\<rparr>)) \<and>
    (44 + table_size es < unat (load16 m (conf + 4)) \<and> m (conf + 44 + of_nat (table_size es)) \<notin> {0, 1, 2, 3, 4} \<longrightarrow>
      mpinit m st = Hang) \<and>
    mpinit m st \<noteq> Panic ''Didn't find a suitable machine''"
proof -
  let ?len = "load16 m (conf + 4)" and ?p = "conf + 44 + of_nat (table_size es)"
  let ?e = "conf + ucast ?len" and ?st = "st\<lparr>lapic := load32 m (conf + 36)\<rparr>"
  have e: "unat ?e = unat conf + unat ?len" using assms(3) by (simp add: unat_add_fits unat_ucast_16)
  have walk: "mp_walk m ?e (conf + 44, ?st, True) = mp_walk m ?e (?p, of_table es ?st, True)"
    if "44 + table_size es \<le> unat ?len"
  proof (rule mp_walk_table)
    have "unat (conf + 44) = unat conf + 44" using assms(3) that by (subst unat_add_fits) simp_all
    then show "unat (conf + 44) + table_size es \<le> unat ?e" using e that by simp
  qed (use assms(2,4) in simp_all)
  have p: "unat ?p = unat conf + 44 + table_size es" if "44 + table_size es \<le> unat ?len"
  proof -
    have "unat (of_nat (44 + table_size es) :: u32) = 44 + table_size es"
      using assms(3) that by (simp add: unat_of_nat take_bit_eq_mod del: of_nat_add)
    then show ?thesis using assms(3) that by (simp add: unat_add_fits add.assoc)
  qed
  show ?thesis
  proof (intro conjI impI)
    assume l: "unat ?len = 44 + table_size es"
    then have "\<not> ?p < ?e" using p e by (simp add: word_less_nat_alt)
    then have "mp_walk m ?e (conf + 44, ?st, True) = Some (?p, of_table es ?st, True)"
      unfolding walk [OF eq_refl [OF l [symmetric]]] by (rule mp_walk_end)
    then show "mpinit m st = Ret (of_table es st\<lparr>lapic := load32 m (conf + 36), imcr := imcr st \<or> m (mp + 12) \<noteq> 0\<rparr>)"
      using assms(1) by (simp add: mpinit_def of_table_def)
  next
    assume "44 + table_size es < unat ?len \<and> m ?p \<notin> {0, 1, 2, 3, 4}"
    then have "mp_walk m ?e (conf + 44, ?st, True) = None"
      using walk p e mp_walk_unknown [of ?p ?e m "of_table es ?st" True] by (simp add: word_less_nat_alt)
    then show "mpinit m st = Hang" using assms(1) by (simp add: mpinit_def)
  next
    show "mpinit m st \<noteq> Panic ''Didn't find a suitable machine''"
      using assms(1) by (auto simp: mpinit_def dest: mp_walk_suitable split: option.splits)
  qed
qed

text \<open>The table of a machine with one processor and one I/O interrupt controller.\<close>

definition demo_bios :: mem where
  "demo_bios a =
     (if a = 0x8000040F then 0xF0
      else if a - 0x800F0000 < 88 then
        ([0x5F, 0x4D, 0x50, 0x5F, 0x10, 0, 0x0F, 0, 1, 4, 0x81, 0, 0, 0, 0, 0] @
         [0x50, 0x43, 0x4D, 0x50, 72, 0, 1, 0xB9] @ replicate 20 0 @ [0, 0, 0, 0, 0, 0, 2, 0, 0, 0, 0xE0, 0xFE, 0, 0, 0, 0] @
         [0, 1, 0x14, 3] @ replicate 16 0 @ [2, 4, 0x11, 1, 0, 0, 0xC0, 0xFE]) ! unat (a - 0x800F0000)
      else 0)"

lemma demo_bios_config: "mpconfig demo_bios = Some (0x800F0000, 0x800F0010)"
  by code_simp

theorem mpinit_reads_table_witness:
  "mpinit demo_bios \<lparr>apicids = [], ioapicid = 0, lapic = 0, imcr = False\<rparr> =
     Ret \<lparr>apicids = [1], ioapicid = 4, lapic = 0xFEE00000, imcr = False\<rparr>"
proof -
  have v: "load16 demo_bios (0x800F0010 + 4) = 72" "load32 demo_bios (0x800F0010 + 36) = 0xFEE00000"
    "demo_bios (0x800F0000 + 12) = 0" "table_at demo_bios (0x800F0010 + 44) [Mpproc 1, Mpioapic 4]"
    by code_simp+
  from mpinit_reads_table [OF demo_bios_config _ _ v(4), of "\<lparr>apicids = [], ioapicid = 0, lapic = 0, imcr = False\<rparr>"] v(1-3)
  show ?thesis by (simp add: table_size_def of_table_def)
qed

end
