(* ===== verification/Umalloc.thy ===== *)
theory Umalloc
  imports Xv6_Prelude "HOL-Library.While_Combinator"
begin

text \<open>
  The memory allocator of the user programs (\<^verbatim>\<open>umalloc.c\<close>): a circular list of free blocks in order of
  their addresses, threaded through the blocks. A block starts with a header of two words, the
  link and the size in headers. The list starts at the static header \<open>base\<close>, whose address is an
  argument; the system call \<open>sbrk\<close> is an argument too, a function of the amount and the end of the
  process that returns the call's result and the new end. The loops need not end on a corrupted
  list: the one of \<open>free\<close> is a \<open>while_option\<close>, the one of \<open>malloc\<close> a partial function.

  Shown: on a heap whose free list is well-formed both calls return; \<open>malloc\<close> hands out memory that
  overlaps no free block and no block in use, large enough and in the process, \<open>free\<close> gives the
  block back and merges it with its neighbours, and neither changes a byte of the other blocks.
\<close>

section \<open>Definitions\<close>

record mallocst =
  umem :: mem
  freep :: u32
  brk :: u32

type_synonym sbrk_call = "u32 \<Rightarrow> u32 \<Rightarrow> u32 \<times> u32"

definition hptr :: "u32 \<Rightarrow> mallocst \<Rightarrow> u32" where
  "hptr p s = load32 (umem s) p"

definition hsize :: "u32 \<Rightarrow> mallocst \<Rightarrow> u32" where
  "hsize p s = load32 (umem s) (p + 4)"

definition set_hptr :: "u32 \<Rightarrow> u32 \<Rightarrow> mallocst \<Rightarrow> mallocst" where
  "set_hptr p v s = s\<lparr>umem := store32 p v (umem s)\<rparr>"

definition set_hsize :: "u32 \<Rightarrow> u32 \<Rightarrow> mallocst \<Rightarrow> mallocst" where
  "set_hsize p v s = s\<lparr>umem := store32 (p + 4) v (umem s)\<rparr>"

text \<open>The search of \<open>free\<close> for the block before \<open>bp\<close>.\<close>

definition free_here :: "u32 \<Rightarrow> mallocst \<Rightarrow> u32 \<Rightarrow> bool" where
  "free_here bp s p \<longleftrightarrow>
     bp > p \<and> bp < hptr p s \<or> p \<ge> hptr p s \<and> (bp > p \<or> bp < hptr p s)"

definition free_scan :: "u32 \<Rightarrow> mallocst \<Rightarrow> u32 option" where
  "free_scan bp s = while_option (\<lambda>p. \<not> free_here bp s p) (\<lambda>p. hptr p s) (freep s)"

definition free_join :: "u32 \<Rightarrow> u32 \<Rightarrow> mallocst \<Rightarrow> mallocst" where
  "free_join bp p s =
     (let s = (if bp + 8 * hsize bp s = hptr p s then
                 let s' = set_hsize bp (hsize bp s + hsize (hptr p s) s) s
                 in set_hptr bp (hptr (hptr p s') s') s'
               else set_hptr bp (hptr p s) s);
          s = (if p + 8 * hsize p s = bp then
                 let s' = set_hsize p (hsize p s + hsize bp s) s
                 in set_hptr p (hptr bp s') s'
               else set_hptr p bp s)
      in s\<lparr>freep := p\<rparr>)"

definition free :: "u32 \<Rightarrow> mallocst \<Rightarrow> mallocst option" where
  "free ap s =
     (let bp = ap - 8 in
      case free_scan bp s of None \<Rightarrow> None | Some p \<Rightarrow> Some (free_join bp p s))"

text \<open>\<open>morecore\<close>: \<open>Some (0, s)\<close> when the process cannot grow, \<open>None\<close> when \<open>free\<close> does not return.\<close>

definition morecore :: "sbrk_call \<Rightarrow> u32 \<Rightarrow> mallocst \<Rightarrow> (u32 \<times> mallocst) option" where
  "morecore sbrk nu s =
     (let nu = (if nu < 4096 then 4096 else nu) in
      case sbrk (nu * 8) (brk s) of (p, b) \<Rightarrow>
        let s = s\<lparr>brk := b\<rparr> in
        if p = - 1 then Some (0, s)
        else
          case free (p + 8) (set_hsize p nu s) of
            None \<Rightarrow> None
          | Some s \<Rightarrow> Some (freep s, s))"

definition malloc_take :: "u32 \<Rightarrow> u32 \<Rightarrow> u32 \<Rightarrow> mallocst \<Rightarrow> u32 \<times> mallocst" where
  "malloc_take nunits prevp p s =
     (if hsize p s = nunits then (p + 8, (set_hptr prevp (hptr p s) s)\<lparr>freep := prevp\<rparr>)
      else
        let s = set_hsize p (hsize p s - nunits) s;
            p = p + 8 * hsize p s
        in (p + 8, (set_hsize p nunits s)\<lparr>freep := prevp\<rparr>))"

partial_function (option) malloc_loop :: "sbrk_call \<Rightarrow> u32 \<Rightarrow> u32 \<Rightarrow> u32 \<Rightarrow> mallocst \<Rightarrow> (u32 \<times> mallocst) option" where
  "malloc_loop sbrk nunits prevp p s =
     (if hsize p s \<ge> nunits then Some (malloc_take nunits prevp p s)
      else if p = freep s then
        (case morecore sbrk nunits s of
           None \<Rightarrow> None
         | Some (p, s) \<Rightarrow> if p = 0 then Some (0, s) else malloc_loop sbrk nunits p (hptr p s) s)
      else malloc_loop sbrk nunits p (hptr p s) s)"

declare malloc_loop.simps [code]

definition nunits_of :: "u32 \<Rightarrow> u32" where
  "nunits_of nbytes = (nbytes + 8 - 1) div 8 + 1"

definition malloc :: "u32 \<Rightarrow> sbrk_call \<Rightarrow> u32 \<Rightarrow> mallocst \<Rightarrow> (u32 \<times> mallocst) option" where
  "malloc base sbrk nbytes s =
     (let s = (if freep s = 0 then set_hsize base 0 ((set_hptr base base s)\<lparr>freep := base\<rparr>) else s)
      in malloc_loop sbrk (nunits_of nbytes) (freep s) (hptr (freep s) s) s)"

section \<open>Words of memory at natural addresses\<close>

definition ld :: "mem \<Rightarrow> nat \<Rightarrow> nat" where
  "ld m a = unat (load32 m (of_nat a))"

definition st :: "nat \<Rightarrow> nat \<Rightarrow> mem \<Rightarrow> mem" where
  "st a v m = store32 (of_nat a) (of_nat v) m"

lemma unat_of_nat_32: "n < 2 ^ 32 \<Longrightarrow> unat (of_nat n :: u32) = n"
  by (simp add: unat_of_nat take_bit_eq_mod)

lemma of_nat_eq_32: "a < 2 ^ 32 \<Longrightarrow> b < 2 ^ 32 \<Longrightarrow> (of_nat a :: u32) = of_nat b \<longleftrightarrow> a = b"
  by (metis unat_of_nat_32)

lemma st_other:
  assumes "a + 4 \<le> 2 ^ 32" and "unat x < a \<or> a + 4 \<le> unat x"
  shows "st a v m x = m x"
  unfolding st_def
proof (rule store32_other)
  fix k :: u32
  assume "k < 4"
  then have "unat k < 4" by (simp add: word_less_nat_alt)
  then have "unat (of_nat a + k :: u32) = a + unat k"
    using assms(1) by (simp add: unat_word_ariths unat_of_nat take_bit_eq_mod mod_simps)
  then show "x \<noteq> of_nat a + k" using assms(2) \<open>unat k < 4\<close> by auto
qed

lemma ld_cong:
  assumes "a + 4 \<le> 2 ^ 32" and "\<And>x. a \<le> unat x \<Longrightarrow> unat x < a + 4 \<Longrightarrow> m' x = m x"
  shows "ld m' a = ld m a"
proof -
  have "load32 m' (of_nat a) = load32 m (of_nat a)"
  proof (rule load32_cong)
    fix k :: u32
    assume "k < 4"
    then have "unat k < 4" by (simp add: word_less_nat_alt)
    moreover then have "unat (of_nat a + k :: u32) = a + unat k"
      using assms(1) by (simp add: unat_word_ariths unat_of_nat take_bit_eq_mod mod_simps)
    ultimately show "m' (of_nat a + k) = m (of_nat a + k)" by (intro assms(2)) simp_all
  qed
  then show ?thesis by (simp add: ld_def)
qed

lemma ld_st_same: "v < 2 ^ 32 \<Longrightarrow> ld (st a v m) a = v"
  by (simp add: ld_def st_def unat_of_nat_32)

lemma ld_st_other: "a + 4 \<le> 2 ^ 32 \<Longrightarrow> b + 4 \<le> 2 ^ 32 \<Longrightarrow> a + 4 \<le> b \<or> b + 4 \<le> a \<Longrightarrow> ld (st a v m) b = ld m b"
  by (rule ld_cong) (auto intro!: st_other)

lemma ld_less: "ld m a < 2 ^ 32"
  using unsigned_less [of "load32 m (of_nat a)", where 'a = nat] by (simp add: ld_def)

text \<open>The fields of a header at \<open>a\<close>.\<close>

lemma header_nat:
  "hptr (of_nat a) s = of_nat (ld (umem s) a)" "hsize (of_nat a) s = of_nat (ld (umem s) (a + 4))"
  "set_hptr (of_nat a) (of_nat v) s = s\<lparr>umem := st a v (umem s)\<rparr>"
  "set_hsize (of_nat a) (of_nat v) s = s\<lparr>umem := st (a + 4) v (umem s)\<rparr>"
  by (simp_all add: hptr_def hsize_def set_hptr_def set_hsize_def ld_def st_def add.commute)

section \<open>Lists of blocks\<close>

text \<open>A block is its address and its size in headers; \<open>lim\<close> is what follows the last block of a list.\<close>

type_synonym block = "nat \<times> nat"

fun first :: "block list \<Rightarrow> nat \<Rightarrow> nat" where
  "first [] lim = lim"
| "first ((a, k) # ns) lim = a"

fun seg :: "mem \<Rightarrow> block list \<Rightarrow> nat \<Rightarrow> bool" where
  "seg m [] lim \<longleftrightarrow> True"
| "seg m ((a, k) # ns) lim \<longleftrightarrow> ld m a = first ns lim \<and> ld m (a + 4) = k \<and> seg m ns lim"

text \<open>Ascending, with room for the header and no two blocks adjacent.\<close>

fun spaced :: "block list \<Rightarrow> nat \<Rightarrow> bool" where
  "spaced [] lim \<longleftrightarrow> True"
| "spaced ((a, k) # ns) lim \<longleftrightarrow>
     a + 8 \<le> first ns lim \<and> a + 8 * k \<le> first ns lim \<and> (ns \<noteq> [] \<longrightarrow> a + 8 * k \<noteq> first ns lim) \<and> spaced ns lim"

lemma first_append: "first (xs @ ys) lim = first xs (first ys lim)"
  by (cases xs) auto

lemma seg_append: "seg m (xs @ ys) lim \<longleftrightarrow> seg m xs (first ys lim) \<and> seg m ys lim"
  by (induction xs) (auto simp: first_append)

lemma spaced_first: "spaced ns lim \<Longrightarrow> first ns lim \<le> lim"
  by (induction ns lim rule: spaced.induct) auto

lemma spaced_bounds: "spaced ns lim \<Longrightarrow> (a, k) \<in> set ns \<Longrightarrow> first ns lim \<le> a \<and> a + 8 \<le> lim \<and> a + 8 * k \<le> lim"
proof (induction ns lim rule: spaced.induct)
  case (2 b l ns lim)
  then show ?case using spaced_first [of ns lim] by (cases "(a, k) = (b, l)") auto
qed simp

lemma spaced_append:
  "spaced (xs @ ys) lim \<longleftrightarrow> spaced xs (first ys lim) \<and> spaced ys lim \<and>
     (xs \<noteq> [] \<longrightarrow> ys \<noteq> [] \<longrightarrow> fst (last xs) + 8 * snd (last xs) \<noteq> first ys lim)"
  by (induction xs) (auto simp: first_append)

definition apart :: "block \<Rightarrow> block \<Rightarrow> bool" where
  "apart = (\<lambda>(a, k) (b, u). a + 8 \<le> b \<and> a + 8 * k \<le> b \<or> b + 8 \<le> a \<and> b + 8 * u \<le> a)"

text \<open>A block apart from those of a list has its place between two of them.\<close>

lemma insertion_point:
  assumes "spaced ns lim" and "ns \<noteq> []" and "first ns lim < b" and "\<And>n. n \<in> set ns \<Longrightarrow> apart n (b, u)"
    and "b + 8 * u \<le> lim"
  shows "\<exists>xs p k ys. ns = xs @ (p, k) # ys \<and> p + 8 \<le> b \<and> p + 8 * k \<le> b \<and> b + 8 * u \<le> first ys lim"
  using assms
proof (induction ns lim rule: spaced.induct)
  case (2 a k ns lim)
  have a: "a + 8 \<le> b" "a + 8 * k \<le> b" using "2.prems"(3) "2.prems"(4) [of "(a, k)"] by (auto simp: apart_def)
  show ?case
  proof (cases "ns \<noteq> [] \<and> first ns lim < b")
    case True
    then obtain xs p l ys where "ns = xs @ (p, l) # ys" "p + 8 \<le> b" "p + 8 * l \<le> b" "b + 8 * u \<le> first ys lim"
      using "2.IH" "2.prems" by auto
    then have "(a, k) # ns = ((a, k) # xs) @ (p, l) # ys \<and> p + 8 \<le> b \<and> p + 8 * l \<le> b \<and> b + 8 * u \<le> first ys lim"
      by simp
    then show ?thesis by blast
  next
    case False
    then have "b + 8 * u \<le> first ns lim"
      using "2.prems"(4) [of "hd ns"] "2.prems"(5) by (cases ns) (auto simp: apart_def)
    then have "(a, k) # ns = [] @ (a, k) # ns \<and> a + 8 \<le> b \<and> a + 8 * k \<le> b \<and> b + 8 * u \<le> first ns lim"
      using a by simp
    then show ?thesis by blast
  qed
qed simp

section \<open>Walking the circular list\<close>

lemma seg_next: "seg m (us @ (a, k) # vs) lim \<Longrightarrow> ld m a = first vs lim \<and> ld m (a + 4) = k"
  by (simp add: seg_append)

lemma scan_seg:
  assumes "seg (umem s) ns lim" and "\<And>a k. (a, k) \<in> set ns \<Longrightarrow> \<not> P (of_nat a)"
  shows "while_option (\<lambda>p. \<not> P p) (\<lambda>p. hptr p s) (of_nat (first ns lim)) =
    while_option (\<lambda>p. \<not> P p) (\<lambda>p. hptr p s) (of_nat lim)"
  using assms
proof (induction ns)
  case (Cons n ns)
  obtain a k where n: "n = (a, k)" by (cases n)
  have "while_option (\<lambda>p. \<not> P p) (\<lambda>p. hptr p s) (of_nat a) =
      while_option (\<lambda>p. \<not> P p) (\<lambda>p. hptr p s) (of_nat (first ns lim))"
    using Cons.prems n by (subst while_option_unfold) (auto simp: header_nat)
  with Cons n show ?case by auto
qed simp

text \<open>A search that stops at exactly one block of a circular list finds it, wherever it starts.\<close>

lemma scan_circular:
  assumes "seg (umem s) (xs @ (p, k) # ys) base" and "first (xs @ (p, k) # ys) 0 = base"
    and "f \<in> fst ` set (xs @ (p, k) # ys)" and "P (of_nat p)"
    and "\<And>a l. (a, l) \<in> set xs \<union> set ys \<Longrightarrow> \<not> P (of_nat a)"
  shows "while_option (\<lambda>p. \<not> P p) (\<lambda>p. hptr p s) (of_nat f) = Some (of_nat p)"
proof -
  let ?w = "while_option (\<lambda>p. \<not> P p) (\<lambda>p. hptr p s)"
  have p: "?w (of_nat p) = Some (of_nat p)" using assms(4) by (subst while_option_unfold) simp
  have x: "?w (of_nat a) = Some (of_nat p)" if split: "xs = us @ (a, l) # vs" for a l us vs
    using scan_seg [of s "(a, l) # vs" p P] assms(1,5) p unfolding split by (auto simp: seg_append first_append)
  have b: "?w (of_nat base) = Some (of_nat p)"
  proof (cases xs)
    case Nil
    with assms(2) p show ?thesis by simp
  next
    case (Cons n xs')
    with assms(2) x [of "[]" "fst n" "snd n" xs'] show ?thesis by (cases n) auto
  qed
  have y: "?w (of_nat a) = Some (of_nat p)" if split: "ys = us @ (a, l) # vs" for a l us vs
    using scan_seg [of s "(a, l) # vs" base P] assms(1,5) b unfolding split by (auto simp: seg_append first_append)
  obtain l where "(f, l) \<in> set xs \<or> (f, l) = (p, k) \<or> (f, l) \<in> set ys" using assms(3) by force
  then show ?thesis using p x y by (auto dest!: split_list)
qed

lemma free_here_nat:
  assumes "b < 2 ^ 32" and "a < 2 ^ 32"
  shows "free_here (of_nat b) s (of_nat a) \<longleftrightarrow>
    (let q = ld (umem s) a in a < b \<and> b < q \<or> q \<le> a \<and> (a < b \<or> b < q))"
  using assms ld_less [of "umem s" a]
  by (simp add: free_here_def header_nat word_less_nat_alt word_le_nat_alt unat_of_nat_32 Let_def)

text \<open>The search of \<open>free\<close> stops at the block before the one that is freed.\<close>

lemma free_scan_finds:
  assumes sg: "seg (umem s) (xs @ (p, k) # ys) base" and first: "first (xs @ (p, k) # ys) 0 = base"
    and sp: "spaced (xs @ (p, k) # ys) lim" and lim: "lim < 2 ^ 32"
    and f: "f \<in> fst ` set (xs @ (p, k) # ys)" "freep s = of_nat f"
    and b: "p + 8 \<le> b" "b + 8 * u \<le> first ys lim" "b < lim"
    and u: "0 < u"
  shows "free_scan (of_nat b) s = Some (of_nat p)"
  unfolding free_scan_def f(2)
proof (rule scan_circular [OF sg first f(1)])
  have less: "a < 2 ^ 32" if "(a, l) \<in> set (xs @ (p, k) # ys)" for a l
    using spaced_bounds [OF sp that] lim by simp
  have "base \<le> p" using spaced_bounds [OF sp, of p k] first by (cases xs) auto
  then show "free_here (of_nat b) s (of_nat p)"
    using free_here_nat [of b p s] less [of p k] b u lim seg_next [OF sg] by (cases ys) (auto simp: Let_def)
  fix a l
  assume "(a, l) \<in> set xs \<union> set ys"
  then show "\<not> free_here (of_nat b) s (of_nat a)"
  proof
    assume "(a, l) \<in> set xs"
    then obtain us vs where split: "xs = us @ (a, l) # vs" by (auto dest: split_list)
    have "ld (umem s) a = first (vs @ (p, k) # ys) base" using sg seg_next [of "umem s" us a l] unfolding split by simp
    moreover have "a + 8 \<le> first vs p" "first vs p \<le> p"
      using sp spaced_first [of vs p] unfolding split by (auto simp: spaced_append first_append)
    ultimately show ?thesis
      using free_here_nat [of b a s] less [of a l] b lim split by (auto simp: Let_def first_append)
  next
    assume "(a, l) \<in> set ys"
    then obtain us vs where split: "ys = us @ (a, l) # vs" by (auto dest: split_list)
    have n: "ld (umem s) a = first vs base"
      using sg seg_next [of "umem s" "xs @ (p, k) # us" a l vs base] unfolding split by simp
    have "a + 8 \<le> first vs lim" "first ys lim \<le> a"
      using sp spaced_bounds [of ys lim a l] unfolding split by (auto simp: spaced_append)
    moreover have "base < b" using \<open>base \<le> p\<close> b(1) by simp
    ultimately show ?thesis
      using n free_here_nat [of b a s] less [of a l] b u lim split by (cases vs) (auto simp: Let_def)
  qed
qed

text \<open>What \<open>free_join\<close> does to memory and to the list.\<close>

lemma free_join_nat:
  fixes s :: mallocst and b p :: nat
  defines "m \<equiv> umem s"
  defines "u \<equiv> ld m (b + 4)" and "q \<equiv> ld m p" and "k \<equiv> ld m (p + 4)"
  defines "m1 \<equiv> (if b + 8 * u = q then st b (ld m q) (st (b + 4) (u + ld m (q + 4)) m) else st b q m)"
  assumes bnd: "b + 8 * u < 2 ^ 32" "p + 8 * k < 2 ^ 32" "b < 2 ^ 32" "b + 8 \<le> q \<or> q + 8 \<le> b" "p + 8 \<le> b"
    "b + 8 \<le> 2 ^ 32" "q + 8 \<le> 2 ^ 32"
  shows "free_join (of_nat b) (of_nat p) s =
    s\<lparr>umem := if p + 8 * k = b then st p (ld m1 b) (st (p + 4) (k + ld m1 (b + 4)) m1) else st p b m1,
      freep := of_nat p\<rparr>"
proof -
  have c1: "of_nat b + 8 * hsize (of_nat b) s = hptr (of_nat p) s \<longleftrightarrow> b + 8 * u = q"
    using of_nat_eq_32 [of "b + 8 * u" q] bnd ld_less [of m p] by (simp add: header_nat m_def u_def q_def)
  let ?s1 = "s\<lparr>umem := m1\<rparr>"
  have s1: "(if of_nat b + 8 * hsize (of_nat b) s = hptr (of_nat p) s then
                 let s' = set_hsize (of_nat b) (hsize (of_nat b) s + hsize (hptr (of_nat p) s) s) s
                 in set_hptr (of_nat b) (hptr (hptr (of_nat p) s') s') s'
               else set_hptr (of_nat b) (hptr (of_nat p) s) s) = ?s1"
  proof (cases "b + 8 * u = q")
    case True
    let ?m = "st (b + 4) (u + ld m (q + 4)) m"
    have "ld ?m p = q" using bnd by (subst ld_st_other) (auto simp: q_def)
    moreover have "ld ?m q = ld m q" using bnd by (intro ld_st_other) auto
    moreover have "set_hsize (of_nat b) (of_nat u + of_nat (ld m (q + 4))) s = s\<lparr>umem := ?m\<rparr>"
      using header_nat(4) [of b "u + ld m (q + 4)" s] by (simp add: m_def)
    ultimately show ?thesis
      unfolding c1 using True by (simp add: header_nat Let_def m1_def flip: m_def u_def q_def)
  next
    case False
    then show ?thesis unfolding c1 by (simp add: header_nat m1_def flip: m_def q_def)
  qed
  have pb: "ld m1 (p + 4) = k" using bnd by (auto simp: m1_def ld_st_other k_def)
  have c2: "of_nat p + 8 * hsize (of_nat p) ?s1 = of_nat b \<longleftrightarrow> p + 8 * k = b"
    using of_nat_eq_32 [of "p + 8 * k" b] bnd by (simp add: header_nat pb)
  have s2: "(if of_nat p + 8 * hsize (of_nat p) ?s1 = of_nat b then
                 let s' = set_hsize (of_nat p) (hsize (of_nat p) ?s1 + hsize (of_nat b) ?s1) ?s1
                 in set_hptr (of_nat p) (hptr (of_nat b) s') s'
               else set_hptr (of_nat p) (of_nat b) ?s1) =
      s\<lparr>umem := if p + 8 * k = b then st p (ld m1 b) (st (p + 4) (k + ld m1 (b + 4)) m1) else st p b m1\<rparr>"
  proof (cases "p + 8 * k = b")
    case True
    have "ld (st (p + 4) (k + ld m1 (b + 4)) m1) b = ld m1 b" using bnd by (intro ld_st_other) auto
    moreover have "set_hsize (of_nat p) (of_nat k + of_nat (ld m1 (b + 4))) ?s1 =
        s\<lparr>umem := st (p + 4) (k + ld m1 (b + 4)) m1\<rparr>"
      using header_nat(4) [of p "k + ld m1 (b + 4)" ?s1] by simp
    ultimately show ?thesis unfolding c2 using True by (simp add: header_nat Let_def pb)
  next
    case False
    then show ?thesis unfolding c2 by (simp add: header_nat)
  qed
  show ?thesis unfolding free_join_def s1 unfolding Let_def unfolding s2 [unfolded Let_def] by simp
qed

text \<open>The list with a block put in after \<open>n\<close>, merged with the next and with the previous block.\<close>

definition join_next :: "block \<Rightarrow> block list \<Rightarrow> block list" where
  "join_next = (\<lambda>(b, u) ys. case ys of
       [] \<Rightarrow> [(b, u)]
     | (q, l) # zs \<Rightarrow> if b + 8 * u = q then (b, u + l) # zs else (b, u) # ys)"

definition join_block :: "block \<Rightarrow> block \<Rightarrow> block list \<Rightarrow> block list" where
  "join_block = (\<lambda>(p, k) n ys. case join_next n ys of
       [] \<Rightarrow> [(p, k)]
     | (b, u) # zs \<Rightarrow> if p + 8 * k = b then (p, k + u) # zs else (p, k) # (b, u) # zs)"

lemma seg_cong:
  assumes "seg m ns lim" and "\<And>a k. (a, k) \<in> set ns \<Longrightarrow> ld m' a = ld m a \<and> ld m' (a + 4) = ld m (a + 4)"
  shows "seg m' ns lim"
  using assms by (induction ns) force+

lemma join_next_cases:
  assumes "seg m ys base" and "spaced ys lim" and "b + 8 * u \<le> first ys lim"
  obtains v rest where "join_next (b, u) ys = (b, v) # rest" and "seg m rest base" and "set rest \<subseteq> set ys"
    and "b + 8 * v \<le> lim" and "if b + 8 * u = first ys base \<and> ys \<noteq> [] then first rest base = ld m (first ys base) \<and> v = u + ld m (first ys base + 4)
      else rest = ys \<and> v = u"
proof (cases ys)
  case Nil
  with assms that [of u "[]"] show ?thesis by (simp add: join_next_def)
next
  case (Cons n zs)
  obtain q l where n: "n = (q, l)" by (cases n)
  have "q + 8 * l \<le> lim" using assms(2) spaced_first [of zs lim] unfolding Cons n by auto
  show ?thesis
  proof (cases "b + 8 * u = q")
    case True
    show ?thesis by (rule that [of "u + l" zs]) (use assms \<open>q + 8 * l \<le> lim\<close> True in \<open>auto simp: Cons n join_next_def\<close>)
  next
    case False
    show ?thesis
      by (rule that [of u ys]) (use assms spaced_first [OF assms(2)] False in \<open>auto simp: Cons n join_next_def\<close>)
  qed
qed

lemma seg_join:
  fixes s :: mallocst
  assumes sg: "seg (umem s) (xs @ (p, k) # ys) base" and sp: "spaced (xs @ (p, k) # ys) lim" and lim: "lim < 2 ^ 32"
    and b: "base \<le> p" "p + 8 \<le> b" "p + 8 * k \<le> b" "b + 8 * u \<le> first ys lim" "ld (umem s) (b + 4) = u" "0 < u"
  defines "s' \<equiv> free_join (of_nat b) (of_nat p) s"
  shows "seg (umem s') (xs @ join_block (p, k) (b, u) ys) base"
    and "freep s' = of_nat p" and "brk s' = brk s"
    and "\<And>x. \<not> (p \<le> unat x \<and> unat x < p + 8) \<Longrightarrow> \<not> (b \<le> unat x \<and> unat x < b + 8) \<Longrightarrow> umem s' x = umem s x"
proof -
  define m where "m = umem s"
  have h: "ld m p = first ys base" "ld m (p + 4) = k" "ld m (b + 4) = u" "seg m xs p" "seg m ys base"
    and sy: "spaced ys lim" and sx: "spaced xs p"
    using sg sp b by (auto simp: m_def seg_append spaced_append)
  have fy: "first ys lim \<le> lim" using sy by (rule spaced_first)
  have q: "b + 8 \<le> first ys base \<or> first ys base + 8 \<le> b" "first ys base + 8 \<le> 2 ^ 32"
      "ys = [] \<Longrightarrow> b + 8 * u \<noteq> first ys base"
    using b fy lim sy spaced_first [of "tl ys" lim] by (cases ys; auto)+
  define m1 where "m1 = (if b + 8 * u = first ys base then st b (ld m (first ys base)) (st (b + 4) (u + ld m (first ys base + 4)) m)
    else st b (first ys base) m)"
  define m2 where "m2 = (if p + 8 * k = b then st p (ld m1 b) (st (p + 4) (k + ld m1 (b + 4)) m1) else st p b m1)"
  have s': "s' = s\<lparr>umem := m2, freep := of_nat p\<rparr>"
    using free_join_nat [of b s p] b fy lim q h unfolding s'_def m2_def m1_def m_def by simp
  then show "freep s' = of_nat p" "brk s' = brk s" by simp_all
  have frame: "m2 x = m x" if "\<not> (p \<le> unat x \<and> unat x < p + 8)" "\<not> (b \<le> unat x \<and> unat x < b + 8)" for x
  proof -
    have "st a v n x = n x" if "a \<in> {p, p + 4, b, b + 4}" for a v n
      using that \<open>\<not> (p \<le> _ \<and> _)\<close> \<open>\<not> (b \<le> _ \<and> _)\<close> b fy lim by (intro st_other) auto
    then show ?thesis by (simp add: m2_def m1_def)
  qed
  then show "\<And>x. \<not> (p \<le> unat x \<and> unat x < p + 8) \<Longrightarrow> \<not> (b \<le> unat x \<and> unat x < b + 8) \<Longrightarrow> umem s' x = umem s x"
    by (simp add: s' m_def)
  show "seg (umem s') (xs @ join_block (p, k) (b, u) ys) base"
  proof -
    have other: "ld m2 a = ld m a \<and> ld m2 (a + 4) = ld m (a + 4)" if "a + 8 \<le> p \<or> b + 8 \<le> a" "a + 8 \<le> 2 ^ 32" for a
      using that b by (intro conjI ld_cong frame) auto
    obtain v rest where j: "join_next (b, u) ys = (b, v) # rest" "seg m rest base" "set rest \<subseteq> set ys" "b + 8 * v \<le> lim"
        "if b + 8 * u = first ys base \<and> ys \<noteq> [] then first rest base = ld m (first ys base) \<and> v = u + ld m (first ys base + 4)
         else rest = ys \<and> v = u"
      using h(5) sy b(4) by (rule join_next_cases)
    have v: "v < 2 ^ 32" "k + v < 2 ^ 32 \<or> p + 8 * k \<noteq> b" using j(4) lim by auto
    have m1: "ld m1 b = first rest base" "ld m1 (b + 4) = v" "ld m1 (p + 4) = k"
      using j(5) v(1) b fy lim q h ld_less [of m "first ys base"]
      by (auto simp: m1_def ld_st_same ld_st_other split: if_splits)
    have "seg m2 xs p"
      using h(4) by (rule seg_cong) (use spaced_bounds [OF sx] b lim fy in \<open>intro other; force\<close>)
    moreover have "seg m2 rest base"
      using j(2) by (rule seg_cong) (use j(3) spaced_bounds [OF sy] b lim in \<open>intro other; force\<close>)
    moreover have "ld m2 p = b \<and> ld m2 (p + 4) = k \<and> ld m2 b = first rest base \<and> ld m2 (b + 4) = v" if "p + 8 * k \<noteq> b"
      using that b fy lim m1 by (simp add: m2_def ld_st_same ld_st_other)
    moreover have "ld m2 p = first rest base \<and> ld m2 (p + 4) = k + v" if "p + 8 * k = b"
      using that b fy lim m1 v ld_less [of m1 b] by (simp add: m2_def ld_st_same ld_st_other)
    ultimately show ?thesis by (simp add: s' join_block_def j(1) seg_append)
  qed
qed

lemma join_next_eq: "\<exists>v rest. join_next (b, u) ys = (b, v) # rest \<and> u \<le> v \<and> set rest \<subseteq> set ys"
  by (cases ys) (auto simp: join_next_def)

lemma spaced_join:
  assumes "spaced ((p, k) # ys) lim" and "p + 8 \<le> b" "p + 8 * k \<le> b" "b + 8 * u \<le> first ys lim" "0 < u"
  shows "spaced (join_block (p, k) (b, u) ys) lim"
  using assms by (cases ys) (auto simp: join_block_def join_next_def)

lemma first_join [simp]: "first (join_block (p, k) n ys) lim = p" "join_block (p, k) n ys \<noteq> []"
  using join_next_eq [of "fst n" "snd n" ys] by (auto simp: join_block_def split: if_splits)

definition cells :: "block list \<Rightarrow> nat set" where
  "cells ns = (\<Union>(a, k) \<in> set ns. {a..<a + 8 * k})"

lemma cells_simps [simp]:
  "cells [] = {}" "cells ((a, k) # ns) = {a..<a + 8 * k} \<union> cells ns" "cells (xs @ ys) = cells xs \<union> cells ys"
  by (auto simp: cells_def)

lemma span_merge: "a + 8 * k = b \<Longrightarrow> {a..<a + 8 * (k + u)} = {a..<a + 8 * k} \<union> {b..<b + 8 * u}" for a k u b :: nat
  by auto

lemma cells_next: "cells (join_next (b, u) ys) = {b..<b + 8 * u} \<union> cells ys"
  by (auto simp add: join_next_def span_merge simp del: distrib_left split: list.split)

lemma cells_join: "cells (join_block (p, k) (b, u) ys) = {p..<p + 8 * k} \<union> {b..<b + 8 * u} \<union> cells ys"
proof -
  obtain v rest where j: "join_next (b, u) ys = (b, v) # rest" using join_next_eq by blast
  then have "cells (join_block (p, k) (b, u) ys) = {p..<p + 8 * k} \<union> cells (join_next (b, u) ys)"
    by (auto simp add: join_block_def span_merge simp del: distrib_left)
  then show ?thesis by (simp add: cells_next Un_assoc)
qed

lemma apart_merge: "a + 8 * k = b \<Longrightarrow> apart (a, k) c \<Longrightarrow> apart (b, u) c \<Longrightarrow> apart (a, k + u) c"
  by (auto simp: apart_def)

lemma apart_next:
  assumes "apart (b, u) c" "\<forall>n \<in> set ys. apart n c"
  shows "\<forall>n \<in> set (join_next (b, u) ys). apart n c"
  using assms by (auto simp: join_next_def intro: apart_merge split: list.split)

lemma apart_join:
  assumes "apart (p, k) c" "apart (b, u) c" "\<forall>n \<in> set ys. apart n c"
  shows "\<forall>n \<in> set (join_block (p, k) (b, u) ys). apart n c"
proof -
  obtain v rest where j: "join_next (b, u) ys = (b, v) # rest" using join_next_eq by blast
  with apart_next [OF assms(2,3)] assms(1) show ?thesis by (auto simp: join_block_def intro: apart_merge)
qed

lemma positive_join:
  assumes "\<forall>(a, l) \<in> set ys. 0 < l" "0 < u"
  shows "\<forall>(a, l) \<in> set (join_next (b, u) ys). 0 < l"
    and "0 < k \<Longrightarrow> \<forall>(a, l) \<in> set (join_block (p, k) (b, u) ys). 0 < l"
proof -
  obtain v rest where j: "join_next (b, u) ys = (b, v) # rest" "u \<le> v" "set rest \<subseteq> set ys" using join_next_eq by blast
  with assms show "\<forall>(a, l) \<in> set (join_next (b, u) ys). 0 < l" by auto
  with j show "0 < k \<Longrightarrow> \<forall>(a, l) \<in> set (join_block (p, k) (b, u) ys). 0 < l" by (auto simp: join_block_def)
qed

text \<open>A heap in order, with its blocks in use.\<close>

definition heap_ok :: "nat \<Rightarrow> block list \<Rightarrow> mallocst \<Rightarrow> bool" where
  "heap_ok base ns s \<longleftrightarrow>
     0 < base \<and> (\<exists>fs. ns = (base, 0) # fs \<and> (\<forall>(a, k) \<in> set fs. 0 < k)) \<and>
     seg (umem s) ns base \<and> spaced ns (unat (brk s)) \<and> (\<exists>f \<in> fst ` set ns. freep s = of_nat f)"

definition block_ok :: "nat \<Rightarrow> block list \<Rightarrow> mallocst \<Rightarrow> block \<Rightarrow> bool" where
  "block_ok base ns s = (\<lambda>(b, u). 0 < u \<and> base < b \<and> b + 8 * u \<le> unat (brk s) \<and> ld (umem s) (b + 4) = u \<and>
     (\<forall>n \<in> set ns. apart n (b, u)))"

text \<open>Whether a byte is in the header of a block, and what a change of headers leaves alone.\<close>

definition in_header :: "u32 \<Rightarrow> block \<Rightarrow> bool" where
  "in_header x n \<longleftrightarrow> fst n \<le> unat x \<and> unat x < fst n + 8"

lemma free_works:
  assumes ok: "heap_ok base ns s" and blk: "block_ok base ns s (b, u)"
  shows "\<exists>s' ns'. free (of_nat b + 8) s = Some s' \<and> heap_ok base ns' s' \<and> brk s' = brk s \<and>
    cells ns' = cells ns \<union> {b..<b + 8 * u} \<and>
    (\<forall>c. (\<forall>n \<in> set ns. apart n c) \<longrightarrow> apart (b, u) c \<longrightarrow> (\<forall>n \<in> set ns'. apart n c)) \<and>
    (\<exists>(a, k) \<in> set ns'. u \<le> k) \<and>
    (\<forall>x. (\<forall>n \<in> set ns. \<not> in_header x n) \<longrightarrow> \<not> in_header x (b, u) \<longrightarrow> umem s' x = umem s x)"
proof -
  let ?lim = "unat (brk s)"
  obtain fs f where ns: "ns = (base, 0) # fs" "\<forall>(a, k) \<in> set fs. 0 < k" "0 < base"
    and sg: "seg (umem s) ns base" and sp: "spaced ns ?lim" and f: "f \<in> fst ` set ns" "freep s = of_nat f"
    using ok unfolding heap_ok_def by blast
  have b: "0 < u" "base < b" "b + 8 * u \<le> ?lim" "ld (umem s) (b + 4) = u" "\<And>n. n \<in> set ns \<Longrightarrow> apart n (b, u)"
    using blk by (auto simp: block_ok_def)
  have lim: "?lim < 2 ^ 32" using unsigned_less [of "brk s", where 'a = nat] by simp
  obtain xs p k ys where split: "ns = xs @ (p, k) # ys" and pb: "p + 8 \<le> b" "p + 8 * k \<le> b" "b + 8 * u \<le> first ys ?lim"
    using insertion_point [OF sp _ _ b(5) b(3)] b(2) by (auto simp: ns(1))
  have fst: "first ns l = base" for l by (simp add: ns(1))
  have "(p, k) \<in> set ns" by (simp add: split)
  from spaced_bounds [OF sp this] have base: "base \<le> p" "first (xs @ (p, k) # ys) 0 = base"
    unfolding fst by (simp_all only: fst flip: split)
  have "free_scan (of_nat b) s = Some (of_nat p)"
    using free_scan_finds [OF sg [unfolded split] base(2) sp [unfolded split] lim _ f(2) pb(1,3) _ b(1)] f(1) b(1,3)
    by (simp add: split)
  then have fr: "free (of_nat b + 8) s = Some (free_join (of_nat b) (of_nat p) s)" by (simp add: free_def)
  let ?s = "free_join (of_nat b) (of_nat p) s" and ?ns = "xs @ join_block (p, k) (b, u) ys"
  note j = seg_join [OF sg [unfolded split] sp [unfolded split] lim base(1) pb b(4,1)]
  have "heap_ok base ?ns ?s"
  proof -
    have "\<exists>gs. ?ns = (base, 0) # gs \<and> (\<forall>(a, k) \<in> set gs. 0 < k)"
    proof (cases xs)
      case Nil
      then have "(p, k) = (base, 0)" "ys = fs" using split ns(1) by auto
      moreover obtain v rest where "join_next (b, u) ys = (b, v) # rest" using join_next_eq by blast
      ultimately show ?thesis using Nil b(2) positive_join(1) [OF ns(2) b(1), of b] by (auto simp: join_block_def)
    next
      case (Cons n xs')
      then have "n = (base, 0)" "fs = xs' @ (p, k) # ys" using split ns(1) by auto
      then show ?thesis using Cons ns(2) positive_join(2) [of ys u k p b] b(1) by (simp add: ball_Un)
    qed
    moreover have "spaced ?ns ?lim"
      using sp spaced_join [OF _ pb b(1)] unfolding split by (auto simp: spaced_append)
    moreover have "p \<in> fst ` set ?ns" using first_join [of p k "(b, u)" ys] by (cases "join_block (p, k) (b, u) ys") force+
    ultimately show ?thesis using j(1-3) ns(3) by (auto simp: heap_ok_def)
  qed
  moreover have "cells ?ns = cells ns \<union> {b..<b + 8 * u}" by (auto simp: split cells_join)
  moreover have "\<forall>n \<in> set ?ns. apart n c" if "\<forall>n \<in> set ns. apart n c" "apart (b, u) c" for c
    using that apart_join [of p k c b u ys] by (auto simp: split)
  moreover have "\<exists>(a, k) \<in> set ?ns. u \<le> k"
    using join_next_eq [of b u ys] by (auto simp: join_block_def)
  moreover have "umem ?s x = umem s x" if "\<forall>n \<in> set ns. \<not> in_header x n" "\<not> in_header x (b, u)" for x
    using that j(4) by (auto simp: in_header_def split)
  ultimately show ?thesis using fr j(3) by blast
qed

definition same_block :: "mallocst \<Rightarrow> mallocst \<Rightarrow> block \<Rightarrow> bool" where
  "same_block s s' = (\<lambda>(c, w). \<forall>x. c \<le> unat x \<and> unat x < c + 8 * w \<longrightarrow> umem s' x = umem s x)"

text \<open>What \<open>malloc\<close> takes off the list: a whole block, or the end of one.\<close>

lemma malloc_take_nat:
  assumes "a + 8 * k < 2 ^ 32" "a + 8 \<le> 2 ^ 32" "ld (umem s) (a + 4) = k" "0 < n" "n \<le> k"
  shows "malloc_take (of_nat n) (of_nat r) (of_nat a) s =
    (if k = n then (of_nat a + 8, s\<lparr>umem := st r (ld (umem s) a) (umem s), freep := of_nat r\<rparr>)
     else (of_nat (a + 8 * (k - n)) + 8,
       s\<lparr>umem := st (a + 8 * (k - n) + 4) n (st (a + 4) (k - n) (umem s)), freep := of_nat r\<rparr>))"
proof -
  have k: "k < 2 ^ 32" "n < 2 ^ 32" using assms by auto
  have eq: "hsize (of_nat a) s = of_nat n \<longleftrightarrow> k = n"
    using of_nat_eq_32 [OF k] assms(3) by (simp add: header_nat)
  have "set_hsize (of_nat a) (hsize (of_nat a) s - of_nat n) s = s\<lparr>umem := st (a + 4) (k - n) (umem s)\<rparr>"
    using header_nat(4) [of a "k - n" s] assms(3,5) by (simp add: header_nat(2) of_nat_diff)
  moreover have "of_nat a + 8 * hsize (of_nat a) (s\<lparr>umem := st (a + 4) (k - n) (umem s)\<rparr>) = (of_nat (a + 8 * (k - n)) :: u32)"
    using k by (simp add: header_nat(2) ld_st_same)
  ultimately show ?thesis
    unfolding malloc_take_def eq
    by (simp add: Let_def header_nat(1,3) header_nat(4) [of "a + 8 * (k - n)" n] del: of_nat_add of_nat_mult)
qed

lemma heap_okD:
  assumes "heap_ok base ns s" and "ns = xs @ (r, j) # (a, k) # ys"
  shows "seg (umem s) xs r" "ld (umem s) r = a" "ld (umem s) (r + 4) = j" "ld (umem s) a = first ys base" "ld (umem s) (a + 4) = k"
    "seg (umem s) ys base" "spaced xs r" "spaced ys (unat (brk s))" "r + 8 \<le> a" "r + 8 * j < a" "a + 8 \<le> first ys (unat (brk s))"
    "a + 8 * k \<le> first ys (unat (brk s))" "base \<le> r" "unat (brk s) < 2 ^ 32" "first ys (unat (brk s)) \<le> unat (brk s)"
    "first xs r = base" "0 < k" "base < a"
proof -
  have sp: "spaced ns (unat (brk s))" using assms(1) by (simp add: heap_ok_def)
  then have "spaced ys (unat (brk s))" "spaced ((a, k) # ys) (unat (brk s))" by (auto simp: assms(2) spaced_append)
  then show sy: "spaced ys (unat (brk s))" "first ys (unat (brk s)) \<le> unat (brk s)" using spaced_first by auto
  show "unat (brk s) < 2 ^ 32" using unsigned_less [of "brk s", where 'a = nat] by simp
  have fst: "first ns l = base" for l using assms(1) by (auto simp: heap_ok_def)
  show "first xs r = base" using fst [of 0] by (simp add: assms(2) first_append)
  then show "base \<le> r" "base < a" using sp spaced_first [of xs r] by (auto simp: assms(2) spaced_append)
  show "0 < k" using assms by (cases xs) (auto simp: heap_ok_def)
qed (use assms in \<open>auto simp: heap_ok_def seg_append spaced_append\<close>)

lemma heap_okI:
  assumes "heap_ok base (xs @ (r, j) # (a, k) # ys) s" and "ys' = ys \<or> (\<exists>l > 0. ys' = (a, l) # ys)"
    and "seg (umem s') xs r" "seg (umem s') ((r, j) # ys') base" "spaced (xs @ (r, j) # ys') (unat (brk s'))" "freep s' = of_nat r"
  shows "heap_ok base (xs @ (r, j) # ys') s'"
proof -
  have "0 < base" "\<exists>fs. xs @ (r, j) # (a, k) # ys = (base, 0) # fs \<and> (\<forall>(a, k) \<in> set fs. 0 < k)"
    using assms(1) unfolding heap_ok_def by blast+
  then have "0 < base \<and> (\<exists>fs. xs @ (r, j) # ys' = (base, 0) # fs \<and> (\<forall>(a, k) \<in> set fs. 0 < k))"
    using assms(2) by (cases xs) auto
  moreover have "seg (umem s') (xs @ (r, j) # ys') base" using assms(3,4) by (simp add: seg_append)
  ultimately show ?thesis using assms(5,6) unfolding heap_ok_def by (simp add: image_Un)
qed

lemma take_whole:
  assumes ok: "heap_ok base ns s" and split: "ns = xs @ (r, j) # (a, k) # ys"
  defines "s' \<equiv> s\<lparr>umem := st r (ld (umem s) a) (umem s), freep := of_nat r\<rparr>"
  shows "heap_ok base (xs @ (r, j) # ys) s'" and "block_ok base (xs @ (r, j) # ys) s' (a, k)"
    and "(\<forall>n \<in> set ns. apart n c) \<Longrightarrow> same_block s s' c"
proof -
  note h = heap_okD [OF ok split]
  have r: "r + 4 \<le> 2 ^ 32" using h by simp
  have other: "ld (umem s') x = ld (umem s) x" if "x + 4 \<le> r \<or> r + 4 \<le> x" "x + 4 \<le> 2 ^ 32" for x
    using that r by (auto simp: s'_def ld_st_other)
  have "seg (umem s') xs r"
    using h(1) by (rule seg_cong) (use spaced_bounds [OF h(7)] r in \<open>force intro!: other\<close>)
  moreover have "seg (umem s') ys base"
    using h(6) by (rule seg_cong) (use spaced_bounds [OF h(8)] h in \<open>force intro!: other\<close>)
  moreover have "ld (umem s') r = first ys base"
    using h ld_less [of "umem s" a] by (simp add: s'_def ld_st_same)
  moreover have "spaced (xs @ (r, j) # ys) (unat (brk s))"
    using ok h unfolding heap_ok_def split by (auto simp: spaced_append)
  moreover have "ld (umem s') (r + 4) = j" using other [of "r + 4"] h by simp
  ultimately show "heap_ok base (xs @ (r, j) # ys) s'"
    by (intro heap_okI [OF ok [unfolded split]]) (simp_all add: s'_def)
  have "apart (c, l) (a, k)" if "(c, l) \<in> set (xs @ (r, j) # ys)" for c l
    using that spaced_bounds [OF h(7), of c l] spaced_bounds [OF h(8), of c l] h by (auto simp: apart_def)
  then show "block_ok base (xs @ (r, j) # ys) s' (a, k)"
    using h other [of "a + 4"] by (auto simp: block_ok_def s'_def)
  show "(\<forall>n \<in> set ns. apart n c) \<Longrightarrow> same_block s s' c"
    using r by (auto simp: same_block_def apart_def s'_def split intro!: st_other)
qed

lemma take_end:
  assumes ok: "heap_ok base ns s" and split: "ns = xs @ (r, j) # (a, k) # ys" and n: "0 < n" "n < k"
  defines "b \<equiv> a + 8 * (k - n)"
  defines "s' \<equiv> s\<lparr>umem := st (b + 4) n (st (a + 4) (k - n) (umem s)), freep := of_nat r\<rparr>"
  shows "heap_ok base (xs @ (r, j) # (a, k - n) # ys) s'" and "block_ok base (xs @ (r, j) # (a, k - n) # ys) s' (b, n)"
    and "(\<forall>n \<in> set ns. apart n c) \<Longrightarrow> same_block s s' c"
proof -
  note h = heap_okD [OF ok split]
  have b: "b + 8 * n = a + 8 * k" "a + 8 \<le> b" using n by (auto simp: b_def)
  have lt: "b + 8 * n < 2 ^ 32" using h b by simp
  have other: "ld (umem s') x = ld (umem s) x" if "x + 4 \<le> a + 4 \<or> b + 8 \<le> x" "x + 4 \<le> 2 ^ 32" for x
    using that b lt n by (auto simp: s'_def ld_st_other)
  have "seg (umem s') xs r"
    using h(1) by (rule seg_cong) (use spaced_bounds [OF h(7)] h lt b in \<open>force intro!: other\<close>)
  moreover have "seg (umem s') ys base"
    using h(6) by (rule seg_cong) (use spaced_bounds [OF h(8)] h lt b n in \<open>force intro!: other\<close>)
  moreover have "ld (umem s') (a + 4) = k - n" "ld (umem s') (b + 4) = n"
    using b lt n by (simp_all add: s'_def ld_st_same ld_st_other)
  moreover have "spaced (xs @ (r, j) # (a, k - n) # ys) (unat (brk s))"
    using ok h n unfolding heap_ok_def split by (auto simp: spaced_append)
  moreover have "ld (umem s') r = a" "ld (umem s') (r + 4) = j" "ld (umem s') a = first ys base"
    using other [of r] other [of "r + 4"] other [of a] h by simp_all
  ultimately show "heap_ok base (xs @ (r, j) # (a, k - n) # ys) s'"
    using n by (intro heap_okI [OF ok [unfolded split]]) (simp_all add: s'_def)
  have "apart (c, l) (b, n)" if "(c, l) \<in> set (xs @ (r, j) # (a, k - n) # ys)" for c l
    using that spaced_bounds [OF h(7), of c l] spaced_bounds [OF h(8), of c l] h b n by (auto simp: apart_def b_def)
  then show "block_ok base (xs @ (r, j) # (a, k - n) # ys) s' (b, n)"
    using h b n \<open>ld (umem s') (b + 4) = n\<close> by (auto simp: block_ok_def s'_def)
  have "umem s' x = umem s x" if "unat x < a \<or> a + 8 * k \<le> unat x" for x
    using that lt b n st_other [of "b + 4" x n "st (a + 4) (k - n) (umem s)"] st_other [of "a + 4" x "k - n" "umem s"]
    by (auto simp: s'_def)
  then show "(\<forall>n \<in> set ns. apart n c) \<Longrightarrow> same_block s s' c"
    by (fastforce simp: same_block_def apart_def split)
qed

lemma malloc_take_works:
  assumes ok: "heap_ok base ns s" and split: "ns = xs @ (r, j) # (a, k) # ys" and n: "0 < n" "n \<le> k"
  shows "\<exists>b s' ns'. malloc_take (of_nat n) (of_nat r) (of_nat a) s = (of_nat b + 8, s') \<and>
    heap_ok base ns' s' \<and> block_ok base ns' s' (b, n) \<and> brk s' = brk s \<and> cells ns = cells ns' \<union> {b..<b + 8 * n} \<and>
    (\<forall>c. (\<forall>n \<in> set ns. apart n c) \<longrightarrow> (\<forall>n \<in> set ns'. apart n c) \<and> apart (b, n) c \<and> same_block s s' c)"
proof -
  note h = heap_okD [OF ok split]
  have take: "malloc_take (of_nat n) (of_nat r) (of_nat a) s =
      (if k = n then (of_nat a + 8, s\<lparr>umem := st r (ld (umem s) a) (umem s), freep := of_nat r\<rparr>)
       else (of_nat (a + 8 * (k - n)) + 8,
         s\<lparr>umem := st (a + 8 * (k - n) + 4) n (st (a + 4) (k - n) (umem s)), freep := of_nat r\<rparr>))"
    using h n by (intro malloc_take_nat) auto
  show ?thesis
  proof (cases "k = n")
    case True
    have "cells ns = cells (xs @ (r, j) # ys) \<union> {a..<a + 8 * n}" using True by (auto simp: split)
    moreover have "(\<forall>m \<in> set ns. apart m c) \<longrightarrow> (\<forall>m \<in> set (xs @ (r, j) # ys). apart m c) \<and> apart (a, n) c" for c
      using True by (simp add: split)
    ultimately show ?thesis
      using True take take_whole [OF ok split]
      by (intro exI [of _ a] exI [of _ "s\<lparr>umem := st r (ld (umem s) a) (umem s), freep := of_nat r\<rparr>"]
          exI [of _ "xs @ (r, j) # ys"]) simp
  next
    case False
    let ?b = "a + 8 * (k - n)" and ?ns = "xs @ (r, j) # (a, k - n) # ys"
    have "cells ns = cells ?ns \<union> {?b..<?b + 8 * n}" using n by (auto simp: split)
    moreover have "(\<forall>m \<in> set ns. apart m c) \<longrightarrow> (\<forall>m \<in> set ?ns. apart m c) \<and> apart (?b, n) c" for c
      using n False by (auto simp: split apart_def)
    ultimately show ?thesis
      using False n take take_end [OF ok split n(1)]
      by (intro exI [of _ ?b] exI [of _ "s\<lparr>umem := st (?b + 4) n (st (a + 4) (k - n) (umem s)), freep := of_nat r\<rparr>"]
          exI [of _ ?ns]) simp
  qed
qed

section \<open>The search of malloc\<close>

lemma size_less: "a < 2 ^ 32 \<Longrightarrow> n < 2 ^ 32 \<Longrightarrow> hsize (of_nat a) s \<ge> of_nat n \<longleftrightarrow> n \<le> ld (umem s) (a + 4)"
  using ld_less [of "umem s" "a + 4"] by (simp add: header_nat word_le_nat_alt unat_of_nat_32)

lemma malloc_loop_hit:
  assumes "ld (umem s) (a + 4) = k" "n \<le> k" "a < 2 ^ 32" "n < 2 ^ 32"
  shows "malloc_loop sbrk (of_nat n) r (of_nat a) s = Some (malloc_take (of_nat n) r (of_nat a) s)"
  using assms size_less [of a n s] by (subst malloc_loop.simps) simp

lemma malloc_loop_skip:
  assumes "seg (umem s) ws lim" and "\<And>a k. (a, k) \<in> set ws \<Longrightarrow> k < n \<and> a < 2 ^ 32 \<and> a \<noteq> f"
    and "freep s = of_nat f" "f < 2 ^ 32" "n < 2 ^ 32"
  shows "malloc_loop sbrk (of_nat n) (of_nat r) (of_nat (first ws lim)) s =
    malloc_loop sbrk (of_nat n) (of_nat (fst (last ((r, 0) # ws)))) (of_nat lim) s"
  using assms(1,2)
proof (induction ws arbitrary: r)
  case (Cons w ws)
  obtain a k where w: "w = (a, k)" by (cases w)
  have a: "k < n" "a < 2 ^ 32" "a \<noteq> f" "ld (umem s) a = first ws lim" "ld (umem s) (a + 4) = k"
    using Cons.prems unfolding w by auto
  have "malloc_loop sbrk (of_nat n) (of_nat r) (of_nat a) s = malloc_loop sbrk (of_nat n) (of_nat a) (of_nat (first ws lim)) s"
    using a assms(3-5) size_less [of a n s] of_nat_eq_32 [of a f]
    by (subst malloc_loop.simps) (simp add: header_nat)
  also have "\<dots> = malloc_loop sbrk (of_nat n) (of_nat (fst (last ((a, 0) # ws)))) (of_nat lim) s"
    using Cons.prems w by (intro Cons.IH) auto
  finally show ?case by (simp add: w)
qed simp

lemma spaced_distinct: "spaced ns lim \<Longrightarrow> distinct (map fst ns)"
proof (induction ns lim rule: spaced.induct)
  case (2 a k ns lim)
  have "c \<noteq> a" if "(c, l) \<in> set ns" for c l
    using that "2.prems" spaced_bounds [of ns lim c l] by auto
  with 2 show ?case by force
qed simp

text \<open>The circular list from the block that \<open>freep\<close> points to.\<close>

lemma heap_rotate:
  assumes "heap_ok base ns s"
  obtains f j ws where "freep s = of_nat f" and "seg (umem s) ((f, j) # ws) f" and "set ((f, j) # ws) = set ns"
    and "distinct (map fst ((f, j) # ws))" and "f < 2 ^ 32"
proof -
  obtain fs f where ns: "ns = (base, 0) # fs" and sg: "seg (umem s) ns base" and sp: "spaced ns (unat (brk s))"
    and f: "f \<in> fst ` set ns" "freep s = of_nat f"
    using assms unfolding heap_ok_def by blast
  from f(1) obtain j where in_ns: "(f, j) \<in> set ns" by force
  then obtain xs ys where split: "ns = xs @ (f, j) # ys" by (meson split_list)
  have "first ns 0 = base" by (simp add: ns)
  then have fx: "first xs f = base" by (simp add: split first_append)
  have "seg (umem s) ((f, j) # ys @ xs) f" using sg unfolding split by (simp add: seg_append first_append fx)
  moreover have "set ((f, j) # ys @ xs) = set ns" by (auto simp: split)
  moreover have "distinct (map fst ((f, j) # ys @ xs))" using spaced_distinct [OF sp] by (auto simp: split)
  moreover have "f < 2 ^ 32" using spaced_bounds [OF sp in_ns] unsigned_less [of "brk s", where 'a = nat] by simp
  ultimately show ?thesis using that f(2) by blast
qed

lemma heap_freep: "heap_ok base ns s \<Longrightarrow> freep s \<noteq> 0"
proof -
  assume ok: "heap_ok base ns s"
  obtain f j ws where f1: "freep s = of_nat f" and "seg (umem s) ((f, j) # ws) f"
    and set: "set ((f, j) # ws) = set ns" and "distinct (map fst ((f, j) # ws))" and f2: "f < 2 ^ 32"
    by (rule heap_rotate [OF ok])
  have "(f, j) \<in> set ns" unfolding set [symmetric] by simp
  then have "0 < f" using ok spaced_bounds [of ns "unat (brk s)" f j] by (auto simp: heap_ok_def)
  then show ?thesis using of_nat_eq_32 [OF f2, of 0] f1 by simp
qed

lemma same_block_headers:
  assumes "\<And>m. m \<in> M \<Longrightarrow> apart m c" and "\<And>x. (\<forall>m \<in> M. \<not> in_header x m) \<Longrightarrow> umem s' x = umem s x"
  shows "same_block s s' c"
proof -
  obtain b u where c: "c = (b, u)" by (cases c)
  have "umem s' x = umem s x" if "b \<le> unat x" "unat x < b + 8 * u" for x
  proof (rule assms(2), rule ballI)
    fix m
    assume "m \<in> M"
    then show "\<not> in_header x m" using assms(1) [of m] that c by (cases m) (auto simp: apart_def in_header_def)
  qed
  then show ?thesis by (simp add: c same_block_def)
qed

lemma heap_pred:
  assumes "heap_ok base ns s" and "(r, j) \<in> set ns" and "ld (umem s) r = a" and "(a, k) \<in> set ns" and "0 < k"
  obtains xs ys where "ns = xs @ (r, j) # (a, k) # ys"
proof -
  have base: "(base, 0) \<in> set ns" and sg: "seg (umem s) ns base" and d: "distinct (map fst ns)"
    using assms(1) spaced_distinct by (auto simp: heap_ok_def)
  obtain us vs where split: "ns = us @ (r, j) # vs" using assms(2) by (meson split_list)
  have r: "first vs base = a" using seg_next [OF sg [unfolded split]] assms(3) by simp
  have "vs \<noteq> []" using r base assms(4,5) eq_key_imp_eq_value [OF d, of base 0 k] by auto
  then obtain l ys where vs: "vs = (a, l) # ys" using r by (cases vs) auto
  moreover then have "l = k" using eq_key_imp_eq_value [OF d, of a l k] assms(4) by (simp add: split)
  ultimately show ?thesis using that split by blast
qed

text \<open>What a successful call gives, and that nothing is lost of the memory the process has.\<close>

definition malloc_gives :: "nat \<Rightarrow> block list \<Rightarrow> mallocst \<Rightarrow> nat \<Rightarrow> u32 \<times> mallocst \<Rightarrow> bool" where
  "malloc_gives base ns s n = (\<lambda>(ap, s'). \<exists>b ns'. ap = of_nat b + 8 \<and> heap_ok base ns' s' \<and> block_ok base ns' s' (b, n) \<and>
     brk s \<le> brk s' \<and> cells ns \<union> {unat (brk s)..<unat (brk s')} = cells ns' \<union> {b..<b + 8 * n} \<and>
     (\<forall>c. (\<forall>m \<in> set ns. apart m c) \<and> fst c + 8 * snd c \<le> unat (brk s) \<and> fst c + 8 \<le> unat (brk s) \<longrightarrow>
       (\<forall>m \<in> set ns'. apart m c) \<and> apart (b, n) c \<and> same_block s s' c))"

lemma seg_last: "seg m ns lim \<Longrightarrow> ns \<noteq> [] \<Longrightarrow> ld m (fst (last ns)) = lim"
  by (cases ns rule: rev_cases) (auto simp: seg_append)

lemma malloc_loop_fit:
  assumes ok: "heap_ok base ns s" and fit: "(a, k) \<in> set ns" "n \<le> k" and n: "0 < n" "n < 2 ^ 32"
  shows "\<exists>r. malloc_loop sbrk (of_nat n) (freep s) (hptr (freep s) s) s = Some r \<and> malloc_gives base ns s n r"
proof -
  obtain f j ws where f1: "freep s = of_nat f" and sg: "seg (umem s) ((f, j) # ws) f"
    and set: "set ((f, j) # ws) = set ns" and d: "distinct (map fst ((f, j) # ws))" and f2: "f < 2 ^ 32"
    by (rule heap_rotate [OF ok])
  note f = f1 f2
  have "\<exists>x \<in> set (ws @ [(f, j)]). n \<le> snd x" using fit unfolding set [symmetric] by force
  from split_list_first_prop [OF this] obtain us x vs where split: "ws @ [(f, j)] = us @ x # vs"
    and x: "n \<le> snd x" and us: "\<forall>y \<in> set us. \<not> n \<le> snd y" by blast
  obtain c l where c: "x = (c, l)" by (cases x)
  have less: "e < 2 ^ 32" if "(e, i) \<in> set ns" for e i
    using that ok spaced_bounds [of ns "unat (brk s)" e i] unsigned_less [of "brk s", where 'a = nat] by (auto simp: heap_ok_def)
  have place: "us = ws \<and> x = (f, j) \<or> (\<exists>zs. ws = us @ x # zs)"
  proof (cases vs rule: rev_cases)
    case Nil
    with split show ?thesis by simp
  next
    case (snoc zs z)
    with split have "ws @ [(f, j)] = (us @ x # zs) @ [z]" by simp
    then have "ws = us @ x # zs" unfolding append1_eq_conv ..
    then show ?thesis by blast
  qed
  then have sub: "set us \<subseteq> set ws" "x \<in> set ns" unfolding set [symmetric] by auto
  from place have walk: "seg (umem s) ((f, j) # us) c" "ld (umem s) (c + 4) = l"
    using sg c by (auto simp: seg_append first_append)
  let ?r = "last ((f, j) # us)"
  have "malloc_loop sbrk (of_nat n) (of_nat f) (of_nat (first us c)) s =
      malloc_loop sbrk (of_nat n) (of_nat (fst (last ((f, 0) # us)))) (of_nat c) s"
  proof (rule malloc_loop_skip)
    fix e i
    assume e: "(e, i) \<in> set us"
    then have "(e, i) \<in> set ws" "(e, i) \<in> set ns" using sub(1) unfolding set [symmetric] by auto
    moreover from this(1) have "e \<noteq> f" using d by force
    moreover have "i < n" using us e by force
    ultimately show "i < n \<and> e < 2 ^ 32 \<and> e \<noteq> f" using less by blast
  qed (use walk(1) f n(2) in simp_all)
  also have "fst (last ((f, 0) # us)) = fst ?r" by simp
  also have "malloc_loop sbrk (of_nat n) (of_nat (fst ?r)) (of_nat c) s = Some (malloc_take (of_nat n) (of_nat (fst ?r)) (of_nat c) s)"
    using walk(2) x c less sub n by (intro malloc_loop_hit) auto
  finally have run: "malloc_loop sbrk (of_nat n) (freep s) (hptr (freep s) s) s =
      Some (malloc_take (of_nat n) (of_nat (fst ?r)) (of_nat c) s)"
    using walk(1) by (simp add: f header_nat)
  have "?r \<in> set ns" "ld (umem s) (fst ?r) = c"
    using sub(1) last_in_set [of "(f, j) # us"] seg_last [OF walk(1)] unfolding set [symmetric] by (simp_all only: set_simps) blast+
  then obtain xs ys where "ns = xs @ (fst ?r, snd ?r) # (c, l) # ys"
    using heap_pred [OF ok, of "fst ?r" "snd ?r" c l] sub(2) x c n by auto
  from malloc_take_works [OF ok this n(1)] x c obtain b s' ns' where
    t: "malloc_take (of_nat n) (of_nat (fst ?r)) (of_nat c) s = (of_nat b + 8, s')" "heap_ok base ns' s'" "block_ok base ns' s' (b, n)"
    "brk s' = brk s" "cells ns = cells ns' \<union> {b..<b + 8 * n}"
    "\<forall>c. (\<forall>n \<in> set ns. apart n c) \<longrightarrow> (\<forall>n \<in> set ns'. apart n c) \<and> apart (b, n) c \<and> same_block s s' c"
    by auto
  then have "malloc_gives base ns s n (of_nat b + 8, s')"
    unfolding malloc_gives_def prod.case by (intro exI [of _ b] exI [of _ ns']) simp
  with run t(1) show ?thesis by simp
qed

text \<open>
  What the code relies on of \<open>sbrk\<close> for a positive amount: the process grows, and the result is its
  old end; or the result is \<open>-1\<close> and nothing changes. User memory ends at \<open>KERNBASE\<close>.
\<close>

definition sbrk_ok :: "sbrk_call \<Rightarrow> bool" where
  "sbrk_ok sbrk \<longleftrightarrow>
     (\<forall>n b. 0 < n \<and> n < KERNBASE \<longrightarrow>
       sbrk n b = (- 1, b) \<or> sbrk n b = (b, b + n) \<and> unat b + unat n < 2 ^ 31)"

lemma spaced_mono: "spaced ns lim \<Longrightarrow> lim \<le> lim' \<Longrightarrow> spaced ns lim'"
proof (induction ns lim rule: spaced.induct)
  case (2 a k ns lim)
  then show ?case by (cases ns) auto
qed simp

lemma grow_heap:
  assumes ok: "heap_ok base ns s" and n: "0 < n" "unat (brk s) + 8 * n < 2 ^ 31"
  defines "s' \<equiv> set_hsize (brk s) (of_nat n) (s\<lparr>brk := brk s + of_nat (8 * n)\<rparr>)"
  shows "heap_ok base ns s'" and "block_ok base ns s' (unat (brk s), n)" and "unat (brk s') = unat (brk s) + 8 * n"
    and "fst c + 8 * snd c \<le> unat (brk s) \<Longrightarrow> same_block s s' c"
proof -
  define B where "B = unat (brk s)"
  have B: "brk s = of_nat B" "B + 8 * n < 2 ^ 31" using n by (simp_all add: B_def)
  have s': "s' = s\<lparr>brk := brk s + of_nat (8 * n), umem := st (B + 4) n (umem s)\<rparr>"
    using header_nat(4) [of B n "s\<lparr>brk := brk s + of_nat (8 * n)\<rparr>"] by (simp add: s'_def B(1))
  have "unat (of_nat B + of_nat (8 * n) :: u32) = B + 8 * n"
    using B(2) unat_of_nat_32 [of "B + 8 * n"] by simp
  then show brk: "unat (brk s') = unat (brk s) + 8 * n" by (simp add: s' B_def)
  have sp: "spaced ns B" using ok by (simp add: heap_ok_def B_def)
  have low: "a + 8 \<le> B" "a + 8 * k \<le> B" if "(a, k) \<in> set ns" for a k using spaced_bounds [OF sp that] by simp_all
  have "seg (umem s') ns base"
  proof (rule seg_cong)
    show "seg (umem s) ns base" using ok by (simp add: heap_ok_def)
    show "ld (umem s') a = ld (umem s) a \<and> ld (umem s') (a + 4) = ld (umem s) (a + 4)" if "(a, k) \<in> set ns" for a k
      using low [OF that] B(2) by (simp add: s' ld_st_other)
  qed
  moreover have "spaced ns (unat (brk s'))" using sp brk by (simp add: spaced_mono B_def)
  ultimately show "heap_ok base ns s'" using ok by (simp add: heap_ok_def s')
  have "base + 8 \<le> B" using ok low [of base 0] by (auto simp: heap_ok_def)
  then show "block_ok base ns s' (unat (brk s), n)"
    using n brk low B(2) by (auto simp: block_ok_def apart_def s' ld_st_same simp flip: B_def)
  show "fst c + 8 * snd c \<le> unat (brk s) \<Longrightarrow> same_block s s' c"
    using B(2) by (cases c) (auto simp: same_block_def s' B_def [symmetric] intro!: st_other)
qed

text \<open>The state after a block of \<open>n\<close> headers has been added at the end of the process and freed.\<close>

definition grown :: "nat \<Rightarrow> block list \<Rightarrow> mallocst \<Rightarrow> block list \<Rightarrow> mallocst \<Rightarrow> bool" where
  "grown base ns s ns' s' \<longleftrightarrow> heap_ok base ns' s' \<and> brk s \<le> brk s' \<and>
     cells ns' = cells ns \<union> {unat (brk s)..<unat (brk s')} \<and>
     (\<forall>c. (\<forall>m \<in> set ns. apart m c) \<and> fst c + 8 * snd c \<le> unat (brk s) \<and> fst c + 8 \<le> unat (brk s) \<longrightarrow>
        (\<forall>m \<in> set ns'. apart m c) \<and> same_block s s' c)"

lemma grow_then_free:
  assumes ok: "heap_ok base ns s" and N: "0 < N" and lt: "unat (brk s) + 8 * N < 2 ^ 31"
  shows "\<exists>s' ns' a k. free (brk s + 8) (set_hsize (brk s) (of_nat N) (s\<lparr>brk := brk s + of_nat (8 * N)\<rparr>)) = Some s' \<and>
    grown base ns s ns' s' \<and> (a, k) \<in> set ns' \<and> N \<le> k"
proof -
  let ?B = "unat (brk s)"
  define s1 where "s1 = set_hsize (brk s) (of_nat N) (s\<lparr>brk := brk s + of_nat (8 * N)\<rparr>)"
  note g = grow_heap [OF ok N lt, folded s1_def]
  obtain s' ns' where fr: "free (of_nat ?B + 8) s1 = Some s'" "heap_ok base ns' s'" "brk s' = brk s1"
    "cells ns' = cells ns \<union> {?B..<?B + 8 * N}"
    "\<forall>c. (\<forall>n \<in> set ns. apart n c) \<longrightarrow> apart (?B, N) c \<longrightarrow> (\<forall>n \<in> set ns'. apart n c)"
    "\<exists>(a, k) \<in> set ns'. N \<le> k"
    "\<forall>x. (\<forall>n \<in> set ns. \<not> in_header x n) \<longrightarrow> \<not> in_header x (?B, N) \<longrightarrow> umem s' x = umem s1 x"
    using free_works [OF g(1,2)] by blast
  have "(\<forall>m \<in> set ns'. apart m c) \<and> same_block s s' c"
    if "(\<forall>m \<in> set ns. apart m c) \<and> fst c + 8 * snd c \<le> ?B \<and> fst c + 8 \<le> ?B" for c
  proof -
    have B: "apart (?B, N) c" using that by (cases c) (simp add: apart_def)
    then have "same_block s1 s' c"
      using that fr(7) by (intro same_block_headers [of "insert (?B, N) (set ns)"]) auto
    moreover have "same_block s s1 c" using that by (intro g(4)) simp
    ultimately have "same_block s s' c" by (cases c) (simp add: same_block_def)
    moreover have "\<forall>m \<in> set ns'. apart m c" using that B fr(5) by blast
    ultimately show ?thesis by blast
  qed
  moreover have "brk s \<le> brk s'" "unat (brk s') = ?B + 8 * N" using g(3) fr(3) by (simp_all add: word_le_nat_alt)
  ultimately have "grown base ns s ns' s'" using fr(2,4) by (simp add: grown_def)
  moreover obtain a k where "(a, k) \<in> set ns'" "N \<le> k" using fr(6) by auto
  ultimately show ?thesis using fr(1) by (auto simp: s1_def)
qed

lemma morecore_works:
  assumes ok: "heap_ok base ns s" and sb: "sbrk_ok sbrk" and n: "0 < n" "n < 2 ^ 28"
  shows "morecore sbrk (of_nat n) s = Some (0, s) \<or>
    (\<exists>s' ns' a k. morecore sbrk (of_nat n) s = Some (freep s', s') \<and> grown base ns s ns' s' \<and> (a, k) \<in> set ns' \<and> n \<le> k)"
proof -
  define N where "N = max n 4096"
  have N: "0 < N" "n \<le> N" "N < 2 ^ 28" using n by (auto simp: N_def)
  let ?B = "unat (brk s)"
  have nu: "(if of_nat n < (4096 :: u32) then 4096 else of_nat n) = (of_nat N :: u32)"
    using n unat_of_nat_32 [of n] by (simp add: N_def word_less_nat_alt max_def)
  have amount: "of_nat N * 8 = (of_nat (8 * N) :: u32)" "unat (of_nat (8 * N) :: u32) = 8 * N"
    using N unat_of_nat_32 [of "8 * N"] by simp_all
  have more: "morecore sbrk (of_nat n) s =
      (case sbrk (of_nat (8 * N)) (brk s) of (p, b) \<Rightarrow>
        if p = - 1 then Some (0, s\<lparr>brk := b\<rparr>)
        else (case free (p + 8) (set_hsize p (of_nat N) (s\<lparr>brk := b\<rparr>)) of None \<Rightarrow> None | Some s \<Rightarrow> Some (freep s, s)))"
    unfolding morecore_def nu amount Let_def ..
  have "0 < (of_nat (8 * N) :: u32) \<and> (of_nat (8 * N) :: u32) < KERNBASE"
    using N amount(2) by (simp add: word_less_nat_alt del: of_nat_mult)
  with sb have "sbrk (of_nat (8 * N)) (brk s) = (- 1, brk s) \<or>
      sbrk (of_nat (8 * N)) (brk s) = (brk s, brk s + of_nat (8 * N)) \<and> ?B + 8 * N < 2 ^ 31"
    unfolding sbrk_ok_def using amount(2) by metis
  then show ?thesis
  proof (elim disjE conjE)
    assume "sbrk (of_nat (8 * N)) (brk s) = (- 1, brk s)"
    then show ?thesis using more by simp
  next
    assume run: "sbrk (of_nat (8 * N)) (brk s) = (brk s, brk s + of_nat (8 * N))" and lt: "?B + 8 * N < 2 ^ 31"
    have "brk s \<noteq> - 1" using lt by (auto simp: unsigned_minus_1_eq_mask mask_eq_exp_minus_1)
    moreover obtain s' ns' a k where "free (brk s + 8) (set_hsize (brk s) (of_nat N) (s\<lparr>brk := brk s + of_nat (8 * N)\<rparr>)) = Some s'"
      "grown base ns s ns' s'" "(a, k) \<in> set ns'" "N \<le> k"
      using grow_then_free [OF ok N(1) lt] by blast
    ultimately show ?thesis using more run N(2)
      by (intro disjI2 exI [of _ s'] exI [of _ ns'] exI [of _ a] exI [of _ k]) simp
  qed
qed

lemma grown_gives:
  assumes g: "grown base ns s ns1 s1" and m: "malloc_gives base ns1 s1 n r"
  shows "malloc_gives base ns s n r"
proof -
  obtain ap s' where r: "r = (ap, s')" by (cases r)
  obtain b ns' where t: "ap = of_nat b + 8" "heap_ok base ns' s'" "block_ok base ns' s' (b, n)" "brk s1 \<le> brk s'"
    "cells ns1 \<union> {unat (brk s1)..<unat (brk s')} = cells ns' \<union> {b..<b + 8 * n}"
    "\<And>c. (\<forall>m \<in> set ns1. apart m c) \<and> fst c + 8 * snd c \<le> unat (brk s1) \<and> fst c + 8 \<le> unat (brk s1) \<Longrightarrow>
       (\<forall>m \<in> set ns'. apart m c) \<and> apart (b, n) c \<and> same_block s1 s' c"
    using m unfolding r malloc_gives_def prod.case by blast
  have le: "unat (brk s) \<le> unat (brk s1)" "unat (brk s1) \<le> unat (brk s')"
    using g t(4) by (simp_all add: grown_def word_le_nat_alt)
  have "cells ns \<union> {unat (brk s)..<unat (brk s')} = cells ns1 \<union> {unat (brk s1)..<unat (brk s')}"
    using g le by (auto simp: grown_def)
  then have "cells ns \<union> {unat (brk s)..<unat (brk s')} = cells ns' \<union> {b..<b + 8 * n}" using t(5) by simp
  moreover have "(\<forall>m \<in> set ns'. apart m c) \<and> apart (b, n) c \<and> same_block s s' c"
    if c: "(\<forall>m \<in> set ns. apart m c) \<and> fst c + 8 * snd c \<le> unat (brk s) \<and> fst c + 8 \<le> unat (brk s)" for c
  proof -
    have "(\<forall>m \<in> set ns1. apart m c)" "same_block s s1 c" using g c unfolding grown_def by blast+
    with t(6) [of c] c le show ?thesis by (cases c) (simp add: same_block_def)
  qed
  moreover have "brk s \<le> brk s'" using le by (simp add: word_le_nat_alt)
  ultimately show ?thesis unfolding r malloc_gives_def prod.case using t(1-3) by blast
qed

lemma malloc_loop_no_fit:
  assumes ok: "heap_ok base ns s" and none: "\<And>a k. (a, k) \<in> set ns \<Longrightarrow> k < n" and n: "n < 2 ^ 32"
  shows "malloc_loop sbrk (of_nat n) (freep s) (hptr (freep s) s) s =
    (case morecore sbrk (of_nat n) s of
       None \<Rightarrow> None
     | Some (p, s) \<Rightarrow> if p = 0 then Some (0, s) else malloc_loop sbrk (of_nat n) p (hptr p s) s)"
proof -
  obtain f j ws where f1: "freep s = of_nat f" and sg: "seg (umem s) ((f, j) # ws) f"
    and set: "set ((f, j) # ws) = set ns" and d: "distinct (map fst ((f, j) # ws))" and f2: "f < 2 ^ 32"
    by (rule heap_rotate [OF ok])
  have less: "e < 2 ^ 32" if "(e, i) \<in> set ns" for e i
    using that ok spaced_bounds [of ns "unat (brk s)" e i] unsigned_less [of "brk s", where 'a = nat] by (auto simp: heap_ok_def)
  have "malloc_loop sbrk (of_nat n) (of_nat f) (of_nat (first ws f)) s =
      malloc_loop sbrk (of_nat n) (of_nat (fst (last ((f, 0) # ws)))) (of_nat f) s"
  proof (rule malloc_loop_skip)
    fix e i
    assume e: "(e, i) \<in> set ws"
    then have "(e, i) \<in> set ns" unfolding set [symmetric] by simp
    moreover have "e \<noteq> f" using d e by force
    ultimately show "i < n \<and> e < 2 ^ 32 \<and> e \<noteq> f" using none less by blast
  qed (use sg f1 f2 n in simp_all)
  moreover have "(f, j) \<in> set ns" unfolding set [symmetric] by simp
  ultimately show ?thesis
    using sg none [of f j] size_less [OF f2 n, of s] f1
    by (subst (asm) (2) malloc_loop.simps) (simp add: header_nat)
qed

lemma malloc_loop_works:
  assumes ok: "heap_ok base ns s" and sb: "sbrk_ok sbrk" and n: "0 < n" "n < 2 ^ 28"
  shows "malloc_loop sbrk (of_nat n) (freep s) (hptr (freep s) s) s = Some (0, s) \<or>
    (\<exists>r. malloc_loop sbrk (of_nat n) (freep s) (hptr (freep s) s) s = Some r \<and> malloc_gives base ns s n r)"
proof (cases "\<exists>(a, k) \<in> set ns. n \<le> k")
  case True
  then show ?thesis using malloc_loop_fit [OF ok _ _ n(1)] n(2) by fastforce
next
  case False
  then have none: "k < n" if "(a, k) \<in> set ns" for a k using that by force
  note no = malloc_loop_no_fit [OF ok none, where sbrk = sbrk]
  from morecore_works [OF ok sb n] show ?thesis
  proof (elim disjE exE conjE)
    assume "morecore sbrk (of_nat n) s = Some (0, s)"
    then show ?thesis using no n(2) by simp
  next
    fix s1 ns1 a k
    assume more: "morecore sbrk (of_nat n) s = Some (freep s1, s1)" and g: "grown base ns s ns1 s1"
      and fit: "(a, k) \<in> set ns1" "n \<le> k"
    have ok1: "heap_ok base ns1 s1" using g by (simp add: grown_def)
    obtain r where "malloc_loop sbrk (of_nat n) (freep s1) (hptr (freep s1) s1) s1 = Some r" "malloc_gives base ns1 s1 n r"
      using malloc_loop_fit [OF ok1 fit n(1), of sbrk] n(2) by auto
    then show ?thesis using no n(2) more heap_freep [OF ok1] grown_gives [OF g] by auto
  qed
qed

section \<open>The allocator\<close>

text \<open>
  The heap of a process between calls: \<open>ns\<close> are the free blocks, starting with \<open>base\<close>, and \<open>U\<close> the
  blocks in use. Before the first call there are none of either.
\<close>

definition heap_state :: "nat \<Rightarrow> block list \<Rightarrow> block set \<Rightarrow> mallocst \<Rightarrow> bool" where
  "heap_state base ns U s \<longleftrightarrow>
     (if freep s = 0 then 0 < base \<and> base + 8 \<le> unat (brk s) \<and> ns = [(base, 0)] \<and> U = {}
      else heap_ok base ns s \<and> (\<forall>c \<in> U. block_ok base ns s c) \<and> (\<forall>c \<in> U. \<forall>d \<in> U. c \<noteq> d \<longrightarrow> apart c d))"

lemma first_call:
  assumes "0 < base" and "base + 8 \<le> unat (brk s)"
  shows "heap_ok base [(base, 0)] (set_hsize (of_nat base) 0 ((set_hptr (of_nat base) (of_nat base) s)\<lparr>freep := of_nat base\<rparr>))"
proof -
  have lt: "base + 8 < 2 ^ 32" using assms(2) unsigned_less [of "brk s", where 'a = nat] by simp
  have s: "set_hsize (of_nat base) 0 ((set_hptr (of_nat base) (of_nat base) s)\<lparr>freep := of_nat base\<rparr>) =
      s\<lparr>umem := st (base + 4) 0 (st base base (umem s)), freep := of_nat base\<rparr>"
    using header_nat(4) [of base 0] by (simp add: header_nat(3))
  show ?thesis unfolding s using assms lt by (simp add: heap_ok_def ld_st_same ld_st_other)
qed

lemma heap_state_same:
  assumes "heap_state base ns U s" and "\<forall>c \<in> U. same_block s s' c" and "brk s \<le> brk s'" and "heap_ok base ns' s'"
    and "\<forall>c \<in> U. \<forall>m \<in> set ns'. apart m c"
  shows "\<forall>c \<in> U. block_ok base ns' s' c"
proof
  fix c
  assume c: "c \<in> U"
  obtain b u where bu: "c = (b, u)" by (cases c)
  have ok: "block_ok base ns s c" using assms(1) c by (auto simp: heap_state_def split: if_splits)
  have b: "0 < u" "base < b" "b + 8 * u \<le> unat (brk s)" "ld (umem s) (b + 4) = u" using ok by (auto simp: block_ok_def bu)
  have "ld (umem s') (b + 4) = ld (umem s) (b + 4)"
    using assms(2) c b(1,3) unsigned_less [of "brk s", where 'a = nat] by (intro ld_cong) (auto simp: same_block_def bu)
  then show "block_ok base ns' s' c"
    using b assms(3,5) c by (auto simp: block_ok_def bu word_le_nat_alt)
qed

lemma nunits_arith: "k < 2 ^ 30 \<Longrightarrow> (k + 7) div 8 + 1 < 2 ^ 28 \<and> k + 8 \<le> 8 * ((k + 7) div 8 + 1)" for k :: nat
  by simp presburger

lemma nunits_bounds:
  assumes "unat nbytes < 2 ^ 30"
  shows "unat (nunits_of nbytes) = (unat nbytes + 7) div 8 + 1" and "0 < unat (nunits_of nbytes)"
    and "unat (nunits_of nbytes) < 2 ^ 28" and "unat nbytes + 8 \<le> 8 * unat (nunits_of nbytes)"
proof -
  have "unat (nbytes + 7) = unat nbytes + 7" using assms by (simp add: unat_word_ariths)
  then have "unat ((nbytes + 7) div 8) = (unat nbytes + 7) div 8" by (simp add: unat_div)
  then show *: "unat (nunits_of nbytes) = (unat nbytes + 7) div 8 + 1"
    using assms by (simp add: nunits_of_def unat_word_ariths)
  show "0 < unat (nunits_of nbytes)" "unat (nunits_of nbytes) < 2 ^ 28" "unat nbytes + 8 \<le> 8 * unat (nunits_of nbytes)"
    using nunits_arith [OF assms] unfolding * by simp_all
qed

text \<open>A request close to the word size wraps around: the block it gets has no room at all.\<close>

lemma nunits_wrap: "nbytes > 0xFFFFFFF8 \<Longrightarrow> nunits_of nbytes = 1"
proof -
  assume "nbytes > 0xFFFFFFF8"
  then have "unat nbytes \<ge> 0xFFFFFFF9" by (simp add: word_less_nat_alt)
  then have "unat (nbytes + 7) < 8"
    using unsigned_less [of nbytes, where 'a = nat] by (auto simp: unat_word_ariths mod_if)
  then have "(nbytes + 7) div 8 = 0" by (intro div_word_less) (simp add: word_less_nat_alt)
  then show ?thesis by (simp add: nunits_of_def add.commute)
qed

lemma apart_sym: "apart c d \<Longrightarrow> apart d c"
  by (auto simp: apart_def)

lemma apart_irrefl: "\<not> apart c c"
  by (auto simp: apart_def)

lemma heap_state_ok:
  assumes "heap_state base ns U s" and "freep s \<noteq> 0"
  shows "heap_ok base ns s" and "\<forall>c \<in> U. block_ok base ns s c" and "\<forall>c \<in> U. \<forall>d \<in> U. c \<noteq> d \<longrightarrow> apart c d"
    and "\<And>c. c \<in> U \<Longrightarrow> (\<forall>m \<in> set ns. apart m c) \<and> fst c + 8 * snd c \<le> unat (brk s) \<and> fst c + 8 \<le> unat (brk s)"
proof -
  show ok: "heap_ok base ns s" "\<forall>c \<in> U. block_ok base ns s c" "\<forall>c \<in> U. \<forall>d \<in> U. c \<noteq> d \<longrightarrow> apart c d"
    using assms by (simp_all add: heap_state_def)
  fix c
  assume "c \<in> U"
  with ok(2) have "block_ok base ns s c" by blast
  then show "(\<forall>m \<in> set ns. apart m c) \<and> fst c + 8 * snd c \<le> unat (brk s) \<and> fst c + 8 \<le> unat (brk s)"
    by (cases c) (auto simp: block_ok_def)
qed

lemma gives_heap_state:
  assumes st: "heap_state base ns U s" "freep s \<noteq> 0" and m: "malloc_gives base ns s n (ap, s')"
  shows "\<exists>b ns'. ap = of_nat b + 8 \<and> (b, n) \<notin> U \<and> heap_state base ns' (insert (b, n) U) s' \<and>
    cells ns \<union> {unat (brk s)..<unat (brk s')} = cells ns' \<union> {b..<b + 8 * n} \<and> (\<forall>c \<in> U. same_block s s' c)"
proof -
  note ok = heap_state_ok [OF st]
  obtain b ns' where t: "ap = of_nat b + 8" "heap_ok base ns' s'" "block_ok base ns' s' (b, n)" "brk s \<le> brk s'"
    "cells ns \<union> {unat (brk s)..<unat (brk s')} = cells ns' \<union> {b..<b + 8 * n}"
    "\<And>c. (\<forall>m \<in> set ns. apart m c) \<and> fst c + 8 * snd c \<le> unat (brk s) \<and> fst c + 8 \<le> unat (brk s) \<Longrightarrow>
       (\<forall>m \<in> set ns'. apart m c) \<and> apart (b, n) c \<and> same_block s s' c"
    using m unfolding malloc_gives_def prod.case by blast
  have U: "(\<forall>m \<in> set ns'. apart m c) \<and> apart (b, n) c \<and> same_block s s' c" if "c \<in> U" for c
    using ok(4) [OF that] by (rule t(6))
  have "\<forall>c \<in> U. block_ok base ns' s' c" using U by (intro heap_state_same [OF st(1) _ t(4) t(2)]) blast+
  moreover have "\<forall>c \<in> insert (b, n) U. \<forall>d \<in> insert (b, n) U. c \<noteq> d \<longrightarrow> apart c d"
    using ok(3) U apart_sym by blast
  ultimately have "heap_state base ns' (insert (b, n) U) s'"
    using t(2,3) heap_freep [OF t(2)] by (simp add: heap_state_def)
  moreover have "(b, n) \<notin> U" using U apart_irrefl by blast
  ultimately show ?thesis using t(1,5) U by blast
qed

lemma malloc_safe:
  assumes st: "heap_state base ns U s" and sb: "sbrk_ok sbrk" and nb: "unat nbytes < 2 ^ 30"
  shows "\<exists>ap s'. malloc (of_nat base) sbrk nbytes s = Some (ap, s') \<and> (\<forall>c \<in> U. same_block s s' c) \<and>
    (ap = 0 \<and> heap_state base ns U s' \<or>
     (\<exists>b n ns'. ap = of_nat b + 8 \<and> unat nbytes + 8 \<le> 8 * n \<and> (b, n) \<notin> U \<and> heap_state base ns' (insert (b, n) U) s' \<and>
       cells ns \<union> {unat (brk s)..<unat (brk s')} = cells ns' \<union> {b..<b + 8 * n}))"
proof -
  let ?s0 = "if freep s = 0 then set_hsize (of_nat base) 0 ((set_hptr (of_nat base) (of_nat base) s)\<lparr>freep := of_nat base\<rparr>) else s"
  define s0 where "s0 = ?s0"
  let ?n = "unat (nunits_of nbytes)"
  have ok: "heap_ok base ns s0" using st first_call [of base s] by (auto simp: heap_state_def s0_def)
  note f = heap_freep [OF ok]
  have st0: "heap_state base ns U s0" using st ok f by (auto simp: heap_state_def s0_def split: if_splits)
  have brk: "brk s0 = brk s" by (simp add: s0_def set_hsize_def set_hptr_def)
  have same: "same_block s s' c" if "c \<in> U" "same_block s0 s' c" for c s'
    using that st by (auto simp: heap_state_def s0_def split: if_splits)
  have run: "malloc (of_nat base) sbrk nbytes s = malloc_loop sbrk (of_nat ?n) (freep s0) (hptr (freep s0) s0) s0"
    by (simp add: malloc_def s0_def Let_def)
  from malloc_loop_works [OF ok sb nunits_bounds(2,3) [OF nb]] show ?thesis
  proof (elim disjE exE conjE)
    assume "malloc_loop sbrk (of_nat ?n) (freep s0) (hptr (freep s0) s0) s0 = Some (0, s0)"
    then show ?thesis using run st0 same [of _ s0] by (auto simp: same_block_def)
  next
    fix r
    assume l: "malloc_loop sbrk (of_nat ?n) (freep s0) (hptr (freep s0) s0) s0 = Some r" and g: "malloc_gives base ns s0 ?n r"
    obtain ap s' where r: "r = (ap, s')" by (cases r)
    from gives_heap_state [OF st0 f g [unfolded r]] obtain b ns' where
      "ap = of_nat b + 8" "(b, ?n) \<notin> U" "heap_state base ns' (insert (b, ?n) U) s'"
      "cells ns \<union> {unat (brk s)..<unat (brk s')} = cells ns' \<union> {b..<b + 8 * ?n}" "\<forall>c \<in> U. same_block s0 s' c"
      unfolding brk by blast
    moreover from this have "\<forall>c \<in> U. same_block s s' c" using same by blast
    moreover have "malloc (of_nat base) sbrk nbytes s = Some (ap, s')" using run l r by simp
    ultimately show ?thesis using nunits_bounds(4) [OF nb] by blast
  qed
qed

lemma free_safe:
  assumes st: "heap_state base ns U s" and b: "(b, u) \<in> U"
  shows "\<exists>s' ns'. free (of_nat b + 8) s = Some s' \<and> heap_state base ns' (U - {(b, u)}) s' \<and>
    cells ns' = cells ns \<union> {b..<b + 8 * u} \<and> (\<forall>c \<in> U - {(b, u)}. same_block s s' c)"
proof -
  let ?U = "U - {(b, u)}"
  have f: "freep s \<noteq> 0" using st b by (auto simp: heap_state_def)
  note ok = heap_state_ok [OF st f]
  obtain s' ns' where fr: "free (of_nat b + 8) s = Some s'" "heap_ok base ns' s'" "brk s' = brk s"
    "cells ns' = cells ns \<union> {b..<b + 8 * u}"
    "\<forall>c. (\<forall>n \<in> set ns. apart n c) \<longrightarrow> apart (b, u) c \<longrightarrow> (\<forall>n \<in> set ns'. apart n c)"
    "\<forall>x. (\<forall>n \<in> set ns. \<not> in_header x n) \<longrightarrow> \<not> in_header x (b, u) \<longrightarrow> umem s' x = umem s x"
    using free_works [OF ok(1), of b u] ok(2) b by blast
  have U: "(\<forall>n \<in> set ns'. apart n c) \<and> same_block s s' c" if c: "c \<in> ?U" for c
  proof -
    have "c \<in> U" "c \<noteq> (b, u)" using c by auto
    then have "apart (b, u) c" "\<forall>n \<in> set ns. apart n c" using ok(3) b ok(4) [of c] by auto
    then have "same_block s s' c" using fr(6) by (intro same_block_headers [of "insert (b, u) (set ns)"]) auto
    with \<open>apart (b, u) c\<close> \<open>\<forall>n \<in> set ns. apart n c\<close> fr(5) show ?thesis by blast
  qed
  have "heap_state base ns ?U s" using st f by (simp add: heap_state_def)
  then have "\<forall>c \<in> ?U. block_ok base ns' s' c" using U fr(2,3) by (intro heap_state_same [of base ns ?U s]) auto
  then have "heap_state base ns' ?U s'" using fr(2) ok(3) heap_freep [OF fr(2)] by (simp add: heap_state_def)
  then show ?thesis using fr(1,4) U by blast
qed

text \<open>
  C40. The user allocator is safe. On a heap in order both calls return. \<open>malloc\<close> of fewer than
  \<open>2\<^sup>3\<^sup>0\<close> bytes fails, or gives a block of at least that size which is inside the process and apart from
  the free blocks and from all blocks in use; \<open>free\<close> of a block in use puts exactly its memory
  back. Both leave the heap in order, lose no memory, and change no byte of any other block in use.
\<close>

theorem malloc_free_safe:
  assumes "heap_state base ns U s" and "sbrk_ok sbrk"
  shows "(unat nbytes < 2 ^ 30 \<longrightarrow>
      (\<exists>ap s'. malloc (of_nat base) sbrk nbytes s = Some (ap, s') \<and> (\<forall>c \<in> U. same_block s s' c) \<and>
        (ap = 0 \<and> heap_state base ns U s' \<or>
         (\<exists>b n ns'. ap = of_nat b + 8 \<and> unat nbytes + 8 \<le> 8 * n \<and> (b, n) \<notin> U \<and> heap_state base ns' (insert (b, n) U) s' \<and>
           cells ns \<union> {unat (brk s)..<unat (brk s')} = cells ns' \<union> {b..<b + 8 * n})))) \<and>
    (\<forall>(b, u) \<in> U. \<exists>s' ns'. free (of_nat b + 8) s = Some s' \<and> heap_state base ns' (U - {(b, u)}) s' \<and>
       cells ns' = cells ns \<union> {b..<b + 8 * u} \<and> (\<forall>c \<in> U - {(b, u)}. same_block s s' c))"
  using malloc_safe [OF assms] free_safe [OF assms(1)] by blast

text \<open>The first call in a process of one page of data, and a call that gives the block back.\<close>

definition demo_heap :: mallocst where
  "demo_heap = \<lparr>umem = (\<lambda>_. 0), freep = 0, brk = 0x4000\<rparr>"

definition demo_sbrk :: sbrk_call where
  "demo_sbrk n b = (if b < 0x80000 \<and> n < 0x80000 then (b, b + n) else (- 1, b))"

lemma demo_malloc: "map_option fst (malloc 0x1000 demo_sbrk 100 demo_heap) = Some 0xBF98"
  by code_simp

theorem malloc_free_safe_witness:
  "\<exists>s' b n s'' ns. malloc 0x1000 demo_sbrk 100 demo_heap = Some (0xBF98, s') \<and> 0xBF98 = (of_nat b + 8 :: u32) \<and>
     108 \<le> 8 * (n :: nat) \<and> free 0xBF98 s' = Some s'' \<and> heap_state 0x1000 ns {} s''"
proof -
  have "heap_state 0x1000 [(0x1000, 0)] {} demo_heap" by (simp add: heap_state_def demo_heap_def)
  moreover have sb: "sbrk_ok demo_sbrk"
    by (auto simp: sbrk_ok_def demo_sbrk_def word_less_nat_alt)
  ultimately obtain s' b n ns where m: "malloc 0x1000 demo_sbrk 100 demo_heap = Some (0xBF98, s')" "0xBF98 = (of_nat b + 8 :: u32)"
    "108 \<le> 8 * n" "heap_state 0x1000 ns {(b, n)} s'"
    using malloc_free_safe [of "0x1000" "[(0x1000, 0)]" "{}" demo_heap demo_sbrk 100] demo_malloc by force
  from malloc_free_safe [OF m(4) sb, of 0] obtain s'' ns' where "free (of_nat b + 8) s' = Some s''" "heap_state 0x1000 ns' {} s''"
    by auto
  with m show ?thesis by metis
qed

end
