(* ===== verification/Spec2Isabelle.thy ===== *)
theory Spec2Isabelle
  imports Vm_Space Trap Grep Sh Mp Umalloc
begin

text \<open>
  A verification development of xv6: the kernel, and the library, allocator, shell and \<open>grep\<close> of its user land.

  \<^bold>\<open>The program.\<close> xv6 is a small Unix for 32-bit x86 multiprocessors. From the bottom up: a page
  allocator (\<^verbatim>\<open>kalloc.c\<close>); page tables (\<^verbatim>\<open>vm.c\<close>); a disk driver (\<^verbatim>\<open>ide.c\<close>, or \<^verbatim>\<open>memide.c\<close>) under a
  buffer cache (\<^verbatim>\<open>bio.c\<close>), a write-ahead log (\<^verbatim>\<open>log.c\<close>) and a file system of blocks, inodes,
  directories and paths (\<^verbatim>\<open>fs.c\<close>); open files and pipes (\<^verbatim>\<open>file.c\<close>, \<^verbatim>\<open>pipe.c\<close>); processes and their
  scheduling (\<^verbatim>\<open>proc.c\<close>); the loader (\<^verbatim>\<open>exec.c\<close>); the console (\<^verbatim>\<open>console.c\<close>, \<^verbatim>\<open>kbd.c\<close>, \<^verbatim>\<open>uart.c\<close>); and
  system calls and traps on top (\<^verbatim>\<open>syscall.c\<close>, \<^verbatim>\<open>sysproc.c\<close>, \<^verbatim>\<open>sysfile.c\<close>, \<^verbatim>\<open>trap.c\<close>). A trap enters
  \<open>trap\<close>, which calls \<open>syscall\<close>; a system call fetches its arguments from user memory, takes its
  descriptors to open files, and brackets its work on inodes by \<open>begin_op\<close> and \<open>end_op\<close>; inodes are
  read and written through buffers, and \<open>log_write\<close> keeps modified ones in the cache until the
  commit.

  \<^bold>\<open>How the code is modelled.\<close> Every C function is a function on an explicit state, in the order of
  the source, with its guards and early returns. Its result is an \<open>outcome\<close>: a value; a \<open>Panic\<close>;
  \<open>Block\<close> where the process would sleep and nobody in the sequential model is left to wake it;
  \<open>Hang\<close> for a loop that does not end; \<open>Fault\<close> for an access that is undefined in C or traps.
  Addresses, sizes, offsets and the data of programs are words and wrap around. A C \<open>int\<close> that the
  kernel only uses to count something bounded (references, operations under way, entries of the
  log) or returns as a result is an \<open>int\<close>; \<open>nextpid\<close>, which is only ever counted up, is an \<open>int\<close> with
  the wrap-around written out (\<open>int32\<close>). Memory is a function from 32-bit addresses to bytes;
  page tables, trap frames and the free list lie in it as they do in the kernel. The state is one
  record that each layer extends: \<open>diskst\<close> (disk, driver queue, buffers, running process),
  \<open>logst\<close>, \<open>fsst\<close> (superblock, inode cache), \<open>filest\<close> (memory, pipes, open files), \<open>procst\<close> (process
  table, ticks) and \<open>consst\<close> (console); the operations of a layer are polymorphic in the rest of
  the record, so that they run unchanged in the layers above. Outside \<open>Spinlock\<close> a critical
  section is one step and the calls of \<open>acquire\<close> and \<open>release\<close> are left out; \<open>Spinlock\<close> justifies
  this by proving mutual exclusion for CPUs that interleave their accesses to a lock.

  \<^bold>\<open>The theories.\<close>
  \<^item> \<open>Xv6_Prelude\<close>: integers, constants, outcomes, little-endian data, shared lemmas.
  \<^item> \<open>Xv6_String\<close>: \<^verbatim>\<open>string.c\<close>. \<open>memmove\<close> on overlapping ranges, \<open>memset\<close>, and that a directory name
    stored by \<open>strncpy\<close> is found by \<open>strncmp\<close>.
  \<^item> \<open>Kalloc\<close>: \<^verbatim>\<open>kalloc.c\<close>. The free list in memory represents a list of distinct pages; the laws of
    an allocator are the locale \<open>page_allocator\<close>.
  \<^item> \<open>Vm\<close>, \<open>Vm_Map\<close>, \<open>Vm_Space\<close>: \<^verbatim>\<open>vm.c\<close>. \<open>translate\<close> is the walk the hardware makes; \<open>mappages\<close>
    refines the update of a partial map, \<open>allocuvm\<close> gives zeroed pages and \<open>copyuvm\<close> copies.
  \<^item> \<open>Pipe\<close>: \<^verbatim>\<open>pipe.c\<close>. A ring under counters that wrap is a queue (locale \<open>bounded_fifo\<close>), for all
    interleavings of readers, writers and closers.
  \<^item> \<open>Ide\<close>, \<open>Bio\<close>, \<open>Log\<close>: \<^verbatim>\<open>sleeplock.c\<close>, \<^verbatim>\<open>ide.c\<close>, \<^verbatim>\<open>memide.c\<close>, \<^verbatim>\<open>bio.c\<close>, \<^verbatim>\<open>log.c\<close>. Both drivers
    agree; the cache is transparent and recycles the least recently used buffer (locale
    \<open>block_cache\<close>); \<open>commit\<close> and recovery are atomic for a crash after any number of sector writes
    (locale \<open>journal\<close>); three operations that \<open>begin_op\<close> admits can overfill the default log.
  \<^item> \<open>Fs\<close>, \<open>Fs_Blocks\<close>, \<open>Fs_Files\<close>, \<open>Fs_Frame\<close>: \<^verbatim>\<open>fs.c\<close>. Allocation against the bitmap, \<open>readi\<close> and
    \<open>writei\<close> against a file as a sequence of bytes with direct and indirect blocks, and what each
    layer leaves alone.
  \<^item> \<open>File\<close>: \<^verbatim>\<open>file.c\<close>, with writes split into transactions, and \<open>filelseek\<close> with the reads after it.
  \<^item> \<open>Spinlock\<close>: \<^verbatim>\<open>spinlock.c\<close>. \<open>Proc\<close>, \<open>Proc_Table\<close>: \<^verbatim>\<open>proc.c\<close>, with the invariant of the process
    table over a step relation, until the identifiers run out, fairness of the scheduler, and that \<open>exit\<close> wakes the parent.
  \<^item> \<open>Syscall\<close>, \<open>Sysfile\<close>, \<open>Exec\<close>: \<^verbatim>\<open>syscall.c\<close>, \<^verbatim>\<open>sysproc.c\<close>, \<^verbatim>\<open>sysfile.c\<close>, \<^verbatim>\<open>exec.c\<close>. Arguments that are
    accepted lie inside the process.
  \<^item> \<open>Console\<close>: \<^verbatim>\<open>console.c\<close>, \<^verbatim>\<open>kbd.c\<close>, \<^verbatim>\<open>uart.c\<close>. Line editing on the input ring against lists.
    \<open>Trap\<close>: \<^verbatim>\<open>trap.c\<close>. No killed process returns to user space. \<open>Mp\<close>: \<^verbatim>\<open>mp.c\<close>.
  \<^item> \<open>Umalloc\<close>: \<^verbatim>\<open>umalloc.c\<close>. The circular free list in user memory; blocks handed out are apart from
    each other and from the free ones, and no memory is lost.
  \<^item> \<open>Ulib\<close>, \<open>Grep\<close>, \<open>Sh\<close>: \<^verbatim>\<open>printf.c\<close>, \<^verbatim>\<open>ulib.c\<close>, \<^verbatim>\<open>grep.c\<close>, \<^verbatim>\<open>sh.c\<close>. Printing and reading numbers, the
    matcher against the set of strings a pattern denotes, and the parser of the shell.

  \<^bold>\<open>Parameters.\<close> The end of the kernel image, the entry points of assembly code, the initial program
  and the device switch are arguments (\<open>kenv\<close>, \<open>penv\<close>), as are the bytes a device delivers, for \<open>trap\<close>
  what happens while the process is off the CPU, and for the user allocator the system call \<open>sbrk\<close>.
  What a property needs of them is a hypothesis of its statement.

  \<^bold>\<open>Bounds and fuel.\<close> Loops over memory or tables recurse on a count that the code's own bound
  gives. \<open>scan_list\<close> follows the buffer list for \<open>NBUF\<close> steps, all there are by the invariant;
  \<open>idequeue_last\<close> has one step per buffer, and the queue holds none twice; both invariants are
  proved kept, so neither returns \<open>Hang\<close>. The parser of the shell recurses on a depth, and
  \<open>parsecmd_terminates\<close> proves the depth it is given enough for every line. The walk of \<open>mpinit\<close> is
  a \<open>while_option\<close>, because for some tables it does not end; so is the search of \<open>free\<close>, and the
  search of \<open>malloc\<close> is a partial function: on a corrupted free list they do not end, and on one in
  order \<open>malloc_free_safe\<close> proves that they do.

  \<^bold>\<open>Not modelled.\<close>
  \<^item> Assembly: \<^verbatim>\<open>bootasm.S\<close>, \<^verbatim>\<open>entry.S\<close>, \<^verbatim>\<open>entryother.S\<close>, \<^verbatim>\<open>swtch.S\<close>, \<^verbatim>\<open>trapasm.S\<close>, \<^verbatim>\<open>initcode.S\<close>, \<^verbatim>\<open>usys.S\<close>.
    They save and load registers, which the model does not have; a context switch ends a step.
  \<^item> Device set-up: \<^verbatim>\<open>lapic.c\<close>, \<^verbatim>\<open>ioapic.c\<close>, \<^verbatim>\<open>picirq.c\<close>, \<open>seginit\<close>, the probe for a second disk. They
    write fixed values to registers whose effect only the hardware defines. \<^verbatim>\<open>bootmain.c\<close> and
    \<^verbatim>\<open>main.c\<close> call them in order before the first process runs.
  \<^item> The build tool \<^verbatim>\<open>mkfs.c\<close>, which runs on another system; properties of the file system start from
    a disk that is consistent, as their hypotheses say.
  \<^item> User programs that are one or two system calls (\<^verbatim>\<open>cat.c\<close>, \<^verbatim>\<open>echo.c\<close>, \<^verbatim>\<open>init.c\<close>, \<^verbatim>\<open>kill.c\<close>, \<^verbatim>\<open>ln.c\<close>,
    \<^verbatim>\<open>ls.c\<close>, \<^verbatim>\<open>mkdir.c\<close>, \<^verbatim>\<open>mknod.c\<close>, \<^verbatim>\<open>rm.c\<close>, \<^verbatim>\<open>wc.c\<close>, \<^verbatim>\<open>zombie.c\<close>), the tests (\<^verbatim>\<open>usertests.c\<close>, \<^verbatim>\<open>forktest.c\<close>,
    \<^verbatim>\<open>stressfs.c\<close>, \<^verbatim>\<open>testlseek.c\<close>, \<^verbatim>\<open>testread.c\<close>).
  \<^item> Interrupts in the middle of kernel code and the translation of user addresses in the
    middle of a copy: a kernel step runs to its end or to a switch.
\<close>

end
